(* ===== verification/Prelude.thy ===== *)
theory Prelude
  imports "HOL-Library.Word" "HOL-Library.Monad_Syntax"
begin

text \<open>
  The vocabulary every component shares: the machine integers of the Rust code as words, the
  ways an operation can fail to return (a panic, or undefined behaviour in an \<open>unsafe\<close> block),
  the result type \<open>'a res\<close> of a fallible operation with its sequencing, and the list, word and
  result lemmas the component theories rely on.
\<close>

section \<open>Machine integers\<close>

text \<open>
  \<open>u64\<close> and \<open>u32\<close> values are words: additions wrap, as they do for every atomic
  \<open>fetch_add\<close> and for plain arithmetic in the release profile that \<open>Cargo.toml\<close> configures.
  A \<open>usize\<close> is 64 bits wide on the targets of the code; counts, lengths and indices of that type
  are modelled by natural numbers, and \<open>usize_max\<close> is the value \<open>usize::MAX\<close>.
\<close>

type_synonym u64 = "64 word"
type_synonym u32 = "32 word"

abbreviation u64_max :: u64 where
  "u64_max \<equiv> - 1"

definition usize_max :: nat where
  "usize_max = 2 ^ 64 - 1"

text \<open>Rust's \<open>saturating_sub\<close> and \<open>saturating_add\<close> on unsigned integers.\<close>

definition saturating_sub :: "'a::len word \<Rightarrow> 'a word \<Rightarrow> 'a word" where
  "saturating_sub a b = (if b \<le> a then a - b else 0)"

definition saturating_add :: "'a::len word \<Rightarrow> 'a word \<Rightarrow> 'a word" where
  "saturating_add a b = (if a \<le> - 1 - b then a + b else - 1)"

lemma unat_saturating_sub: "unat (saturating_sub a b) = unat a - unat b"
  by (simp add: saturating_sub_def unat_sub word_le_nat_alt)

lemma saturating_sub_self [simp]: "saturating_sub a a = 0"
  by (simp add: saturating_sub_def)

lemma unat_less_u64_max: "x \<noteq> u64_max \<longleftrightarrow> x < (u64_max :: u64)"
  using word_order.not_eq_extremum by blast

lemma unat_u64_less: "unat (w :: u64) < 2 ^ 64"
  by (rule order.strict_trans2 [OF unsigned_less]) simp

lemma u64_max_not_less [simp]: "\<not> (u64_max :: u64) < x"
  using word_order.extremum_strict by blast

lemma le_u64_max [simp]: "x \<le> (u64_max :: u64)"
  by (rule word_order.extremum)

section \<open>Failures and results\<close>

text \<open>
  An operation of the program returns, panics, or runs into undefined behaviour: freeing a
  pointer whose allocation is no longer live is the case the reclamation code has to exclude.
\<close>

datatype failure =
    AssertionFailed
  | IndexOutOfBounds
  | DivisionByZero
  | InvalidDuration
  | DoubleFree

type_synonym 'a res = "failure + 'a"

fun bind_res :: "'a res \<Rightarrow> ('a \<Rightarrow> 'b res) \<Rightarrow> 'b res" where
  "bind_res (Inl e) f = Inl e"
| "bind_res (Inr x) f = f x"

definition returns :: "'a res \<Rightarrow> bool" where
  "returns r = (case r of Inl _ \<Rightarrow> False | Inr _ \<Rightarrow> True)"

lemma returns_simps [simp]:
  "returns (Inr x)"
  "\<not> returns (Inl e)"
  by (simp_all add: returns_def)

lemma returns_iff: "returns r \<longleftrightarrow> (\<exists>x. r = Inr x)"
  by (cases r) simp_all

lemma bind_res_Inr_iff: "bind_res r f = Inr y \<longleftrightarrow> (\<exists>x. r = Inr x \<and> f x = Inr y)"
  by (cases r) simp_all

lemma bind_res_cong [fundef_cong]:
  "r = r' \<Longrightarrow> (\<And>x. r' = Inr x \<Longrightarrow> f x = g x) \<Longrightarrow> bind_res r f = bind_res r' g"
  by (cases r') simp_all

section \<open>Lists\<close>

lemma sorted_takeWhile_less_eq_filter:
  "sorted (map f xs) \<Longrightarrow> takeWhile (\<lambda>x. f x < (c::'a::linorder)) xs = filter (\<lambda>x. f x < c) xs"
proof (induction xs)
  case Nil
  then show ?case by simp
next
  case (Cons x xs)
  show ?case
  proof (cases "f x < c")
    case True
    with Cons show ?thesis by simp
  next
    case False
    with Cons.prems have "\<forall>y \<in> set xs. \<not> f y < c" by fastforce
    with False show ?thesis by (simp add: filter_empty_conv)
  qed
qed

lemma sum_list_update_word:
  "i < length xs \<Longrightarrow> sum_list (xs[i := y]) = sum_list xs + (y - xs ! i :: u64)"
proof (induction xs arbitrary: i)
  case (Cons x xs)
  then show ?case by (cases i) simp_all
qed simp

end
