(* ===== verification/Float64.thy ===== *)
theory Float64
  imports Prelude "HOL-Library.Log_Nat" Complex_Main
begin

text \<open>
  The \<open>f64\<close> arithmetic of the Rust code: IEEE-754 binary64 with round-to-nearest, ties to even.
  A finite value is the rational number it denotes, so every operation is the exact rational
  result followed by one rounding; infinities and NaN are values of their own. The two zeros
  are one value here: no operation of the code tells them apart (it divides by no float that
  can be a negative zero and never inspects a sign bit).
  The rounding function is executable, monotone, and the identity on the binary64 grid; these
  three facts carry every bound that the components prove about the code's floating-point
  formulas.
\<close>

section \<open>Rounding a rational to the binary64 grid\<close>

text \<open>The exponent of a positive rational: the integer \<open>e\<close> with \<open>2\<^sup>e \<le> x < 2\<^sup>e\<^sup>+\<^sup>1\<close>.\<close>

definition ilog2 :: "rat \<Rightarrow> int" where
  "ilog2 x = (if 1 \<le> x then bitlen \<lfloor>x\<rfloor> - 1 else - bitlen (\<lceil>1 / x\<rceil> - 1))"

text \<open>The exponent of the unit in the last place; binary64 has 53 significant bits and its
  subnormal numbers end at \<open>2\<^sup>-\<^sup>1\<^sup>0\<^sup>7\<^sup>4\<close>.\<close>

definition ulp_exp :: "rat \<Rightarrow> int" where
  "ulp_exp x = max (ilog2 \<bar>x\<bar> - 52) (- 1074)"

text \<open>The nearest integer, ties to even.\<close>

definition rne_int :: "rat \<Rightarrow> int" where
  "rne_int y = (let f = \<lfloor>y\<rfloor>; r = y - of_int f in
     if r < 1 / 2 then f else if 1 / 2 < r then f + 1 else if even f then f else f + 1)"

definition rne :: "rat \<Rightarrow> rat" where
  "rne x = (if x = 0 then 0 else of_int (rne_int (x / 2 powi ulp_exp x)) * 2 powi ulp_exp x)"

text \<open>The grid: the rationals a finite binary64 number can denote, without the exponent's
  upper limit, which is an overflow check on the rounded value.\<close>

definition on_grid :: "rat \<Rightarrow> bool" where
  "on_grid x \<longleftrightarrow> (\<exists>m e. x = of_int m * 2 powi e \<and> \<bar>m\<bar> < 2 ^ 53 \<and> - 1074 \<le> e)"

definition overflow_bound :: rat where
  "overflow_bound = 2 ^ 1024"

lemma powi_pos [simp]: "0 < (2 :: rat) powi e"
  by (rule zero_less_power_int) simp

lemma powi_nonneg [simp]: "0 \<le> (2 :: rat) powi e"
  by (rule less_imp_le) simp

lemma powi_nonzero [simp]: "(2 :: rat) powi e \<noteq> 0"
  using powi_pos [of e] by linarith

lemma powi_mono: "a \<le> b \<Longrightarrow> (2 :: rat) powi a \<le> 2 powi b"
  by (rule power_int_increasing) auto

lemma powi_add: "(2 :: rat) powi (a + b) = 2 powi a * 2 powi b"
  by (rule power_int_add) simp

lemma powi_less_imp: "(2 :: rat) powi a < 2 powi b \<Longrightarrow> a < b"
  using powi_mono [of b a] by linarith

lemma powi_of_nat_int: "0 \<le> e \<Longrightarrow> (2 :: rat) powi e = of_int (2 ^ nat e)"
  by (simp add: power_int_nonneg_exp)

lemma ilog2_bounds_big:
  assumes "1 \<le> x"
  shows "2 powi ilog2 x \<le> x \<and> x < 2 powi (ilog2 x + 1)"
proof -
  define n where "n = \<lfloor>x\<rfloor>"
  have n: "1 \<le> n" using assms by (simp add: n_def le_floor_iff)
  have b: "2 ^ nat (bitlen n - 1) \<le> n" "n < 2 ^ nat (bitlen n)"
    using bitlen_bounds [of n] n by auto
  have k: "1 \<le> bitlen n" using n by (simp add: bitlen_ge_iff_power)
  have "of_int (2 ^ nat (bitlen n - 1)) \<le> x"
    using b(1) by (simp add: n_def le_floor_iff)
  moreover have "x < of_int (2 ^ nat (bitlen n))"
    using b(2) by (simp add: n_def floor_less_iff)
  ultimately show ?thesis
    using assms k powi_of_nat_int [of "bitlen n - 1"] powi_of_nat_int [of "bitlen n"]
    by (simp add: ilog2_def flip: n_def)
qed

lemma ilog2_bounds_small:
  assumes "0 < x" "x < 1"
  shows "2 powi ilog2 x \<le> x \<and> x < 2 powi (ilog2 x + 1)"
proof -
  define m where "m = \<lceil>1 / x\<rceil> - 1"
  have inv: "1 < 1 / x" using assms by (simp add: field_simps)
  have m: "1 \<le> m"
  proof -
    have "1 < \<lceil>1 / x\<rceil>" using inv by (simp add: less_ceiling_iff)
    then show ?thesis by (simp add: m_def)
  qed
  have b: "2 ^ nat (bitlen m - 1) \<le> m" "m < 2 ^ nat (bitlen m)"
    using bitlen_bounds [of m] m by auto
  have k: "1 \<le> bitlen m" using m by (simp add: bitlen_ge_iff_power)
  have "\<lceil>1 / x\<rceil> \<le> 2 ^ nat (bitlen m)" using b(2) by (simp add: m_def)
  then have "1 / x \<le> of_int (2 ^ nat (bitlen m))" by (simp only: ceiling_le_iff)
  then have up: "1 / x \<le> 2 powi bitlen m"
    using k powi_of_nat_int [of "bitlen m"] by simp
  have "of_int m < 1 / x"
    using ceiling_correct [of "1 / x"] by (simp add: m_def)
  moreover have "(of_int (2 ^ nat (bitlen m - 1)) :: rat) \<le> of_int m"
    using b(1) by (simp only: of_int_le_iff)
  ultimately have lo: "2 powi (bitlen m - 1) < 1 / x"
    using k powi_of_nat_int [of "bitlen m - 1"] by linarith
  have "2 powi (- bitlen m) \<le> x"
    using up assms by (simp add: power_int_minus field_simps)
  moreover have "x < 2 powi (- bitlen m + 1)"
  proof -
    have "x * 2 powi (bitlen m - 1) < 1"
      using lo assms by (simp add: field_simps)
    moreover have "(2 :: rat) powi (- bitlen m + 1) * 2 powi (bitlen m - 1) = 1"
      by (simp flip: powi_add)
    ultimately have "x * 2 powi (bitlen m - 1)
        < 2 powi (- bitlen m + 1) * 2 powi (bitlen m - 1)"
      by simp
    then show ?thesis by (simp add: mult_less_cancel_right)
  qed
  ultimately show ?thesis
    using assms(2) by (simp add: ilog2_def flip: m_def)
qed

lemma ilog2_bounds:
  assumes "0 < x"
  shows "2 powi ilog2 x \<le> x" and "x < 2 powi (ilog2 x + 1)"
  using assms ilog2_bounds_big [of x] ilog2_bounds_small [of x] by (cases "1 \<le> x"; simp)+

lemma ilog2_unique:
  assumes "2 powi e \<le> x" "x < 2 powi (e + 1)"
  shows "ilog2 x = e"
proof -
  have pos: "0 < x" using assms(1) powi_pos [of e] by linarith
  have "(2 :: rat) powi ilog2 x < 2 powi (e + 1)" "(2 :: rat) powi e < 2 powi (ilog2 x + 1)"
    using ilog2_bounds [OF pos] assms by linarith+
  then show ?thesis by (auto dest!: powi_less_imp)
qed

lemma ilog2_mono: "0 < x \<Longrightarrow> x \<le> y \<Longrightarrow> ilog2 x \<le> ilog2 y"
proof -
  assume "0 < x" "x \<le> y"
  then have "(2 :: rat) powi ilog2 x < 2 powi (ilog2 y + 1)"
    using ilog2_bounds(1) [of x] ilog2_bounds(2) [of y] by linarith
  then show ?thesis by (auto dest: powi_less_imp)
qed

section \<open>Properties of the rounding\<close>

lemma rne_int_of_int [simp]: "rne_int (of_int n) = n"
  by (simp add: rne_int_def)

lemma rne_int_floor_bounds: "\<lfloor>y\<rfloor> \<le> rne_int y" "rne_int y \<le> \<lfloor>y\<rfloor> + 1"
  by (auto simp: rne_int_def Let_def)

lemma rne_int_mono:
  assumes "x \<le> y"
  shows "rne_int x \<le> rne_int y"
proof (cases "\<lfloor>x\<rfloor> = \<lfloor>y\<rfloor>")
  case True
  with assms show ?thesis by (auto simp: rne_int_def Let_def)
next
  case False
  with assms have "\<lfloor>x\<rfloor> + 1 \<le> \<lfloor>y\<rfloor>"
    using floor_mono [of x y] by linarith
  with rne_int_floor_bounds [of x] rne_int_floor_bounds [of y] show ?thesis by linarith
qed

lemma rne_int_nearest: "\<bar>of_int (rne_int y) - y\<bar> \<le> \<bar>of_int n - y\<bar>"
proof -
  define f where "f = \<lfloor>y\<rfloor>"
  have f: "of_int f \<le> y" "y < of_int f + 1"
    using floor_correct [of y] by (simp_all add: f_def)
  have "rne_int y = f \<and> y - of_int f \<le> 1 / 2 \<or> rne_int y = f + 1 \<and> 1 / 2 \<le> y - of_int f"
    by (auto simp: rne_int_def Let_def simp flip: f_def)
  moreover have "n \<le> f \<or> f + 1 \<le> n" by linarith
  then have "(of_int n :: rat) \<le> of_int f \<or> of_int f + 1 \<le> (of_int n :: rat)"
    by (metis of_int_1 of_int_add of_int_le_iff)
  ultimately show ?thesis using f by auto
qed

lemma rne_int_half: "\<bar>of_int (rne_int y) - y\<bar> \<le> 1 / 2"
proof -
  define f where "f = \<lfloor>y\<rfloor>"
  have f: "of_int f \<le> y" "y < of_int f + 1"
    using floor_correct [of y] by (simp_all add: f_def)
  have "rne_int y = f \<and> y - of_int f \<le> 1 / 2 \<or> rne_int y = f + 1 \<and> 1 / 2 \<le> y - of_int f"
    by (auto simp: rne_int_def Let_def simp flip: f_def)
  then show ?thesis using f by auto
qed

lemma rne_int_minus: "rne_int (- y) = - rne_int y"
proof (cases "y = of_int \<lfloor>y\<rfloor>")
  case True
  then have "rne_int y = \<lfloor>y\<rfloor>" "rne_int (- y) = - \<lfloor>y\<rfloor>"
    by (metis rne_int_of_int, metis rne_int_of_int of_int_minus)
  then show ?thesis by simp
next
  case False
  define f where "f = \<lfloor>y\<rfloor>"
  have f: "of_int f < y" "y < of_int f + 1"
    using False floor_correct [of y] unfolding f_def by linarith+
  then have "\<lfloor>- y\<rfloor> = - f - 1" by (simp add: floor_eq_iff)
  moreover have "\<lfloor>y\<rfloor> = f" by (simp add: f_def)
  ultimately show ?thesis
    using f by (auto simp: rne_int_def Let_def)
qed

lemma rne_0 [simp]: "rne 0 = 0"
  by (simp add: rne_def)

lemma rne_minus: "rne (- x) = - rne x"
  by (simp add: rne_def ulp_exp_def rne_int_minus)

lemma rne_eq: "rne x = of_int (rne_int (x / 2 powi ulp_exp x)) * 2 powi ulp_exp x"
  using rne_int_of_int [of 0] by (simp add: rne_def)

lemma ulp_exp_ge: "- 1074 \<le> ulp_exp x" "ilog2 \<bar>x\<bar> - 52 \<le> ulp_exp x"
  by (simp_all add: ulp_exp_def)

lemma powi_div_int:
  assumes "u \<le> k"
  obtains n :: int where "(2 :: rat) powi k / 2 powi u = of_int n"
proof -
  have "(2 :: rat) powi k / 2 powi u = 2 powi (k - u)"
    by (simp add: power_int_diff)
  also have "\<dots> = of_int (2 ^ nat (k - u))"
    using assms by (intro powi_of_nat_int) simp
  finally show ?thesis by (rule that)
qed

lemma rne_le_powi:
  assumes "x \<le> 2 powi k" "ulp_exp x \<le> k"
  shows "rne x \<le> 2 powi k"
proof -
  obtain n where n: "(2 :: rat) powi k / 2 powi ulp_exp x = of_int n"
    using powi_div_int [OF assms(2)] .
  have "x / 2 powi ulp_exp x \<le> of_int n"
    using assms(1) by (simp add: divide_right_mono flip: n)
  from rne_int_mono [OF this] have "rne_int (x / 2 powi ulp_exp x) \<le> n" by simp
  then have "rne x \<le> of_int n * 2 powi ulp_exp x"
    by (simp add: rne_eq)
  then show ?thesis by (simp flip: n)
qed

lemma powi_le_rne:
  assumes "2 powi k \<le> x" "ulp_exp x \<le> k"
  shows "2 powi k \<le> rne x"
proof -
  obtain n where n: "(2 :: rat) powi k / 2 powi ulp_exp x = of_int n"
    using powi_div_int [OF assms(2)] .
  have "of_int n \<le> x / 2 powi ulp_exp x"
    using assms(1) by (simp add: divide_right_mono flip: n)
  from rne_int_mono [OF this] have "n \<le> rne_int (x / 2 powi ulp_exp x)" by simp
  then have "of_int n * 2 powi ulp_exp x \<le> rne x"
    by (simp add: rne_eq)
  then show ?thesis by (simp flip: n)
qed

lemma rne_nonneg: "0 \<le> x \<Longrightarrow> 0 \<le> rne x"
  using rne_int_mono [of 0 "x / 2 powi ulp_exp x"] rne_int_of_int [of 0]
  by (simp add: rne_eq)

lemma rne_mono_pos:
  assumes "0 < x" "x \<le> y"
  shows "rne x \<le> rne y"
proof (cases "ulp_exp x = ulp_exp y")
  case True
  have "x / 2 powi ulp_exp y \<le> y / 2 powi ulp_exp y"
    using assms(2) by (simp add: divide_right_mono)
  from rne_int_mono [OF this] True show ?thesis
    by (simp add: rne_eq)
next
  case False
  have il: "ilog2 x \<le> ilog2 y" using ilog2_mono assms by blast
  with False assms have u: "ulp_exp y = ilog2 y - 52" "ilog2 x < ilog2 y" "ulp_exp x \<le> ilog2 y - 52"
    by (auto simp: ulp_exp_def)
  have "x \<le> 2 powi ilog2 y"
    using ilog2_bounds(2) [OF assms(1)] powi_mono [of "ilog2 x + 1" "ilog2 y"] u(2) by linarith
  then have "rne x \<le> 2 powi ilog2 y" using u(3) by (intro rne_le_powi) auto
  also have "\<dots> \<le> rne y"
    using ilog2_bounds(1) [of y] assms u(1) by (intro powi_le_rne) auto
  finally show ?thesis .
qed

theorem rne_mono:
  assumes "x \<le> y"
  shows "rne x \<le> rne y"
proof -
  consider "0 < x" | "x \<le> 0" "0 \<le> y" | "y < 0" using assms by linarith
  then show ?thesis
  proof cases
    case 1
    then show ?thesis using assms by (rule rne_mono_pos)
  next
    case 2
    then have "0 \<le> rne y" "0 \<le> rne (- x)" by (auto intro: rne_nonneg)
    then show ?thesis by (simp add: rne_minus)
  next
    case 3
    then have "rne (- y) \<le> rne (- x)" using assms by (intro rne_mono_pos) auto
    then show ?thesis by (simp add: rne_minus)
  qed
qed

lemma on_grid_multiple:
  assumes "x = of_int m * 2 powi e" "\<bar>m\<bar> < 2 ^ 53" "- 1074 \<le> e" "x \<noteq> 0"
  shows "ulp_exp x \<le> e"
proof -
  have pos: "0 < \<bar>x\<bar>" using assms(4) by simp
  have "\<bar>x\<bar> = of_int \<bar>m\<bar> * 2 powi e" using assms(1) by (simp add: abs_mult)
  also have "(of_int \<bar>m\<bar> :: rat) < of_int (2 ^ 53)" using assms(2) by (simp only: of_int_less_iff)
  then have "of_int \<bar>m\<bar> * 2 powi e < (2 :: rat) powi 53 * 2 powi e"
    by (intro mult_strict_right_mono) simp_all
  also have "\<dots> = 2 powi (53 + e)" by (simp only: powi_add)
  finally have "(2 :: rat) powi ilog2 \<bar>x\<bar> < 2 powi (53 + e)"
    using ilog2_bounds(1) [OF pos] by linarith
  then show ?thesis using assms(3) by (auto simp: ulp_exp_def dest!: powi_less_imp)
qed

theorem rne_grid:
  assumes "on_grid x"
  shows "rne x = x"
proof (cases "x = 0")
  case True
  then show ?thesis by simp
next
  case False
  from assms obtain m e where me: "x = of_int m * 2 powi e" "\<bar>m\<bar> < 2 ^ 53" "- 1074 \<le> e"
    by (auto simp: on_grid_def)
  then have "ulp_exp x \<le> e" using False by (intro on_grid_multiple)
  then obtain n where n: "(2 :: rat) powi e / 2 powi ulp_exp x = of_int n"
    by (rule powi_div_int)
  have "x / 2 powi ulp_exp x = of_int (m * n)"
    using me(1) by (simp flip: n)
  then have "rne_int (x / 2 powi ulp_exp x) = m * n" by (simp only: rne_int_of_int)
  then have "rne x = of_int m * (of_int n * 2 powi ulp_exp x)" by (simp add: rne_eq)
  then show ?thesis using me(1) by (simp flip: n)
qed

lemma on_gridI:
  assumes "x = of_int m * 2 powi e" "\<bar>m\<bar> < 2 ^ 53" "- 1074 \<le> e"
  shows "on_grid x"
  using assms unfolding on_grid_def by blast

theorem on_grid_rne: "on_grid (rne x)"
proof (cases "x = 0")
  case True
  then show ?thesis by (auto simp: on_grid_def intro!: exI [of _ 0])
next
  case False
  define u where "u = ulp_exp x"
  define n where "n = rne_int (x / 2 powi u)"
  have pos: "0 < \<bar>x\<bar>" using False by simp
  have "\<bar>x\<bar> < 2 powi (ilog2 \<bar>x\<bar> + 1)" by (rule ilog2_bounds(2) [OF pos])
  also have "\<dots> \<le> 2 powi (53 + u)" by (intro powi_mono) (simp add: u_def ulp_exp_def)
  also have "\<dots> = 2 ^ 53 * 2 powi u" by (simp add: powi_add)
  finally have b: "\<bar>x / 2 powi u\<bar> \<le> of_int (2 ^ 53)"
    by (simp add: abs_divide pos_divide_le_eq)
  then have "rne_int (x / 2 powi u) \<le> rne_int (of_int (2 ^ 53))"
    and "rne_int (of_int (- (2 ^ 53))) \<le> rne_int (x / 2 powi u)"
    by (intro rne_int_mono; linarith)+
  then have "n \<le> 2 ^ 53" "- (2 ^ 53) \<le> n" by (simp_all only: rne_int_of_int n_def)
  then consider "\<bar>n\<bar> < 2 ^ 53" | "n = 2 ^ 53" | "n = - (2 ^ 53)" by linarith
  moreover have eq: "rne x = of_int n * 2 powi u" by (simp only: rne_eq n_def u_def)
  moreover have u: "- 1074 \<le> u" by (simp add: u_def ulp_exp_def)
  ultimately show ?thesis
  proof cases
    case 1
    then show ?thesis using eq u unfolding on_grid_def by blast
  next
    case 2
    then have "rne x = of_int (2 ^ 52) * 2 powi (u + 1)" by (simp add: eq powi_add)
    then show ?thesis using u by (intro on_gridI [of _ "2 ^ 52" "u + 1"]) simp_all
  next
    case 3
    then have "rne x = of_int (- (2 ^ 52)) * 2 powi (u + 1)" by (simp add: eq powi_add)
    then show ?thesis using u by (intro on_gridI [of _ "- (2 ^ 52)" "u + 1"]) simp_all
  qed
qed

lemma rne_idem [simp]: "rne (rne x) = rne x"
  by (rule rne_grid [OF on_grid_rne])

lemma rne_ulp: "\<bar>rne x - x\<bar> \<le> 2 powi ulp_exp x / 2"
proof -
  define p where "p = (2 :: rat) powi ulp_exp x"
  define y where "y = x / p"
  have p: "0 < p" by (simp add: p_def)
  then have x: "x = y * p" by (simp add: y_def)
  have "rne x - x = (of_int (rne_int y) - y) * p"
    by (simp add: rne_eq left_diff_distrib flip: p_def y_def x)
  then have "\<bar>rne x - x\<bar> = \<bar>of_int (rne_int y) - y\<bar> * p"
    using p by (simp add: abs_mult)
  also have "\<dots> \<le> 1 / 2 * p"
    using p by (intro mult_right_mono rne_int_half) simp
  finally show ?thesis by (simp add: p_def)
qed

lemma rne_between:
  assumes "on_grid a" "a \<le> x"
  shows "a \<le> rne x"
  using rne_mono [OF assms(2)] rne_grid [OF assms(1)] by simp

lemma rne_below:
  assumes "on_grid b" "x \<le> b"
  shows "rne x \<le> b"
  using rne_mono [OF assms(2)] rne_grid [OF assms(1)] by simp

lemma on_grid_of_int:
  assumes "\<bar>n\<bar> \<le> 2 ^ 53"
  shows "on_grid (of_int n)"
proof -
  consider "\<bar>n\<bar> < 2 ^ 53" | "n = 2 ^ 53" | "n = - (2 ^ 53)" using assms by linarith
  then show ?thesis
  proof cases
    case 1
    then show ?thesis by (intro on_gridI [of _ n 0]) auto
  next
    case 2
    then show ?thesis by (intro on_gridI [of _ "2 ^ 52" 1]) auto
  next
    case 3
    then show ?thesis by (intro on_gridI [of _ "- (2 ^ 52)" 1]) auto
  qed
qed

lemma on_grid_of_nat: "n \<le> 2 ^ 53 \<Longrightarrow> on_grid (of_nat n)"
  using on_grid_of_int [of "int n"] by simp

lemma on_grid_0 [simp]: "on_grid 0"
  using on_grid_of_int [of 0] by simp

lemma on_grid_1 [simp]: "on_grid 1"
  using on_grid_of_int [of 1] by simp

lemma on_grid_numeral: "numeral n \<le> (2 ^ 53 :: int) \<Longrightarrow> on_grid (numeral n)"
  using on_grid_of_int [of "numeral n"] by simp

lemma on_grid_minus:
  assumes "on_grid x"
  shows "on_grid (- x)"
proof -
  from assms obtain m e where "x = of_int m * 2 powi e" "\<bar>m\<bar> < 2 ^ 53" "- 1074 \<le> e"
    unfolding on_grid_def by blast
  then show ?thesis by (intro on_gridI [of _ "- m" e]) auto
qed

text \<open>How a rounding is evaluated: exhibit the 53-bit significand.\<close>

lemma rne_scaled:
  assumes "2 ^ 52 \<le> x * 2 ^ k" "x * 2 ^ k < 2 ^ 53" "k \<le> 1074"
  shows "rne x = of_int (rne_int (x * 2 ^ k)) / 2 ^ k"
proof -
  define u where "u = - int k"
  have pu: "(2 :: rat) powi u = 1 / 2 ^ k" by (simp add: u_def power_int_minus_divide)
  have "0 < x * 2 ^ k" using assms(1) by (rule less_le_trans [rotated]) simp
  then have x: "0 < x" by (simp add: zero_less_mult_iff)
  have "ilog2 x = u + 52"
  proof (rule ilog2_unique)
    have "2 powi (u + 52) = (2 ^ 52 :: rat) / 2 ^ k" by (simp only: powi_add pu) simp
    also have "\<dots> \<le> x" using assms(1) by (simp only: pos_divide_le_eq zero_less_power zero_less_numeral)
    finally show "2 powi (u + 52) \<le> x" .
    have "x < (2 ^ 53 :: rat) / 2 ^ k" using assms(2) by (simp only: pos_less_divide_eq zero_less_power zero_less_numeral)
    also have "\<dots> = 2 powi (u + 52 + 1)" by (simp only: powi_add pu) simp
    finally show "x < 2 powi (u + 52 + 1)" .
  qed
  then have ue: "ulp_exp x = u" using x assms(3) by (simp add: ulp_exp_def u_def)
  have sc: "x / 2 powi ulp_exp x = x * 2 ^ k" by (simp add: ue pu)
  show ?thesis by (simp add: rne_eq sc ue pu)
qed

lemma rne_int_close:
  assumes "\<bar>y - of_int m\<bar> < 1 / 2"
  shows "rne_int y = m"
proof -
  have "\<bar>of_int (rne_int y) - y\<bar> \<le> \<bar>of_int m - y\<bar>"
    by (rule rne_int_nearest)
  then have "\<bar>(of_int (rne_int y) :: rat) - of_int m\<bar> < 1"
    using assms by linarith
  then have "\<bar>rne_int y - m\<bar> < 1"
    by (simp only: of_int_diff [symmetric] of_int_abs [symmetric] of_int_less_1_iff)
  then show ?thesis by linarith
qed

lemma floor_numeral_divide [simp]:
  "\<lfloor>numeral a / numeral b :: rat\<rfloor> = numeral a div numeral b"
  by (metis floor_divide_of_int_eq of_int_numeral)

section \<open>Floating-point values and operations\<close>

datatype f64 = Fin rat | PInf | NInf | NaN

definition f64_of_rat :: "rat \<Rightarrow> f64" where
  "f64_of_rat x = (let y = rne x in
     if overflow_bound \<le> y then PInf else if y \<le> - overflow_bound then NInf else Fin y)"

text \<open>The values the type of the code has: finite values lie on the grid, below the overflow bound.\<close>

fun f64_ok :: "f64 \<Rightarrow> bool" where
  "f64_ok (Fin x) \<longleftrightarrow> on_grid x \<and> \<bar>x\<bar> < overflow_bound"
| "f64_ok _ \<longleftrightarrow> True"

fun f64_add :: "f64 \<Rightarrow> f64 \<Rightarrow> f64" where
  "f64_add (Fin a) (Fin b) = f64_of_rat (a + b)"
| "f64_add NaN _ = NaN"
| "f64_add _ NaN = NaN"
| "f64_add PInf NInf = NaN"
| "f64_add NInf PInf = NaN"
| "f64_add PInf _ = PInf"
| "f64_add _ PInf = PInf"
| "f64_add NInf _ = NInf"
| "f64_add _ NInf = NInf"

fun f64_neg :: "f64 \<Rightarrow> f64" where
  "f64_neg (Fin a) = Fin (- a)"
| "f64_neg PInf = NInf"
| "f64_neg NInf = PInf"
| "f64_neg NaN = NaN"

text \<open>The infinity with the sign of a non-zero rational; NaN for zero, as in \<open>0 * \<infinity>\<close> and \<open>0 / 0\<close>.\<close>

definition signed_inf :: "rat \<Rightarrow> f64" where
  "signed_inf a = (if 0 < a then PInf else if a < 0 then NInf else NaN)"

fun f64_mul :: "f64 \<Rightarrow> f64 \<Rightarrow> f64" where
  "f64_mul (Fin a) (Fin b) = f64_of_rat (a * b)"
| "f64_mul NaN _ = NaN"
| "f64_mul _ NaN = NaN"
| "f64_mul (Fin a) PInf = signed_inf a"
| "f64_mul (Fin a) NInf = signed_inf (- a)"
| "f64_mul PInf (Fin b) = signed_inf b"
| "f64_mul NInf (Fin b) = signed_inf (- b)"
| "f64_mul PInf PInf = PInf"
| "f64_mul NInf NInf = PInf"
| "f64_mul PInf NInf = NInf"
| "f64_mul NInf PInf = NInf"

fun f64_div :: "f64 \<Rightarrow> f64 \<Rightarrow> f64" where
  "f64_div (Fin a) (Fin b) = (if b = 0 then signed_inf a else f64_of_rat (a / b))"
| "f64_div NaN _ = NaN"
| "f64_div _ NaN = NaN"
| "f64_div (Fin a) _ = Fin 0"
| "f64_div PInf (Fin b) = (if 0 \<le> b then PInf else NInf)"
| "f64_div NInf (Fin b) = (if 0 \<le> b then NInf else PInf)"
| "f64_div _ _ = NaN"

fun f64_le :: "f64 \<Rightarrow> f64 \<Rightarrow> bool" where
  "f64_le (Fin a) (Fin b) \<longleftrightarrow> a \<le> b"
| "f64_le NaN _ \<longleftrightarrow> False"
| "f64_le _ NaN \<longleftrightarrow> False"
| "f64_le NInf _ \<longleftrightarrow> True"
| "f64_le _ PInf \<longleftrightarrow> True"
| "f64_le _ _ \<longleftrightarrow> False"

fun f64_lt :: "f64 \<Rightarrow> f64 \<Rightarrow> bool" where
  "f64_lt (Fin a) (Fin b) \<longleftrightarrow> a < b"
| "f64_lt NaN _ \<longleftrightarrow> False"
| "f64_lt _ NaN \<longleftrightarrow> False"
| "f64_lt NInf NInf \<longleftrightarrow> False"
| "f64_lt PInf PInf \<longleftrightarrow> False"
| "f64_lt NInf _ \<longleftrightarrow> True"
| "f64_lt _ PInf \<longleftrightarrow> True"
| "f64_lt _ _ \<longleftrightarrow> False"

text \<open>The arithmetic and comparison symbols, so that the code's formulas read as in the source.
  These are the bare operations: a comparison with NaN is false in both directions, so the type
  is no order.\<close>

instantiation f64 :: "{zero, one, plus, minus, uminus, times, inverse, ord}"
begin

definition zero_f64 :: f64 where
  "0 = Fin 0"

definition one_f64 :: f64 where
  "1 = Fin 1"

definition plus_f64 :: "f64 \<Rightarrow> f64 \<Rightarrow> f64" where
  "a + b = f64_add a b"

definition uminus_f64 :: "f64 \<Rightarrow> f64" where
  "- a = f64_neg a"

definition minus_f64 :: "f64 \<Rightarrow> f64 \<Rightarrow> f64" where
  "a - b = f64_add a (f64_neg b)"

definition times_f64 :: "f64 \<Rightarrow> f64 \<Rightarrow> f64" where
  "a * b = f64_mul a b"

definition divide_f64 :: "f64 \<Rightarrow> f64 \<Rightarrow> f64" where
  "a div b = f64_div a b"

definition inverse_f64 :: "f64 \<Rightarrow> f64" where
  "inverse a = f64_div (Fin 1) a"

definition less_eq_f64 :: "f64 \<Rightarrow> f64 \<Rightarrow> bool" where
  "a \<le> b \<longleftrightarrow> f64_le a b"

definition less_f64 :: "f64 \<Rightarrow> f64 \<Rightarrow> bool" where
  "a < b \<longleftrightarrow> f64_lt a b"

instance ..

end

lemma fin_arith [simp]:
  "Fin a + Fin b = f64_of_rat (a + b)"
  "Fin a - Fin b = f64_of_rat (a - b)"
  "Fin a * Fin b = f64_of_rat (a * b)"
  "b \<noteq> 0 \<Longrightarrow> Fin a / Fin b = f64_of_rat (a / b)"
  by (simp_all add: plus_f64_def minus_f64_def times_f64_def divide_f64_def)

lemma fin_compare [simp]:
  "Fin a \<le> Fin b \<longleftrightarrow> a \<le> b"
  "Fin a < Fin b \<longleftrightarrow> a < b"
  by (simp_all add: less_eq_f64_def less_f64_def)

lemma inf_compare [simp]:
  "NInf < Fin a" "Fin a < PInf" "\<not> Fin a < NInf" "\<not> PInf < Fin a"
  "NInf \<le> Fin a" "Fin a \<le> PInf" "\<not> Fin a \<le> NInf" "\<not> PInf \<le> Fin a"
  "\<not> NaN < v" "\<not> v < NaN" "\<not> NaN \<le> v" "\<not> v \<le> NaN"
  by (cases v; simp add: less_eq_f64_def less_f64_def)+

text \<open>\<open>f64::min\<close>, \<open>f64::clamp\<close> and \<open>f64::round\<close> (half away from zero).\<close>

definition f64_min :: "f64 \<Rightarrow> f64 \<Rightarrow> f64" where
  "f64_min a b = (if a = NaN then b else if b = NaN then a else if a < b then a else b)"

definition f64_max :: "f64 \<Rightarrow> f64 \<Rightarrow> f64" where
  "f64_max a b = (if a = NaN then b else if b = NaN then a else if b < a then a else b)"

definition f64_clamp :: "f64 \<Rightarrow> f64 \<Rightarrow> f64 \<Rightarrow> f64" where
  "f64_clamp lo hi x = (if x < lo then lo else if hi < x then hi else x)"

definition round_away :: "rat \<Rightarrow> int" where
  "round_away x = (if 0 \<le> x then \<lfloor>x + 1 / 2\<rfloor> else \<lceil>x - 1 / 2\<rceil>)"

fun f64_round :: "f64 \<Rightarrow> f64" where
  "f64_round (Fin x) = Fin (of_int (round_away x))"
| "f64_round y = y"

section \<open>Casts\<close>

text \<open>\<open>as f64\<close> rounds to nearest; \<open>as u64\<close> truncates towards zero and saturates, with NaN
  going to 0.\<close>

definition rat_of_u64 :: "u64 \<Rightarrow> rat" where
  "rat_of_u64 w = of_nat (unat w)"

definition f64_of_u64 :: "u64 \<Rightarrow> f64" where
  "f64_of_u64 w = f64_of_rat (rat_of_u64 w)"

definition f64_of_nat :: "nat \<Rightarrow> f64" where
  "f64_of_nat n = f64_of_rat (of_nat n)"

fun f64_to_u64 :: "f64 \<Rightarrow> u64" where
  "f64_to_u64 (Fin x) =
     (if x \<le> 0 then 0 else if 2 ^ 64 \<le> \<lfloor>x\<rfloor> then u64_max else word_of_int \<lfloor>x\<rfloor>)"
| "f64_to_u64 PInf = u64_max"
| "f64_to_u64 _ = 0"

text \<open>A decimal literal of the source.\<close>

abbreviation f64_lit :: "rat \<Rightarrow> f64" where
  "f64_lit \<equiv> f64_of_rat"

section \<open>Range facts\<close>

lemma overflow_bound_gt: "1 < overflow_bound" "2 ^ 65 < overflow_bound"
  unfolding overflow_bound_def by (rule one_less_power; simp) (rule power_strict_increasing; simp)

lemma overflow_bound_powi: "overflow_bound = 2 powi 1024"
  by (simp only: overflow_bound_def power_int_numeral)

lemma overflow_bound_grid: "on_grid overflow_bound"
  unfolding overflow_bound_def by (rule on_gridI [of _ 1 1024]) simp_all

lemma f64_ok_of_rat [simp]: "f64_ok (f64_of_rat x)"
  by (auto simp: f64_of_rat_def Let_def on_grid_rne abs_less_iff)

lemma f64_of_rat_grid:
  "on_grid x \<Longrightarrow> \<bar>x\<bar> < overflow_bound \<Longrightarrow> f64_of_rat x = Fin x"
  by (auto simp: f64_of_rat_def Let_def rne_grid abs_less_iff)

lemma f64_of_rat_0 [simp]: "f64_of_rat 0 = Fin 0"
  using overflow_bound_gt by (intro f64_of_rat_grid) auto

lemma f64_of_rat_1 [simp]: "f64_of_rat 1 = Fin 1"
  using overflow_bound_gt by (intro f64_of_rat_grid) auto

lemma f64_of_rat_small:
  assumes "\<bar>rne x\<bar> < overflow_bound"
  shows "f64_of_rat x = Fin (rne x)"
  using assms by (auto simp: f64_of_rat_def Let_def abs_less_iff)

definition f64_between :: "rat \<Rightarrow> rat \<Rightarrow> f64 \<Rightarrow> bool" where
  "f64_between a b v = (case v of Fin r \<Rightarrow> a \<le> r \<and> r \<le> b | _ \<Rightarrow> False)"

lemma f64_between_Fin [simp]: "f64_between a b (Fin r) \<longleftrightarrow> a \<le> r \<and> r \<le> b"
  by (simp add: f64_between_def)

lemma f64_betweenE:
  assumes "f64_between a b v"
  obtains r where "v = Fin r" "a \<le> r" "r \<le> b"
  using assms by (auto simp: f64_between_def split: f64.splits)

lemma f64_of_rat_between:
  assumes "on_grid a" "on_grid b" "a \<le> x" "x \<le> b"
    "- overflow_bound < a" "b < overflow_bound"
  shows "f64_of_rat x = Fin (rne x)" "a \<le> rne x" "rne x \<le> b"
proof -
  show "a \<le> rne x" "rne x \<le> b"
    using assms by (auto intro: rne_between rne_below)
  then show "f64_of_rat x = Fin (rne x)"
    using assms by (intro f64_of_rat_small) auto
qed

text \<open>Values of modest size never overflow.\<close>

lemma modest_no_overflow:
  assumes "\<bar>x\<bar> \<le> 2 ^ 65"
  shows "f64_of_rat x = Fin (rne x)"
proof -
  have g: "on_grid (2 ^ 65)" by (rule on_gridI [of _ 1 65]) simp_all
  have "- (2 ^ 65) \<le> x" "x \<le> 2 ^ 65" using assms by linarith+
  then show ?thesis
    using overflow_bound_gt
    by (intro f64_of_rat_between(1) [of "- (2 ^ 65)" "2 ^ 65"] on_grid_minus g) auto
qed

text \<open>The value of a decimal literal, or of a sum of literals, by exhibiting its significand.\<close>

lemma f64_of_rat_lit:
  assumes "2 ^ 52 \<le> x * 2 ^ k" "x * 2 ^ k < 2 ^ 53" "rne_int (x * 2 ^ k) = m" "k \<le> 1074"
  shows "f64_of_rat x = Fin (of_int m / 2 ^ k)"
proof -
  have "0 < x * 2 ^ k" using assms(1) by (rule less_le_trans [rotated]) simp
  then have pos: "0 < x" by (simp add: zero_less_mult_iff)
  have "x * 1 \<le> x * 2 ^ k" using pos by (intro mult_left_mono) simp_all
  then have "x \<le> 2 ^ 53" using assms(2) by linarith
  moreover have "(2 :: rat) ^ 53 \<le> 2 ^ 65" by (rule power_increasing) simp_all
  ultimately have "\<bar>x\<bar> \<le> 2 ^ 65" using pos by linarith
  then have "f64_of_rat x = Fin (rne x)" by (rule modest_no_overflow)
  also have "rne x = of_int m / 2 ^ k" using assms by (simp only: rne_scaled)
  finally show ?thesis .
qed

lemma rat_of_u64_nonneg [simp]: "0 \<le> rat_of_u64 w"
  unfolding rat_of_u64_def by (rule of_nat_0_le_iff)

lemma rat_of_u64_less: "rat_of_u64 w < 2 ^ 64"
proof -
  have "(of_nat (unat w) :: rat) < of_nat (2 ^ 64)"
    by (simp only: of_nat_less_iff unat_u64_less)
  then show ?thesis by (simp only: rat_of_u64_def of_nat_power of_nat_numeral)
qed

lemma rat_of_u64_mono [simp]: "rat_of_u64 v \<le> rat_of_u64 w \<longleftrightarrow> v \<le> w"
  unfolding rat_of_u64_def by (simp only: of_nat_le_iff word_le_nat_alt)

lemma rat_of_u64_0_1 [simp]: "rat_of_u64 0 = 0" "rat_of_u64 1 = 1"
  by (simp_all add: rat_of_u64_def)

lemma f64_of_u64_eq: "f64_of_u64 w = Fin (rne (rat_of_u64 w))"
proof -
  have "(2 :: rat) ^ 64 \<le> 2 ^ 65" by (rule power_increasing) simp_all
  then have "\<bar>rat_of_u64 w\<bar> \<le> 2 ^ 65"
    using rat_of_u64_less [of w] rat_of_u64_nonneg [of w] by linarith
  then show ?thesis unfolding f64_of_u64_def by (rule modest_no_overflow)
qed

lemma rne_u64_range: "0 \<le> rne (rat_of_u64 w)" "rne (rat_of_u64 w) \<le> 2 ^ 64"
proof -
  have "on_grid (2 ^ 64)" by (rule on_gridI [of _ 1 64]) simp_all
  then show "rne (rat_of_u64 w) \<le> 2 ^ 64"
    by (rule rne_below) (rule less_imp_le [OF rat_of_u64_less])
qed (simp add: rne_nonneg)

lemma rne_u64_small:
  assumes "unat w \<le> 2 ^ 53"
  shows "rne (rat_of_u64 w) = rat_of_u64 w"
  unfolding rat_of_u64_def by (rule rne_grid [OF on_grid_of_nat [OF assms]])

lemma f64_of_u64_small:
  assumes "unat w \<le> 2 ^ 53"
  shows "f64_of_u64 w = Fin (rat_of_u64 w)"
  by (simp only: f64_of_u64_eq rne_u64_small [OF assms])

lemma not_NaN_of_rat [simp]: "f64_of_rat x \<noteq> NaN"
  by (simp add: f64_of_rat_def Let_def)

lemma not_NaN_add: "v \<noteq> NaN \<Longrightarrow> v + Fin a \<noteq> NaN"
  by (cases v) (simp_all add: plus_f64_def)

lemma not_NaN_mult: "v \<noteq> NaN \<Longrightarrow> 0 < a \<Longrightarrow> v * Fin a \<noteq> NaN"
  by (cases v) (simp_all add: times_f64_def signed_inf_def)

lemma uint_f64_to_u64:
  assumes "0 \<le> x" "x < 2 ^ 64"
  shows "uint (f64_to_u64 (Fin x)) = \<lfloor>x\<rfloor>"
proof -
  have "\<lfloor>x\<rfloor> < 2 ^ 64" using assms(2) by (simp add: floor_less_iff)
  moreover have "0 \<le> \<lfloor>x\<rfloor>" using assms(1) by simp
  ultimately show ?thesis using assms(1)
    by (cases "x = 0") (auto simp: uint_word_of_int)
qed

lemma unat_f64_to_u64: "0 \<le> x \<Longrightarrow> x < 2 ^ 64 \<Longrightarrow> unat (f64_to_u64 (Fin x)) = nat \<lfloor>x\<rfloor>"
  by (simp only: unat_eq_nat_uint uint_f64_to_u64)

lemma f64_to_u64_mono:
  assumes "0 \<le> x" "x \<le> y" "y < 2 ^ 64"
  shows "f64_to_u64 (Fin x) \<le> f64_to_u64 (Fin y)"
  using assms floor_mono [of x y] by (simp only: word_le_def uint_f64_to_u64)

lemma f64_to_u64_of_nat:
  assumes "n < 2 ^ 64"
  shows "f64_to_u64 (Fin (of_nat n)) = of_nat n"
proof -
  have "(of_nat n :: rat) < of_nat (2 ^ 64)" using assms by (simp only: of_nat_less_iff)
  then have "uint (f64_to_u64 (Fin (of_nat n))) = \<lfloor>of_nat n :: rat\<rfloor>"
    by (intro uint_f64_to_u64) simp_all
  also have "\<dots> = int n" by simp
  also have "\<dots> = uint (of_nat n :: u64)" using assms by (simp add: uint_nat unat_of_nat)
  finally show ?thesis by (rule word_uint_eqI)
qed

declare f64_to_u64.simps(1) [simp del]

lemma f64_clamp_range:
  assumes "v \<noteq> NaN" "a \<le> b"
  obtains r where "f64_clamp (Fin a) (Fin b) v = Fin r" "a \<le> r" "r \<le> b"
proof (cases v)
  case (Fin x)
  then show ?thesis
    using assms(2) by (intro that [of "max a (min b x)"]) (auto simp: f64_clamp_def)
next
  case PInf
  then show ?thesis using assms(2) by (intro that [of b]) (auto simp: f64_clamp_def)
next
  case NInf
  then show ?thesis using assms(2) by (intro that [of a]) (auto simp: f64_clamp_def)
qed (use assms in simp)

section \<open>Rounded arithmetic as an interface\<close>

text \<open>
  What the formulas of the code rely on: a rounding that is monotone and keeps the points of a
  grid. The lemma about exponential moving averages holds for every such rounding.
\<close>

locale rounding =
  fixes rnd :: "rat \<Rightarrow> rat" and grid :: "rat \<Rightarrow> bool"
  assumes rnd_mono: "x \<le> y \<Longrightarrow> rnd x \<le> rnd y"
    and rnd_grid: "grid x \<Longrightarrow> rnd x = x"
    and grid_0: "grid 0"
    and grid_1: "grid 1"
begin

lemma rnd_between: "grid a \<Longrightarrow> grid b \<Longrightarrow> a \<le> x \<Longrightarrow> x \<le> b \<Longrightarrow> a \<le> rnd x \<and> rnd x \<le> b"
  using rnd_mono rnd_grid by metis

lemma rnd_unit: "0 \<le> x \<Longrightarrow> x \<le> 1 \<Longrightarrow> 0 \<le> rnd x \<and> rnd x \<le> 1"
  by (rule rnd_between [OF grid_0 grid_1])

lemma weighted_unit:
  assumes "grid c" "0 \<le> c" "0 \<le> x" "x \<le> 1"
  shows "0 \<le> rnd (x * c) \<and> rnd (x * c) \<le> c"
  using assms by (intro rnd_between grid_0) (auto intro: mult_left_le_one_le)

lemma ema_unit:
  assumes "grid c" "grid d" "0 \<le> c" "0 \<le> d" "c + d \<le> 1"
    and "0 \<le> x" "x \<le> 1" "0 \<le> y" "y \<le> 1"
  shows "0 \<le> rnd (rnd (x * c) + rnd (y * d)) \<and> rnd (rnd (x * c) + rnd (y * d)) \<le> 1"
  using weighted_unit [of c x] weighted_unit [of d y] assms by (intro rnd_unit) auto

lemma ratio_unit: "0 \<le> x \<Longrightarrow> x \<le> y \<Longrightarrow> 0 \<le> rnd (rnd x / rnd y) \<and> rnd (rnd x / rnd y) \<le> 1"
proof (rule rnd_unit)
  assume "0 \<le> x" "x \<le> y"
  then have "0 \<le> rnd x" "rnd x \<le> rnd y"
    using rnd_mono [of 0 x] rnd_mono [of x y] rnd_grid [OF grid_0] by auto
  then show "0 \<le> rnd x / rnd y" "rnd x / rnd y \<le> 1"
    by (auto simp: divide_le_eq_1)
qed

end

interpretation binary64: rounding rne on_grid
  by unfold_locales (auto intro: rne_mono rne_grid)

end
