(* ===== verification/Config.thy ===== *)
theory Config
  imports Float64
begin

text \<open>
  The constants of \<open>src/src/lib.rs\<close> (lines 34 to 68, 186, 405 and 470), with the binary64 values
  of the decimal literals and of the sums and differences the code forms from them. Some of those
  are not the decimal numbers they look like: \<open>SPI_SNAP_HEAVY - HYSTERESIS\<close> lies strictly below
  the binary64 value of \<open>0.55\<close>.
\<close>

section \<open>Constants\<close>

definition WINDOW_SIZE :: u64 where "WINDOW_SIZE = 256"

definition MAX_BATCH :: u64 where "MAX_BATCH = 64"

definition MIN_BATCH :: u64 where "MIN_BATCH = 1"

definition AF_BATCH_K :: nat where "AF_BATCH_K = 1"

definition BASE_STRIDE :: u64 where "BASE_STRIDE = 16"

definition ALPHA :: f64 where "ALPHA = f64_lit 4"

definition TREND_THRESHOLD :: f64 where "TREND_THRESHOLD = f64_lit (5 / 100)"

definition TREND_WEIGHT :: f64 where "TREND_WEIGHT = f64_lit (5 / 10)"

definition BASE_RETRY_MS :: u64 where "BASE_RETRY_MS = 1"

definition MAX_RETRY_MS :: u64 where "MAX_RETRY_MS = 32"

definition SPI_WRITE_HEAVY :: f64 where "SPI_WRITE_HEAVY = f64_lit (30 / 100)"

definition SPI_SNAP_HEAVY :: f64 where "SPI_SNAP_HEAVY = f64_lit (60 / 100)"

definition SPI_EMA_ALPHA :: f64 where "SPI_EMA_ALPHA = f64_lit (15 / 100)"

definition HOLD_LIMIT :: u64 where "HOLD_LIMIT = 8"

definition SCC_MIN_WINDOW_NS :: u64 where "SCC_MIN_WINDOW_NS = 100000"

definition SCC_MAX_WINDOW_NS :: u64 where "SCC_MAX_WINDOW_NS = 5000000"

definition SCC_TARGET_P99_NS :: u64 where "SCC_TARGET_P99_NS = 2000000"

definition MAX_THREADS :: nat where "MAX_THREADS = 256"

definition SIM_BASE_FREE_NS :: f64 where "SIM_BASE_FREE_NS = f64_lit 20"

definition SIM_CONTENDED_FREE_NS :: f64 where "SIM_CONTENDED_FREE_NS = f64_lit 150"

definition HYSTERESIS :: f64 where "HYSTERESIS = f64_lit (5 / 100)"

definition AGGRESSIVE_DRAIN_PER_OP :: nat where "AGGRESSIVE_DRAIN_PER_OP = 4"

definition CONTINUOUS_DRAIN_PER_OP :: nat where "CONTINUOUS_DRAIN_PER_OP = 1"

lemmas integer_consts =
  WINDOW_SIZE_def MAX_BATCH_def MIN_BATCH_def AF_BATCH_K_def BASE_STRIDE_def BASE_RETRY_MS_def
  MAX_RETRY_MS_def HOLD_LIMIT_def SCC_MIN_WINDOW_NS_def SCC_MAX_WINDOW_NS_def
  SCC_TARGET_P99_NS_def MAX_THREADS_def AGGRESSIVE_DRAIN_PER_OP_def CONTINUOUS_DRAIN_PER_OP_def

section \<open>The binary64 values of the literals\<close>

named_theorems literal_values

lemma lit_4 [literal_values]: "ALPHA = Fin 4"
  unfolding ALPHA_def using f64_of_rat_lit [of 4 50 "2 ^ 52"] by (simp add: rne_int_def Let_def)

lemma lit_0_5 [literal_values]: "TREND_WEIGHT = Fin (1 / 2)"
  unfolding TREND_WEIGHT_def using f64_of_rat_lit [of "5 / 10" 53 "2 ^ 52"] by (simp add: rne_int_def Let_def)

lemma lit_0_30 [literal_values]: "SPI_WRITE_HEAVY = Fin (5404319552844595 / 2 ^ 54)"
  unfolding SPI_WRITE_HEAVY_def using f64_of_rat_lit [of "30 / 100" 54 5404319552844595] by (simp add: rne_int_def Let_def)

lemma lit_0_60 [literal_values]: "SPI_SNAP_HEAVY = Fin (5404319552844595 / 2 ^ 53)"
  unfolding SPI_SNAP_HEAVY_def using f64_of_rat_lit [of "60 / 100" 53 5404319552844595] by (simp add: rne_int_def Let_def)

lemma lit_0_15 [literal_values]: "SPI_EMA_ALPHA = Fin (5404319552844595 / 2 ^ 55)"
  unfolding SPI_EMA_ALPHA_def using f64_of_rat_lit [of "15 / 100" 55 5404319552844595] by (simp add: rne_int_def Let_def)

lemma lit_0_05 [literal_values]:
  "HYSTERESIS = Fin (7205759403792794 / 2 ^ 57)"
  "TREND_THRESHOLD = Fin (7205759403792794 / 2 ^ 57)"
  unfolding HYSTERESIS_def TREND_THRESHOLD_def
  using f64_of_rat_lit [of "5 / 100" 57 7205759403792794] by (simp_all add: rne_int_def Let_def)

lemma ema_keep_value [literal_values]: "1 - SPI_EMA_ALPHA = Fin (7656119366529843 / 2 ^ 53)"
  using f64_of_rat_lit [of "1 - 5404319552844595 / 2 ^ 55" 53 7656119366529843]
  by (simp add: lit_0_15 one_f64_def rne_int_def Let_def)

lemma band_values [literal_values]:
  "SPI_WRITE_HEAVY + HYSTERESIS = Fin (6305039478318694 / 2 ^ 54)"
  "SPI_SNAP_HEAVY + HYSTERESIS = Fin (5854679515581645 / 2 ^ 53)"
  "SPI_WRITE_HEAVY - HYSTERESIS = Fin (1 / 4)"
  "SPI_SNAP_HEAVY - HYSTERESIS = Fin (4953959590107545 / 2 ^ 53)"
  using f64_of_rat_lit [of "5404319552844595 / 2 ^ 54 + 7205759403792794 / 2 ^ 57" 54 6305039478318694]
    f64_of_rat_lit [of "5404319552844595 / 2 ^ 53 + 7205759403792794 / 2 ^ 57" 53 5854679515581645]
    f64_of_rat_lit [of "5404319552844595 / 2 ^ 54 - 7205759403792794 / 2 ^ 57" 55 "2 ^ 53"]
    f64_of_rat_lit [of "5404319552844595 / 2 ^ 53 - 7205759403792794 / 2 ^ 57" 53 4953959590107545]
  by (simp_all add: lit_0_30 lit_0_60 lit_0_05 rne_int_def Let_def)

lemma lit_sim [literal_values]: "SIM_BASE_FREE_NS = Fin 20" "SIM_CONTENDED_FREE_NS = Fin 150"
  unfolding SIM_BASE_FREE_NS_def SIM_CONTENDED_FREE_NS_def
  using f64_of_rat_lit [of 20 48 "5 * 2 ^ 50"] f64_of_rat_lit [of 150 45 "75 * 2 ^ 46"] by (simp_all add: rne_int_def Let_def)

end
