(* ===== verification/Announce.thy ===== *)
theory Announce
  imports Config
begin

text \<open>
  The thread announcement table (\<open>AnnouncementSlot\<close>, \<open>AnnouncementTable\<close> in \<open>src/src/lib.rs\<close>): one
  slot per thread holding the timestamp of the snapshot it is reading, 0 for none, and the
  number of registered threads. \<open>min_active_ts\<close> is the timestamp below which the reclaimer frees.
  Each operation is a single run without interference; the interleaved scan is the subject of
  the theory \<open>Announce_Scan\<close>. A registration beyond the table panics after it has counted
  itself, so \<open>register\<close> returns the new table in both cases.
\<close>

section \<open>The table\<close>

record announcement_slot =
  active_ts :: u64

record announcement_table =
  slots :: "announcement_slot list"
  active_count :: u32

definition announcement_slot_new :: announcement_slot where
  "announcement_slot_new = \<lparr>active_ts = 0\<rparr>"

definition announcement_table_new :: announcement_table where
  "announcement_table_new =
     \<lparr>slots = replicate MAX_THREADS announcement_slot_new, active_count = 0\<rparr>"

definition register :: "announcement_table \<Rightarrow> announcement_table \<times> nat res" where
  "register t = (let tid = unat (active_count t); t' = t\<lparr>active_count := active_count t + 1\<rparr> in
     (t', if tid < MAX_THREADS then Inr tid else Inl AssertionFailed))"

definition announce :: "announcement_table \<Rightarrow> nat \<Rightarrow> u64 \<Rightarrow> announcement_table res" where
  "announce t tid ts =
     (if tid < length (slots t) then Inr (t\<lparr>slots := (slots t)[tid := \<lparr>active_ts = ts\<rparr>]\<rparr>)
      else Inl IndexOutOfBounds)"

definition release :: "announcement_table \<Rightarrow> nat \<Rightarrow> announcement_table res" where
  "release t tid =
     (if tid < length (slots t) then Inr (t\<lparr>slots := (slots t)[tid := \<lparr>active_ts = 0\<rparr>]\<rparr>)
      else Inl IndexOutOfBounds)"

text \<open>The body of the scan's loop: \<open>ts\<close> is the slot just read.\<close>

definition min_update :: "u64 \<Rightarrow> u64 \<Rightarrow> u64" where
  "min_update ts m = (if ts \<noteq> 0 \<and> ts < m then ts else m)"

fun scan_slots :: "announcement_slot list \<Rightarrow> nat list \<Rightarrow> u64 \<Rightarrow> u64 res" where
  "scan_slots ss [] m = Inr m"
| "scan_slots ss (i # is) m =
     (if i < length ss then scan_slots ss is (min_update (active_ts (ss ! i)) m)
      else Inl IndexOutOfBounds)"

definition min_active_ts :: "announcement_table \<Rightarrow> u64 res" where
  "min_active_ts t = scan_slots (slots t) [0..<unat (active_count t)] u64_max"

section \<open>Invariant and abstract view\<close>

text \<open>A table that every registration so far fitted into.\<close>

definition table_ok :: "announcement_table \<Rightarrow> bool" where
  "table_ok t \<longleftrightarrow> length (slots t) = MAX_THREADS \<and> unat (active_count t) \<le> MAX_THREADS"

definition registered :: "announcement_table \<Rightarrow> nat set" where
  "registered t = {0..<unat (active_count t)}"

text \<open>The abstract contents: which snapshot timestamp a thread has announced.\<close>

definition announced :: "announcement_table \<Rightarrow> nat \<rightharpoonup> u64" where
  "announced t i = (if i < length (slots t) \<and> active_ts (slots t ! i) \<noteq> 0
     then Some (active_ts (slots t ! i)) else None)"

definition active_timestamps :: "announcement_table \<Rightarrow> u64 set" where
  "active_timestamps t = ran (announced t |` registered t)"

lemma table_ok_new [simp]: "table_ok announcement_table_new"
  by (simp add: table_ok_def announcement_table_new_def)

lemma announced_new [simp]: "announced announcement_table_new = Map.empty"
  by (auto simp: announced_def announcement_table_new_def announcement_slot_new_def)

lemma active_count_add:
  assumes "unat (active_count t) \<le> MAX_THREADS"
  shows "unat (active_count t + 1) = Suc (unat (active_count t))"
proof -
  have "unat (active_count t) + 1 < 2 ^ 32" using assms by (simp add: MAX_THREADS_def)
  then show ?thesis by (simp add: unat_word_ariths)
qed

lemma register_ok:
  assumes "table_ok t" "unat (active_count t) < MAX_THREADS"
  obtains t' where "register t = (t', Inr (unat (active_count t)))" "table_ok t'"
    "slots t' = slots t" "registered t' = insert (unat (active_count t)) (registered t)"
  using assms active_count_add [of t]
  by (auto simp: register_def Let_def table_ok_def registered_def atLeast0_lessThan_Suc)

lemma announced_announce:
  assumes "announce t i ts = Inr t'"
  shows "announced t' = (if ts = 0 then (announced t)(i := None) else (announced t)(i \<mapsto> ts))"
    and "active_count t' = active_count t" and "table_ok t' = table_ok t"
  using assms
  by (auto simp: announce_def announced_def table_ok_def fun_eq_iff nth_list_update split: if_splits)

lemma announced_release:
  assumes "release t i = Inr t'"
  shows "announced t' = (announced t)(i := None)"
    and "active_count t' = active_count t" and "table_ok t' = table_ok t"
  using assms
  by (auto simp: release_def announced_def table_ok_def fun_eq_iff nth_list_update split: if_splits)

lemma registered_cong: "active_count t' = active_count t \<Longrightarrow> registered t' = registered t"
  by (simp add: registered_def)

section \<open>What the scan computes\<close>

lemma scan_slots_returns:
  "set is \<subseteq> {0..<length ss} \<Longrightarrow> \<exists>m'. scan_slots ss is m = Inr m'"
  by (induction "is" arbitrary: m) auto

lemma scan_slots_bounds:
  assumes "scan_slots ss is m = Inr m'"
  shows "m' \<le> m"
    and "i \<in> set is \<Longrightarrow> active_ts (ss ! i) \<noteq> 0 \<Longrightarrow> m' \<le> active_ts (ss ! i)"
    and "m' = m \<or> (\<exists>i \<in> set is. m' = active_ts (ss ! i) \<and> m' \<noteq> 0)"
  using assms
proof (induction "is" arbitrary: m)
  case Nil
  { case 1 then show ?case by simp }
  { case 2 then show ?case by simp }
  { case 3 then show ?case by simp }
next
  case (Cons j js)
  let ?m = "\<lambda>m. min_update (active_ts (ss ! j)) m"
  have um: "?m m \<le> m" for m by (auto simp: min_update_def)
  have uj: "active_ts (ss ! j) \<noteq> 0 \<Longrightarrow> ?m m \<le> active_ts (ss ! j)" for m
    by (auto simp: min_update_def)
  have uc: "?m m = m \<or> ?m m = active_ts (ss ! j) \<and> ?m m \<noteq> 0" for m
    by (auto simp: min_update_def)
  have rest: "scan_slots ss js (?m m) = Inr m'" if "scan_slots ss (j # js) m = Inr m'" for m
    using that by (auto split: if_splits)
  {
    case 1
    from Cons.IH(1) [OF rest [OF 1]] um show ?case by (rule order.trans)
  next
    case 2
    from Cons.IH(1) [OF rest [OF 2(3)]] Cons.IH(2) [OF _ _ rest [OF 2(3)]] uj [of m] 2(1,2) show ?case
      by (metis order.trans set_ConsD)
  next
    case 3
    from Cons.IH(3) [OF rest [OF 3]] uc [of m] show ?case by auto
  }
qed

lemma active_timestamps_iff:
  assumes "table_ok t"
  shows "ts \<in> active_timestamps t
    \<longleftrightarrow> (\<exists>i < unat (active_count t). active_ts (slots t ! i) = ts \<and> ts \<noteq> 0)"
  using assms
  by (auto simp: active_timestamps_def ran_def restrict_map_def announced_def registered_def
      table_ok_def split: if_splits)

lemma finite_active_timestamps: "table_ok t \<Longrightarrow> finite (active_timestamps t)"
proof -
  assume "table_ok t"
  then have "active_timestamps t \<subseteq> (\<lambda>i. active_ts (slots t ! i)) ` {0..<unat (active_count t)}"
    by (auto simp: active_timestamps_iff)
  then show ?thesis by (rule finite_subset) simp
qed

lemma min_active_ts_bounds:
  assumes "table_ok t"
  shows "\<exists>m. min_active_ts t = Inr m \<and> (\<forall>ts \<in> active_timestamps t. m \<le> ts)
    \<and> (m = u64_max \<or> m \<in> active_timestamps t)"
proof -
  have "set [0..<unat (active_count t)] \<subseteq> {0..<length (slots t)}"
    using assms by (auto simp: table_ok_def)
  then obtain m where m: "min_active_ts t = Inr m"
    using scan_slots_returns unfolding min_active_ts_def by metis
  note b = scan_slots_bounds [OF m [unfolded min_active_ts_def]]
  have "\<forall>ts \<in> active_timestamps t. m \<le> ts"
    using b(2) by (auto simp: active_timestamps_iff [OF assms])
  moreover have "m = u64_max \<or> m \<in> active_timestamps t"
    using b(3) by (auto simp: active_timestamps_iff [OF assms])
  ultimately show ?thesis using m by blast
qed

lemma min_active_ts_Min:
  assumes "table_ok t"
  shows "min_active_ts t = Inr (Min (insert u64_max (active_timestamps t)))"
proof -
  obtain m where m: "min_active_ts t = Inr m" "\<forall>ts \<in> active_timestamps t. m \<le> ts"
    "m = u64_max \<or> m \<in> active_timestamps t"
    using min_active_ts_bounds [OF assms] by blast
  have "Min (insert u64_max (active_timestamps t)) = m"
    using m(2,3) finite_active_timestamps [OF assms] by (intro Min_eqI) auto
  with m(1) show ?thesis by simp
qed

section \<open>The registry of snapshots as an interface\<close>

text \<open>
  What the reclaimer relies on when it asks for the timestamp below which nodes are free: the
  contents of the registry, seen as a partial map from threads to timestamps, changes only at the
  thread that announces or releases, and the minimum is a lower bound of it that is attained.
\<close>

datatype registry_op = Announces nat u64 | Releases nat

fun op_thread :: "registry_op \<Rightarrow> nat" where
  "op_thread (Announces i _) = i"
| "op_thread (Releases i) = i"

fun run_registry ::
  "('t \<Rightarrow> nat \<Rightarrow> u64 \<Rightarrow> 't res) \<Rightarrow> ('t \<Rightarrow> nat \<Rightarrow> 't res) \<Rightarrow> registry_op list \<Rightarrow> 't \<Rightarrow> 't res" where
  "run_registry ann rel [] t = Inr t"
| "run_registry ann rel (Announces i ts # ops) t = bind_res (ann t i ts) (run_registry ann rel ops)"
| "run_registry ann rel (Releases i # ops) t = bind_res (rel t i) (run_registry ann rel ops)"

locale snapshot_registry =
  fixes ann :: "'t \<Rightarrow> nat \<Rightarrow> u64 \<Rightarrow> 't res"
    and rel :: "'t \<Rightarrow> nat \<Rightarrow> 't res"
    and min_ts :: "'t \<Rightarrow> u64 res"
    and contents :: "'t \<Rightarrow> nat \<rightharpoonup> u64"
    and members :: "'t \<Rightarrow> nat set"
    and inv :: "'t \<Rightarrow> bool"
  assumes ann_law: "inv t \<Longrightarrow> i \<in> members t \<Longrightarrow>
      \<exists>t'. ann t i ts = Inr t' \<and> inv t' \<and> members t' = members t \<and>
        contents t' = (contents t)(i := (if ts = 0 then None else Some ts))"
    and rel_law: "inv t \<Longrightarrow> i \<in> members t \<Longrightarrow>
      \<exists>t'. rel t i = Inr t' \<and> inv t' \<and> members t' = members t \<and>
        contents t' = (contents t)(i := None)"
    and min_law: "inv t \<Longrightarrow>
      \<exists>m. min_ts t = Inr m \<and> (\<forall>i \<in> members t. \<forall>ts. contents t i = Some ts \<longrightarrow> m \<le> ts) \<and>
        (m = u64_max \<or> (\<exists>i \<in> members t. contents t i = Some m))"
begin

lemma run_keeps:
  assumes "inv t" "\<forall>x \<in> set ops. op_thread x \<in> members t \<and> op_thread x \<noteq> i"
  shows "\<exists>t'. run_registry ann rel ops t = Inr t' \<and> inv t' \<and> members t' = members t
    \<and> contents t' i = contents t i"
  using assms
proof (induction ops arbitrary: t)
  case Nil
  then show ?case by simp
next
  case (Cons x ops)
  obtain t' where t': "run_registry ann rel (x # ops) t = run_registry ann rel ops t'"
    "inv t'" "members t' = members t" "contents t' i = contents t i"
  proof (cases x)
    case (Announces j ts)
    with Cons.prems have j: "j \<in> members t" "j \<noteq> i" by auto
    obtain t' where "ann t j ts = Inr t'" "inv t'" "members t' = members t"
      "contents t' = (contents t)(j := (if ts = 0 then None else Some ts))"
      using ann_law [OF Cons.prems(1) j(1)] by blast
    with j(2) show ?thesis by (intro that [of t']) (simp_all add: Announces)
  next
    case (Releases j)
    with Cons.prems have j: "j \<in> members t" "j \<noteq> i" by auto
    obtain t' where "rel t j = Inr t'" "inv t'" "members t' = members t"
      "contents t' = (contents t)(j := None)"
      using rel_law [OF Cons.prems(1) j(1)] by blast
    with j(2) show ?thesis by (intro that [of t']) (simp_all add: Releases)
  qed
  then show ?case using Cons.IH [of t'] Cons.prems by auto
qed

lemma pinned_run:
  assumes "inv t" "i \<in> members t" "contents t i = Some ts"
    and "\<forall>x \<in> set ops. op_thread x \<in> members t \<and> op_thread x \<noteq> i"
  shows "\<exists>t' m. run_registry ann rel ops t = Inr t' \<and> min_ts t' = Inr m \<and> m \<le> ts"
proof -
  obtain t' where t': "run_registry ann rel ops t = Inr t'" "inv t'" "members t' = members t"
    "contents t' i = contents t i"
    using run_keeps [OF assms(1,4)] by blast
  obtain m where "min_ts t' = Inr m" "\<forall>i \<in> members t'. \<forall>ts. contents t' i = Some ts \<longrightarrow> m \<le> ts"
    using min_law [OF t'(2)] by blast
  with t' assms(2,3) show ?thesis by auto
qed

lemma min_of_empty:
  assumes "inv t" "\<And>i. i \<in> members t \<Longrightarrow> contents t i = None"
  shows "min_ts t = Inr u64_max"
  using min_law [OF assms(1)] assms(2) by auto

end

interpretation announcements: snapshot_registry announce release min_active_ts announced registered table_ok
proof (unfold_locales, goal_cases)
  case (1 t i ts)
  then have "i < length (slots t)" by (auto simp: table_ok_def registered_def)
  then obtain t' where t': "announce t i ts = Inr t'" by (auto simp: announce_def)
  then show ?case using announced_announce [OF t'] registered_cong [of t' t] 1 by simp
next
  case (2 t i)
  then have "i < length (slots t)" by (auto simp: table_ok_def registered_def)
  then obtain t' where t': "release t i = Inr t'" by (auto simp: release_def)
  then show ?case using announced_release [OF t'] registered_cong [of t' t] 2 by simp
next
  case (3 t)
  have act: "ts \<in> active_timestamps t \<longleftrightarrow> (\<exists>i \<in> registered t. announced t i = Some ts)" for ts
    by (auto simp: active_timestamps_def ran_def restrict_map_def)
  obtain m where m: "min_active_ts t = Inr m" "\<forall>ts \<in> active_timestamps t. m \<le> ts"
    "m = u64_max \<or> m \<in> active_timestamps t"
    using min_active_ts_bounds [OF 3] by blast
  have "\<forall>i \<in> registered t. \<forall>ts. announced t i = Some ts \<longrightarrow> m \<le> ts"
    using m(2) act by blast
  then show ?case using m(1,3) act by blast
qed

section \<open>Properties\<close>

text \<open>On a table that every registration fitted into, the scan does not panic and returns the
  smallest timestamp announced by a registered thread, \<open>u64::MAX\<close> when there is none.\<close>

theorem scan_is_minimum:
  assumes "table_ok t"
  shows "min_active_ts t = Inr (Min (insert u64_max (active_timestamps t)))"
  by (rule min_active_ts_Min [OF assms])

definition two_readers :: announcement_table where
  "two_readers = announcement_table_new
     \<lparr>slots := (slots announcement_table_new)[0 := \<lparr>active_ts = 9\<rparr>, 1 := \<lparr>active_ts = 4\<rparr>],
      active_count := 2\<rparr>"

lemma table_ok_two_readers: "table_ok two_readers"
  by (simp add: two_readers_def table_ok_def announcement_table_new_def MAX_THREADS_def)

theorem scan_is_minimum_witness:
  "min_active_ts two_readers = Inr (Min (insert u64_max (active_timestamps two_readers)))"
  by (rule scan_is_minimum [OF table_ok_two_readers])

text \<open>Once a registered thread has announced a snapshot, the reclamation timestamp stays at or
  below that snapshot through every sequence of announcements and releases by other threads, until
  the thread itself releases or announces again.\<close>

theorem announced_snapshot_pins_minimum:
  assumes "table_ok t" "i \<in> registered t" "ts \<noteq> 0" "announce t i ts = Inr t1"
    and "\<forall>x \<in> set ops. op_thread x \<in> registered t \<and> op_thread x \<noteq> i"
  shows "\<exists>t2 m. run_registry announce release ops t1 = Inr t2 \<and> min_active_ts t2 = Inr m \<and> m \<le> ts"
proof (rule announcements.pinned_run)
  show "table_ok t1" "announced t1 i = Some ts" "i \<in> registered t1"
    using announced_announce [OF assms(4)] assms(1-3) registered_cong [of t1 t] by simp_all
  show "\<forall>x \<in> set ops. op_thread x \<in> registered t1 \<and> op_thread x \<noteq> i"
    using assms(5) registered_cong [OF announced_announce(2) [OF assms(4)]] by simp
qed

theorem announced_snapshot_pins_minimum_witness:
  "\<exists>t1 t2 m. announce two_readers 0 3 = Inr t1 \<and>
     run_registry announce release [Releases 1, Announces 1 8] t1 = Inr t2 \<and>
     min_active_ts t2 = Inr m \<and> m \<le> 3"
proof -
  have r: "registered two_readers = {0, 1}" by (auto simp: registered_def two_readers_def)
  obtain t1 where "announce two_readers 0 3 = Inr t1"
    by (simp add: announce_def two_readers_def announcement_table_new_def MAX_THREADS_def)
  with announced_snapshot_pins_minimum [OF table_ok_two_readers, of 0 3 t1 "[Releases 1, Announces 1 8]"]
  show ?thesis by (auto simp: r)
qed

text \<open>Registering \<open>n\<close> threads one after the other.\<close>

fun register_many :: "nat \<Rightarrow> announcement_table \<Rightarrow> announcement_table \<times> nat res list" where
  "register_many 0 t = (t, [])"
| "register_many (Suc n) t =
     (let (t', r) = register t; (t'', rs) = register_many n t' in (t'', r # rs))"

lemma register_many_ok:
  assumes "table_ok t" "unat (active_count t) + n \<le> MAX_THREADS"
  shows "\<exists>t'. register_many n t = (t', map Inr [unat (active_count t)..<unat (active_count t) + n])
    \<and> table_ok t' \<and> slots t' = slots t \<and> unat (active_count t') = unat (active_count t) + n"
  using assms
proof (induction n arbitrary: t)
  case 0
  then show ?case by simp
next
  case (Suc n)
  define t1 where "t1 = t\<lparr>active_count := active_count t + 1\<rparr>"
  have c: "unat (active_count t1) = Suc (unat (active_count t))"
    unfolding t1_def using Suc.prems by (simp add: active_count_add)
  have "table_ok t1" "unat (active_count t1) + n \<le> MAX_THREADS"
    unfolding table_ok_def c using Suc.prems by (simp_all add: t1_def table_ok_def)
  then obtain t' where "register_many n t1 = (t', map Inr [Suc (unat (active_count t))..<Suc (unat (active_count t)) + n])"
    "table_ok t'" "slots t' = slots t1" "unat (active_count t') = Suc (unat (active_count t)) + n"
    using Suc.IH [of t1] c by auto
  moreover have "register t = (t1, Inr (unat (active_count t)))"
    using Suc.prems by (simp add: register_def t1_def)
  moreover have "slots t1 = slots t" by (simp add: t1_def)
  ultimately show ?case
    by (simp add: upt_conv_Cons [of "unat (active_count t)"])
qed

text \<open>The first 256 registrations succeed, hand out the slot indices in order without repetition,
  and leave every slot empty.\<close>

theorem registrations_get_own_slots:
  assumes "n \<le> MAX_THREADS"
  shows "\<exists>t. register_many n announcement_table_new = (t, map Inr [0..<n]) \<and> table_ok t \<and>
    registered t = {0..<n} \<and> announced t = Map.empty"
proof -
  have z: "unat (active_count announcement_table_new) = 0" by (simp add: announcement_table_new_def)
  obtain t where t: "register_many n announcement_table_new = (t, map Inr [0..<n])" "table_ok t"
    "slots t = slots announcement_table_new" "unat (active_count t) = n"
    using register_many_ok [OF table_ok_new, of n] assms z by auto
  have "announced t = announced announcement_table_new"
    unfolding announced_def t(3) by simp
  with t show ?thesis by (auto simp: registered_def)
qed

theorem registrations_get_own_slots_witness:
  "\<exists>t. register_many 2 announcement_table_new = (t, [Inr 0, Inr 1])"
  using registrations_get_own_slots [of 2] by (auto simp: MAX_THREADS_def upt_rec)


definition full_table :: announcement_table where
  "full_table = announcement_table_new\<lparr>active_count := 256\<rparr>"


end
