(* ===== verification/Limbo.thy ===== *)
theory Limbo
  imports Config
begin

text \<open>
  Retired nodes and the limbo bag (\<open>VersionNode\<close>, \<open>Retired\<close>, \<open>LimboBag\<close> in \<open>src/src/lib.rs\<close>),
  over an explicit memory: the boxes the Rust allocator has live, and the calls made to foreign
  free functions. \<open>Box::new\<close> takes an address that was never handed out before, so freeing a
  box twice is always visible as \<open>DoubleFree\<close>; in the code it is undefined behaviour.
  The drain loop is shown to free exactly the oldest eligible prefix of the bag, bounded by its
  budget, and never to free a box twice.
\<close>

section \<open>Memory and nodes\<close>

type_synonym addr = nat

text \<open>A C function pointer of type \<open>unsafe extern "C" fn(*mut u8)\<close>, by name.\<close>

type_synonym free_fn = string

record 'v version_node =
  node_value :: 'v
  birth_ts :: u64
  next_ptr :: u64

record 'v memory =
  boxes :: "addr \<rightharpoonup> 'v version_node"
  next_box :: addr
  foreign_frees :: "(free_fn \<times> addr) list"

definition empty_memory :: "'v memory" where
  "empty_memory = \<lparr>boxes = Map.empty, next_box = 0, foreign_frees = []\<rparr>"

definition version_node_new :: "'v \<Rightarrow> u64 \<Rightarrow> 'v memory \<Rightarrow> addr \<times> 'v memory" where
  "version_node_new v ts m =
     (next_box m,
      m\<lparr>boxes := (boxes m)(next_box m \<mapsto> \<lparr>node_value = v, birth_ts = ts, next_ptr = 0\<rparr>),
        next_box := Suc (next_box m)\<rparr>)"

datatype retired = Owned addr | Foreign addr free_fn

text \<open>Freeing one entry: \<open>drop(Box::from_raw(ptr))\<close>, or the call of the node's own free function.\<close>

fun free_entry :: "retired \<Rightarrow> 'v memory \<Rightarrow> 'v memory res" where
  "free_entry (Owned p) m =
     (if boxes m p = None then Inl DoubleFree else Inr (m\<lparr>boxes := (boxes m)(p := None)\<rparr>))"
| "free_entry (Foreign p f) m = Inr (m\<lparr>foreign_frees := foreign_frees m @ [(f, p)]\<rparr>)"

section \<open>The bag\<close>

type_synonym limbo_bag = "(u64 \<times> retired) list"

definition limbo_bag_new :: limbo_bag where
  "limbo_bag_new = []"

definition limbo_push :: "limbo_bag \<Rightarrow> u64 \<Rightarrow> addr \<Rightarrow> limbo_bag" where
  "limbo_push q ts p = q @ [(ts, Owned p)]"

definition limbo_push_raw :: "limbo_bag \<Rightarrow> u64 \<Rightarrow> addr \<Rightarrow> free_fn \<Rightarrow> limbo_bag" where
  "limbo_push_raw q ts p f = q @ [(ts, Foreign p f)]"

definition limbo_len :: "limbo_bag \<Rightarrow> nat" where
  "limbo_len q = length q"

fun drain_loop ::
  "u64 \<Rightarrow> nat \<Rightarrow> nat \<Rightarrow> limbo_bag \<Rightarrow> 'v memory \<Rightarrow> (nat \<times> limbo_bag \<times> 'v memory) res" where
  "drain_loop safe_ts k freed [] m = Inr (freed, [], m)"
| "drain_loop safe_ts k freed ((ts, entry) # q) m =
     (if freed < k then
        if ts < safe_ts
        then bind_res (free_entry entry m) (drain_loop safe_ts k (freed + 1) q)
        else Inr (freed, (ts, entry) # q, m)
      else Inr (freed, (ts, entry) # q, m))"

definition drain :: "limbo_bag \<Rightarrow> u64 \<Rightarrow> nat \<Rightarrow> 'v memory \<Rightarrow> (nat \<times> limbo_bag \<times> 'v memory) res" where
  "drain q safe_ts k m = drain_loop safe_ts k 0 q m"

section \<open>Specification\<close>

text \<open>The entries a drain is to free: at most \<open>k\<close> from the front, stopping at the first one that
  is not older than the safe timestamp.\<close>

definition eligible :: "u64 \<Rightarrow> u64 \<times> retired \<Rightarrow> bool" where
  "eligible safe_ts e \<longleftrightarrow> fst e < safe_ts"

definition drained :: "limbo_bag \<Rightarrow> u64 \<Rightarrow> nat \<Rightarrow> limbo_bag" where
  "drained q safe_ts k = take k (takeWhile (eligible safe_ts) q)"

fun owned_addr :: "u64 \<times> retired \<Rightarrow> addr option" where
  "owned_addr (ts, Owned p) = Some p"
| "owned_addr (ts, Foreign p f) = None"

fun foreign_call :: "u64 \<times> retired \<Rightarrow> (free_fn \<times> addr) option" where
  "foreign_call (ts, Owned p) = None"
| "foreign_call (ts, Foreign p f) = Some (f, p)"

definition owned_addrs :: "limbo_bag \<Rightarrow> addr list" where
  "owned_addrs q = List.map_filter owned_addr q"

definition foreign_calls :: "limbo_bag \<Rightarrow> (free_fn \<times> addr) list" where
  "foreign_calls q = List.map_filter foreign_call q"

definition free_all :: "limbo_bag \<Rightarrow> 'v memory \<Rightarrow> 'v memory" where
  "free_all q m = m\<lparr>boxes := (boxes m) |` (- set (owned_addrs q)),
     foreign_frees := foreign_frees m @ foreign_calls q\<rparr>"

text \<open>A bag owns its boxes: they are live and no two entries name the same one.\<close>

definition bag_ok :: "limbo_bag \<Rightarrow> 'v memory \<Rightarrow> bool" where
  "bag_ok q m \<longleftrightarrow> distinct (owned_addrs q) \<and> set (owned_addrs q) \<subseteq> dom (boxes m)"

text \<open>The allocator's own invariant.\<close>

definition memory_ok :: "'v memory \<Rightarrow> bool" where
  "memory_ok m \<longleftrightarrow> (\<forall>p \<in> dom (boxes m). p < next_box m)"

lemma owned_addrs_simps [simp]:
  "owned_addrs [] = []"
  "owned_addrs ((ts, Owned p) # q) = p # owned_addrs q"
  "owned_addrs ((ts, Foreign p f) # q) = owned_addrs q"
  by (simp_all add: owned_addrs_def List.map_filter_simps)

lemma foreign_calls_simps [simp]:
  "foreign_calls [] = []"
  "foreign_calls ((ts, Owned p) # q) = foreign_calls q"
  "foreign_calls ((ts, Foreign p f) # q) = (f, p) # foreign_calls q"
  by (simp_all add: foreign_calls_def List.map_filter_simps)

lemma owned_addrs_append [simp]: "owned_addrs (xs @ ys) = owned_addrs xs @ owned_addrs ys"
  by (simp add: owned_addrs_def List.map_filter_def)

lemma free_all_Nil [simp]: "free_all [] m = m"
  by (simp add: free_all_def restrict_map_def)

lemma free_entry_ok:
  assumes "bag_ok ((ts, e) # q) m"
  obtains m' where "free_entry e m = Inr m'" "bag_ok q m'"
    "\<And>r. free_all r m' = free_all ((ts, e) # r) m"
proof (cases e)
  case (Owned p)
  with assms have "boxes m p \<noteq> None" "p \<notin> set (owned_addrs q)" by (auto simp: bag_ok_def)
  then show ?thesis
    using assms Owned
    by (intro that [of "m\<lparr>boxes := (boxes m)(p := None)\<rparr>"])
      (auto simp: bag_ok_def free_all_def restrict_map_def fun_eq_iff)
next
  case (Foreign p f)
  then show ?thesis
    using assms
    by (intro that [of "m\<lparr>foreign_frees := foreign_frees m @ [(f, p)]\<rparr>"])
      (auto simp: bag_ok_def free_all_def)
qed

lemma drained_simps:
  "drained [] safe_ts k = []"
  "drained (e # q) safe_ts 0 = []"
  "drained (e # q) safe_ts (Suc k) = (if fst e < safe_ts then e # drained q safe_ts k else [])"
  by (simp_all add: drained_def eligible_def)

lemma drain_loop_correct:
  assumes "bag_ok q m"
  shows "drain_loop safe_ts (freed + k) freed q m
    = Inr (freed + length (drained q safe_ts k), drop (length (drained q safe_ts k)) q,
           free_all (drained q safe_ts k) m)"
  using assms
proof (induction q arbitrary: freed k m)
  case Nil
  then show ?case by (simp add: drained_simps)
next
  case (Cons x q)
  obtain ts e where x: "x = (ts, e)" by (cases x)
  show ?case
  proof (cases k)
    case 0
    then show ?thesis by (simp add: x drained_simps)
  next
    case (Suc k')
    obtain m' where m': "free_entry e m = Inr m'" "bag_ok q m'"
      "\<And>r. free_all r m' = free_all ((ts, e) # r) m"
      using free_entry_ok [of ts e q m] Cons.prems x by blast
    show ?thesis
      using Cons.IH [OF m'(2), of "Suc freed" k'] m'(1,3) Suc
      by (simp add: x drained_simps)
  qed
qed

lemma drain_correct:
  "bag_ok q m \<Longrightarrow> drain q safe_ts k m
    = Inr (length (drained q safe_ts k), drop (length (drained q safe_ts k)) q,
           free_all (drained q safe_ts k) m)"
  using drain_loop_correct [of q m safe_ts 0 k] by (simp add: drain_def)

section \<open>Ownership is preserved\<close>

lemma drained_take: "drained q safe_ts k = take (length (drained q safe_ts k)) q"
proof -
  define xs ys where "xs = takeWhile (eligible safe_ts) q" and "ys = dropWhile (eligible safe_ts) q"
  have "take (length (take k xs)) (xs @ ys) = take k xs"
    by (cases "k \<le> length xs") simp_all
  moreover have "xs @ ys = q" by (simp add: xs_def ys_def)
  ultimately show ?thesis by (simp add: drained_def flip: xs_def)
qed

lemma drained_prefix: "drained q safe_ts k @ drop (length (drained q safe_ts k)) q = q"
  by (subst (1) drained_take) (rule append_take_drop_id)

lemma length_drained_le: "length (drained q safe_ts k) \<le> k"
  "length (drained q safe_ts k) \<le> length q"
  using length_takeWhile_le [of "eligible safe_ts" q] by (simp_all add: drained_def)

lemma drained_older:
  assumes "e \<in> set (drained q safe_ts k)"
  shows "fst e < safe_ts"
proof -
  have "e \<in> set (takeWhile (eligible safe_ts) q)"
    using assms unfolding drained_def by (rule in_set_takeD)
  then show ?thesis by (auto simp: eligible_def dest: set_takeWhileD)
qed

lemma drained_all:
  assumes "\<forall>e \<in> set q. fst e < safe_ts"
  shows "drained q safe_ts k = take k q"
proof -
  have "takeWhile (eligible safe_ts) q = q"
    using assms by (simp add: eligible_def takeWhile_eq_all_conv)
  then show ?thesis by (simp only: drained_def)
qed

lemma drained_sorted:
  assumes "sorted (map fst q)"
  shows "drained q safe_ts k = take k (filter (eligible safe_ts) q)"
  unfolding drained_def eligible_def
  by (simp add: sorted_takeWhile_less_eq_filter [OF assms, unfolded o_def])

lemma bag_ok_split:
  assumes "bag_ok (xs @ ys) m"
  shows "bag_ok ys (free_all xs m)"
  using assms by (auto simp: bag_ok_def free_all_def)

lemma bag_ok_drained:
  assumes "bag_ok q m"
  shows "bag_ok (drop (length (drained q safe_ts k)) q) (free_all (drained q safe_ts k) m)"
  by (rule bag_ok_split) (simp add: assms drained_prefix)

lemma memory_ok_free_all: "memory_ok m \<Longrightarrow> memory_ok (free_all q m)"
  by (auto simp: memory_ok_def free_all_def restrict_map_def split: if_splits)

lemma bag_ok_new [simp]: "bag_ok [] m"
  by (simp add: bag_ok_def)

text \<open>A box that is live and in no bag may be retired.\<close>

lemma bag_ok_push:
  assumes "bag_ok q m" "boxes m p \<noteq> None" "p \<notin> set (owned_addrs q)"
  shows "bag_ok (limbo_push q ts p) m"
  using assms by (auto simp: bag_ok_def limbo_push_def)

lemma bag_ok_push_raw: "bag_ok q m \<Longrightarrow> bag_ok (limbo_push_raw q ts p f) m"
  by (auto simp: bag_ok_def limbo_push_raw_def)

lemma version_node_new_ok:
  assumes "memory_ok m" "bag_ok q m" "version_node_new v ts m = (p, m')"
  shows "memory_ok m'" "bag_ok q m'" "boxes m p = None" "boxes m' p \<noteq> None"
    "p \<notin> set (owned_addrs q)"
proof -
  have p: "p = next_box m" "boxes m' = (boxes m)(p \<mapsto> \<lparr>node_value = v, birth_ts = ts, next_ptr = 0\<rparr>)"
    "next_box m' = Suc p"
    using assms(3) by (auto simp: version_node_new_def)
  show "boxes m p = None" using assms(1) p(1) by (auto simp: memory_ok_def)
  then show "p \<notin> set (owned_addrs q)" "bag_ok q m'" "boxes m' p \<noteq> None"
    using assms(2) p by (auto simp: bag_ok_def)
  show "memory_ok m'" using assms(1) p by (auto simp: memory_ok_def less_Suc_eq)
qed

section \<open>Several bags\<close>

text \<open>Every box is in at most one of the bags.\<close>

definition apart :: "limbo_bag list \<Rightarrow> bool" where
  "apart qs \<longleftrightarrow> (\<forall>i < length qs. \<forall>j < length qs. i \<noteq> j \<longrightarrow>
     set (owned_addrs (qs ! i)) \<inter> set (owned_addrs (qs ! j)) = {})"

lemma apart_update:
  assumes "apart qs" "\<And>j. j < length qs \<Longrightarrow> j \<noteq> i \<Longrightarrow> set (owned_addrs (qs ! j)) \<inter> set (owned_addrs q) = {}"
  shows "apart (qs[i := q])"
  unfolding apart_def
proof (intro allI impI)
  fix j k
  assume jk: "j < length (qs[i := q])" "k < length (qs[i := q])" "j \<noteq> k"
  then show "set (owned_addrs (qs[i := q] ! j)) \<inter> set (owned_addrs (qs[i := q] ! k)) = {}"
    using assms(1) assms(2) [of j] assms(2) [of k]
    by (cases "j = i"; cases "k = i") (auto simp: apart_def)
qed

section \<open>The bag as an interface\<close>

text \<open>
  What the reclamation policies rely on: a push adds one entry, and a drain within a budget
  returns how many entries it removed, all of the budget if every entry is old enough.
\<close>

locale retire_bag =
  fixes push :: "'b \<Rightarrow> u64 \<Rightarrow> addr \<Rightarrow> 'b"
    and drn :: "'b \<Rightarrow> u64 \<Rightarrow> nat \<Rightarrow> 'm \<Rightarrow> (nat \<times> 'b \<times> 'm) res"
    and size_of :: "'b \<Rightarrow> nat"
    and stamps :: "'b \<Rightarrow> u64 set"
    and owns :: "'b \<Rightarrow> 'm \<Rightarrow> bool"
  assumes push_size: "size_of (push b ts p) = Suc (size_of b)"
    and push_stamps: "stamps (push b ts p) = insert ts (stamps b)"
    and drain_law: "owns b m \<Longrightarrow> \<exists>n b' m'. drn b s k m = Inr (n, b', m') \<and> owns b' m'
      \<and> n \<le> k \<and> size_of b' + n = size_of b \<and> stamps b' \<subseteq> stamps b
      \<and> ((\<forall>ts \<in> stamps b. ts < s) \<longrightarrow> n = min k (size_of b))"
begin

text \<open>One write: the node just retired, then a drain of at most \<open>k\<close>.\<close>

lemma push_drain:
  assumes "owns (push b ts p) m"
  shows "\<exists>n b' m'. drn (push b ts p) s k m = Inr (n, b', m') \<and> owns b' m' \<and> n \<le> k
    \<and> size_of b' + n = Suc (size_of b) \<and> stamps b' \<subseteq> insert ts (stamps b)"
  using drain_law [OF assms, of s k] unfolding push_size push_stamps by blast

lemma push_drain_all_old:
  assumes "owns (push b ts p) m" "ts < s" "\<forall>t \<in> stamps b. t < s"
  shows "\<exists>b' m'. drn (push b ts p) s k m = Inr (min k (Suc (size_of b)), b', m') \<and> owns b' m'
    \<and> size_of b' = Suc (size_of b) - k \<and> stamps b' \<subseteq> insert ts (stamps b)"
proof -
  obtain n b' m' where d: "drn (push b ts p) s k m = Inr (n, b', m')" "owns b' m'"
    "size_of b' + n = Suc (size_of b)" "stamps b' \<subseteq> insert ts (stamps b)"
    "n = min k (Suc (size_of b))"
    using drain_law [OF assms(1), of s k] assms(2,3) by (auto simp: push_size push_stamps)
  then show ?thesis by auto
qed

end

definition bag_stamps :: "limbo_bag \<Rightarrow> u64 set" where
  "bag_stamps q = fst ` set q"

interpretation limbo: retire_bag limbo_push drain limbo_len bag_stamps bag_ok
proof (unfold_locales, goal_cases)
  case (1 b ts p)
  then show ?case by (simp add: limbo_len_def limbo_push_def)
next
  case (2 b ts p)
  then show ?case by (simp add: bag_stamps_def limbo_push_def)
next
  case (3 b m s k)
  define d where "d = drained b s k"
  have "drain b s k m = Inr (length d, drop (length d) b, free_all d m)"
    unfolding d_def using 3 by (rule drain_correct)
  moreover have "bag_ok (drop (length d) b) (free_all d m)"
    unfolding d_def using 3 by (rule bag_ok_drained)
  moreover have "bag_stamps (drop (length d) b) \<subseteq> bag_stamps b"
    by (auto simp: bag_stamps_def dest: in_set_dropD)
  moreover have "(\<forall>ts \<in> bag_stamps b. ts < s) \<longrightarrow> length d = min k (length b)"
    by (auto simp: bag_stamps_def d_def drained_all)
  ultimately show ?case
    using length_drained_le [of b s k] by (auto simp: limbo_len_def d_def)
qed

section \<open>Properties\<close>

text \<open>C25: Draining frees exactly the longest prefix of the bag, within the budget, whose timestamps are
  below the safe one: it never frees a box twice, the count it returns is the number freed, and
  the rest of the bag still owns live, distinct boxes.\<close>

theorem drain_frees_oldest_prefix:
  fixes q :: limbo_bag and m :: "'v memory" and safe_ts :: u64 and k :: nat
  assumes "bag_ok q m"
  defines "n \<equiv> min k (length (takeWhile (\<lambda>e. fst e < safe_ts) q))"
  shows "drain q safe_ts k m = Inr (n, drop n q, free_all (take n q) m) \<and>
    bag_ok (drop n q) (free_all (take n q) m)"
proof -
  have "length (drained q safe_ts k) = n"
    by (simp add: drained_def n_def eligible_def [abs_def] min.commute)
  with drain_correct [OF assms(1), of safe_ts k] bag_ok_drained [OF assms(1), of safe_ts k]
    drained_take [of q safe_ts k]
  show ?thesis by simp
qed

definition two_boxes :: "nat memory" where
  "two_boxes = snd (version_node_new 8 5 (snd (version_node_new 7 3 empty_memory)))"

definition small_bag :: limbo_bag where
  "small_bag = limbo_push (limbo_push_raw (limbo_push limbo_bag_new 3 0) 4 77 ''cpp_free'') 5 1"

lemma small_bag_ok: "bag_ok small_bag two_boxes"
  by (auto simp: bag_ok_def small_bag_def two_boxes_def version_node_new_def empty_memory_def
      limbo_push_def limbo_push_raw_def limbo_bag_new_def)

theorem drain_frees_oldest_prefix_witness:
  "drain small_bag 5 8 two_boxes = Inr (2, [(5, Owned 1)], free_all (take 2 small_bag) two_boxes)"
proof -
  have "min 8 (length (takeWhile (\<lambda>e. fst e < 5) small_bag)) = 2" "drop 2 small_bag = [(5, Owned 1)]"
    by (simp_all add: small_bag_def limbo_push_def limbo_push_raw_def limbo_bag_new_def)
  with drain_frees_oldest_prefix [OF small_bag_ok, of 5 8] show ?thesis by simp
qed

lemma protected_entry:
  assumes "bag_ok q m" "drain q safe_ts k m = Inr (n, q', m')"
    and "(ts, Owned p) \<in> set q" "safe_ts \<le> ts"
  shows "(ts, Owned p) \<in> set q' \<and> boxes m' p = boxes m p"
proof -
  define d where "d = drained q safe_ts k"
  have r: "q' = drop (length d) q" "m' = free_all d m"
    using trans [OF assms(2) [symmetric] drain_correct [OF assms(1)]] by (simp_all add: d_def)
  have split: "d @ q' = q" unfolding r(1) d_def by (rule drained_prefix)
  have "(ts, Owned p) \<notin> set d"
    using drained_older [of "(ts, Owned p)" q safe_ts k] assms(4) by (auto simp: d_def)
  with assms(3) split have "(ts, Owned p) \<in> set q'" by (metis UnE set_append)
  then have "p \<in> set (owned_addrs q')"
    by (force simp: owned_addrs_def List.map_filter_def image_iff)
  moreover have "distinct (owned_addrs d @ owned_addrs q')"
    using assms(1) split by (metis bag_ok_def owned_addrs_append)
  ultimately have "boxes m' p = boxes m p" by (auto simp: r(2) free_all_def restrict_map_def)
  with \<open>(ts, Owned p) \<in> set q'\<close> show ?thesis by simp
qed

text \<open>No drain touches a protected node: what an entry whose timestamp is not below the safe one
  owns is in memory unchanged afterwards, and the entry is still in the bag.\<close>

theorem drain_keeps_protected:
  assumes "bag_ok q m" "drain q safe_ts k m = Inr (n, q', m')"
    and "(ts, Owned p) \<in> set q" "safe_ts \<le> ts"
  shows "(ts, Owned p) \<in> set q' \<and> boxes m' p = boxes m p"
  by (rule protected_entry [OF assms])

theorem drain_keeps_protected_witness:
  "\<exists>n q' m'. drain small_bag 5 8 two_boxes = Inr (n, q', m') \<and> (5, Owned 1) \<in> set q' \<and>
     boxes m' 1 = boxes two_boxes 1"
proof -
  obtain n q' m' where "drain small_bag 5 8 two_boxes = Inr (n, q', m')"
    using drain_correct [OF small_bag_ok, of 5 8] by auto
  with drain_keeps_protected [OF small_bag_ok this, of 5 1] show ?thesis
    by (simp add: small_bag_def limbo_push_def)
qed

text \<open>A bag filled in timestamp order drains completely: with budget enough, every eligible entry
  is freed, wherever it is.\<close>

theorem drain_sorted_is_complete:
  assumes "bag_ok q m" "sorted (map fst q)" "length q \<le> k"
  shows "drain q safe_ts k m = Inr (length (filter (eligible safe_ts) q),
    filter (\<lambda>e. \<not> eligible safe_ts e) q, free_all (filter (eligible safe_ts) q) m)"
proof -
  have d: "drained q safe_ts k = filter (eligible safe_ts) q"
    using order.trans [OF length_filter_le assms(3)] by (simp add: drained_sorted [OF assms(2)])
  have tw: "takeWhile (eligible safe_ts) q = filter (eligible safe_ts) q"
    using sorted_takeWhile_less_eq_filter [OF assms(2)] by (simp add: eligible_def [abs_def])
  have "dropWhile (eligible safe_ts) q = filter (\<lambda>e. \<not> eligible safe_ts e) q"
    using assms(2)
  proof (induction q)
    case (Cons e q)
    then show ?case by (auto simp: eligible_def filter_id_conv intro!: sym [OF filter_True])
  qed simp
  moreover have "drop (length (takeWhile (eligible safe_ts) q)) q = dropWhile (eligible safe_ts) q"
    by (rule dropWhile_eq_drop [symmetric])
  ultimately show ?thesis using drain_correct [OF assms(1), of safe_ts k] by (simp add: d tw)
qed

theorem drain_sorted_is_complete_witness:
  "drain small_bag 9 3 two_boxes = Inr (3, [], free_all small_bag two_boxes)"
  using drain_sorted_is_complete [OF small_bag_ok, of 3 9]
  by (simp add: small_bag_def limbo_push_def limbo_push_raw_def limbo_bag_new_def eligible_def)

text \<open>The drain looks only at the front: while the oldest push is protected nothing is freed,
  however many later entries are eligible.\<close>

theorem drain_blocked_by_front:
  assumes "safe_ts \<le> ts"
  shows "drain ((ts, e) # q) safe_ts k m = Inr (0, (ts, e) # q, m)"
proof -
  have "\<not> ts < safe_ts" using assms by (simp add: not_less)
  then show ?thesis by (simp add: drain_def)
qed

theorem drain_blocked_by_front_witness:
  "drain [(6, Foreign 1 ''f''), (2, Foreign 2 ''f'')] 5 8 (empty_memory :: nat memory)
    = Inr (0, [(6, Foreign 1 ''f''), (2, Foreign 2 ''f'')], empty_memory)"
  by (rule drain_blocked_by_front) simp

text \<open>A life of a bag: pushes of nodes handed over by the caller, and drains.\<close>

datatype bag_op = Push u64 addr | Push_Raw u64 addr free_fn | Drain u64 nat

fun run_bag :: "bag_op list \<Rightarrow> limbo_bag \<Rightarrow> 'v memory \<Rightarrow> (nat \<times> limbo_bag \<times> 'v memory) res" where
  "run_bag [] q m = Inr (0, q, m)"
| "run_bag (Push ts p # ops) q m = run_bag ops (limbo_push q ts p) m"
| "run_bag (Push_Raw ts p f # ops) q m = run_bag ops (limbo_push_raw q ts p f) m"
| "run_bag (Drain s k # ops) q m =
     bind_res (drain q s k m) (\<lambda>(n, q', m').
       bind_res (run_bag ops q' m') (\<lambda>(n', q'', m''). Inr (n + n', q'', m'')))"

fun op_entries :: "bag_op list \<Rightarrow> limbo_bag" where
  "op_entries [] = []"
| "op_entries (Push ts p # ops) = (ts, Owned p) # op_entries ops"
| "op_entries (Push_Raw ts p f # ops) = (ts, Foreign p f) # op_entries ops"
| "op_entries (Drain s k # ops) = op_entries ops"

lemma free_all_append: "free_all ys (free_all xs m) = free_all (xs @ ys) m"
  by (auto simp: free_all_def foreign_calls_def List.map_filter_def restrict_map_def fun_eq_iff)

lemma run_bag_correct:
  assumes "bag_ok (q @ op_entries ops) m"
  shows "\<exists>n. n \<le> length (q @ op_entries ops) \<and>
    run_bag ops q m = Inr (n, drop n (q @ op_entries ops), free_all (take n (q @ op_entries ops)) m)"
  using assms
proof (induction ops arbitrary: q m)
  case Nil
  then show ?case by (intro exI [of _ 0]) simp
next
  case (Cons x ops)
  show ?case
  proof (cases x)
    case (Push ts p)
    then show ?thesis using Cons.IH [of "limbo_push q ts p" m] Cons.prems by (simp add: limbo_push_def)
  next
    case (Push_Raw ts p f)
    then show ?thesis using Cons.IH [of "limbo_push_raw q ts p f" m] Cons.prems by (simp add: limbo_push_raw_def)
  next
    case (Drain s k)
    let ?d = "drained q s k"
    define q' where "q' = drop (length ?d) q"
    have split: "?d @ q' @ op_entries ops = q @ op_entries ops"
      unfolding q'_def by (metis append.assoc drained_prefix)
    have "bag_ok q m" using Cons.prems by (auto simp: bag_ok_def)
    then have d: "drain q s k m = Inr (length ?d, q', free_all ?d m)"
      unfolding q'_def by (rule drain_correct)
    have "bag_ok (q' @ op_entries ops) (free_all ?d m)"
      using Cons.prems unfolding Drain op_entries.simps split [symmetric] by (rule bag_ok_split)
    from Cons.IH [OF this] obtain n where n: "n \<le> length (q' @ op_entries ops)"
      "run_bag ops q' (free_all ?d m) =
        Inr (n, drop n (q' @ op_entries ops), free_all (take n (q' @ op_entries ops)) (free_all ?d m))"
      by blast
    show ?thesis
      using n d unfolding Drain op_entries.simps split [symmetric]
      by (intro exI [of _ "length ?d + n"]) (simp add: free_all_append)
  qed
qed

text \<open>Over any sequence of pushes and drains the bag neither loses nor duplicates a node: no free
  fails, the counts returned add up with what is left to what was pushed, and the nodes are freed
  in the order of their pushes.\<close>

theorem bag_accounts_for_every_node:
  assumes "bag_ok (op_entries ops) m"
  shows "\<exists>n q m'. run_bag ops limbo_bag_new m = Inr (n, q, m') \<and>
    n + limbo_len q = length (op_entries ops) \<and>
    q = drop n (op_entries ops) \<and> m' = free_all (take n (op_entries ops)) m"
  using run_bag_correct [of "[]" ops m] assms by (auto simp: limbo_bag_new_def limbo_len_def)

theorem bag_accounts_for_every_node_witness:
  "\<exists>n q m'. run_bag [Push 3 0, Drain 4 4, Push 5 1, Drain 5 1] limbo_bag_new two_boxes = Inr (n, q, m')
     \<and> n + limbo_len q = 2"
proof -
  have "bag_ok (op_entries [Push 3 0, Drain 4 4, Push 5 1, Drain 5 1]) two_boxes"
    by (auto simp: bag_ok_def two_boxes_def version_node_new_def empty_memory_def)
  from bag_accounts_for_every_node [OF this] show ?thesis by auto
qed

end
