(* ===== verification/Gc_Mode.thy ===== *)
theory Gc_Mode
  imports Config
begin

text \<open>
  The three reclamation modes and their selection from the snapshot pressure index (\<open>GcMode\<close>,
  \<open>select_gc_mode\<close>, \<open>select_gc_mode_with_hysteresis\<close> in \<open>src/src/lib.rs\<close>): a stateless classifier
  and the one the program runs, which leaves a mode only when the index has cleared a threshold
  by the half-width of the dead band. All comparisons are binary64 comparisons, so NaN fails
  every one of them.
\<close>

section \<open>Modes and selection\<close>

datatype gc_mode = AggressiveEbr | AmortisedFree | ConservativeHold

definition select_gc_mode :: "f64 \<Rightarrow> gc_mode" where
  "select_gc_mode spi =
     (if spi \<le> SPI_WRITE_HEAVY then AggressiveEbr
      else if spi \<le> SPI_SNAP_HEAVY then AmortisedFree
      else ConservativeHold)"

fun select_gc_mode_with_hysteresis :: "f64 \<Rightarrow> gc_mode \<Rightarrow> gc_mode" where
  "select_gc_mode_with_hysteresis spi AggressiveEbr =
     (if SPI_SNAP_HEAVY + HYSTERESIS < spi then ConservativeHold
      else if SPI_WRITE_HEAVY + HYSTERESIS < spi then AmortisedFree
      else AggressiveEbr)"
| "select_gc_mode_with_hysteresis spi AmortisedFree =
     (if spi \<le> SPI_WRITE_HEAVY - HYSTERESIS then AggressiveEbr
      else if SPI_SNAP_HEAVY + HYSTERESIS < spi then ConservativeHold
      else AmortisedFree)"
| "select_gc_mode_with_hysteresis spi ConservativeHold =
     (if spi \<le> SPI_WRITE_HEAVY - HYSTERESIS then AggressiveEbr
      else if spi \<le> SPI_SNAP_HEAVY - HYSTERESIS then AmortisedFree
      else ConservativeHold)"

text \<open>The mode over a sequence of samples, as the per-window calls thread it.\<close>

fun mode_run :: "gc_mode \<Rightarrow> f64 list \<Rightarrow> gc_mode list" where
  "mode_run m [] = []"
| "mode_run m (s # ss) =
     (let m' = select_gc_mode_with_hysteresis s m in m' # mode_run m' ss)"

definition flips :: "gc_mode \<Rightarrow> f64 list \<Rightarrow> nat" where
  "flips m ss = length (filter (\<lambda>(a, b). a \<noteq> b) (zip (m # mode_run m ss) (mode_run m ss)))"

section \<open>The thresholds as rationals\<close>

definition low_in :: rat where "low_in = 1 / 4"
definition low_out :: rat where "low_out = 6305039478318694 / 2 ^ 54"
definition high_in :: rat where "high_in = 4953959590107545 / 2 ^ 53"
definition high_out :: rat where "high_out = 5854679515581645 / 2 ^ 53"
definition low_mid :: rat where "low_mid = 5404319552844595 / 2 ^ 54"
definition high_mid :: rat where "high_mid = 5404319552844595 / 2 ^ 53"

lemmas threshold_defs = low_in_def low_out_def high_in_def high_out_def low_mid_def high_mid_def

lemma threshold_values:
  "SPI_WRITE_HEAVY = Fin low_mid" "SPI_SNAP_HEAVY = Fin high_mid"
  by (simp_all only: lit_0_30 lit_0_60 threshold_defs)

lemma band_edges:
  "SPI_WRITE_HEAVY - HYSTERESIS = Fin low_in" "SPI_WRITE_HEAVY + HYSTERESIS = Fin low_out"
  "SPI_SNAP_HEAVY - HYSTERESIS = Fin high_in" "SPI_SNAP_HEAVY + HYSTERESIS = Fin high_out"
  by (simp_all only: band_values threshold_defs)

lemma threshold_order:
  "low_in < low_mid" "low_mid < low_out" "low_out < high_in" "high_in < high_mid"
  "high_mid < high_out"
  by (simp_all add: threshold_defs)

lemma hysteresis_Fin:
  "select_gc_mode_with_hysteresis (Fin x) AggressiveEbr =
     (if high_out < x then ConservativeHold else if low_out < x then AmortisedFree
      else AggressiveEbr)"
  "select_gc_mode_with_hysteresis (Fin x) AmortisedFree =
     (if x \<le> low_in then AggressiveEbr else if high_out < x then ConservativeHold
      else AmortisedFree)"
  "select_gc_mode_with_hysteresis (Fin x) ConservativeHold =
     (if x \<le> low_in then AggressiveEbr else if x \<le> high_in then AmortisedFree
      else ConservativeHold)"
  by (simp_all add: band_edges)

lemma hysteresis_NaN: "select_gc_mode_with_hysteresis NaN m = m"
  by (cases m) (simp_all add: band_edges less_eq_f64_def less_f64_def)

lemma hysteresis_infinite:
  "select_gc_mode_with_hysteresis PInf m = ConservativeHold"
  "select_gc_mode_with_hysteresis NInf m = AggressiveEbr"
  by (cases m; simp add: band_edges less_eq_f64_def less_f64_def)+

declare select_gc_mode_with_hysteresis.simps [simp del]

lemma select_Fin:
  "select_gc_mode (Fin x) =
     (if x \<le> low_mid then AggressiveEbr else if x \<le> high_mid then AmortisedFree
      else ConservativeHold)"
  by (simp add: select_gc_mode_def threshold_values)

lemmas mode_Fin = hysteresis_Fin select_Fin

section \<open>Properties\<close>

text \<open>Outside the two dead bands the selection with hysteresis forgets the previous mode: it is
  the stateless classification.\<close>

theorem hysteresis_agrees_outside_bands:
  assumes "x \<le> low_in \<or> (low_out < x \<and> x \<le> high_in) \<or> high_out < x"
  shows "select_gc_mode_with_hysteresis (Fin x) prev = select_gc_mode (Fin x)"
  using assms threshold_order by (cases prev) (auto simp: mode_Fin)

theorem hysteresis_agrees_outside_bands_witness:
  "select_gc_mode_with_hysteresis (Fin (9 / 10)) AggressiveEbr = select_gc_mode (Fin (9 / 10))"
  by (rule hysteresis_agrees_outside_bands) (simp add: threshold_defs)

text \<open>C26: No flapping: as long as every sample stays inside one dead band, the mode is never changed,
  whichever of the two adjacent modes is in force.\<close>

theorem dead_band_suppresses_flips:
  assumes "(m \<in> {AggressiveEbr, AmortisedFree} \<and> (\<forall>x \<in> set xs. low_in < x \<and> x \<le> low_out))
    \<or> (m \<in> {AmortisedFree, ConservativeHold} \<and> (\<forall>x \<in> set xs. high_in < x \<and> x \<le> high_out))"
  shows "flips m (map Fin xs) = 0"
proof -
  have "mode_run m (map Fin xs) = replicate (length xs) m"
    using assms
  proof (induction xs)
    case Nil
    then show ?case by simp
  next
    case (Cons x xs)
    then have "select_gc_mode_with_hysteresis (Fin x) m = m"
      using threshold_order by (auto simp: mode_Fin)
    with Cons show ?case by auto
  qed
  then show ?thesis
    by (auto simp: flips_def filter_empty_conv in_set_zip nth_Cons' split: if_splits)
qed

theorem dead_band_suppresses_flips_witness:
  "flips AggressiveEbr (map Fin [32 / 100, 28 / 100, 33 / 100, 27 / 100]) = 0"
  by (rule dead_band_suppresses_flips) (simp add: threshold_defs)

text \<open>A mode change is only undone by a real move of the index: between the sample that leaves a
  mode and a later one that selects it again lies a distance of more than 0.0999.\<close>

theorem flip_back_needs_distance:
  assumes "select_gc_mode_with_hysteresis (Fin x) a = b" "b \<noteq> a"
    and "select_gc_mode_with_hysteresis (Fin y) b = a"
  shows "999 / 10000 < \<bar>x - y\<bar>"
  using assms by (cases a; cases b) (auto simp: mode_Fin threshold_defs split: if_splits)

theorem flip_back_needs_distance_witness:
  "999 / 10000 < \<bar>(4 / 10 :: rat) - 2 / 10\<bar>"
  by (rule flip_back_needs_distance [of _ AggressiveEbr AmortisedFree])
    (simp_all add: mode_Fin threshold_defs)

text \<open>Selecting twice from one sample is selecting once, for every value of the type, infinities and
  NaN included; with NaN the previous mode stays.\<close>

theorem hysteresis_idempotent:
  "select_gc_mode_with_hysteresis v (select_gc_mode_with_hysteresis v m)
    = select_gc_mode_with_hysteresis v m
  \<and> select_gc_mode_with_hysteresis NaN m = m"
proof (cases v)
  case (Fin x)
  then show ?thesis
    using threshold_order by (cases m) (auto simp: mode_Fin hysteresis_NaN)
qed (simp_all add: hysteresis_infinite hysteresis_NaN)

end
