(* ===== verification/Scc.thy ===== *)
theory Scc
  imports Config
begin

text \<open>
  The snapshot coalescing coordinator (\<open>Scc\<close> in \<open>src/src/lib.rs\<close>), one call at a time: window
  sizing, hit rate, latency estimate, and \<open>take_snapshot\<close> when no other thread runs in between. The
  retry loop of \<open>take_snapshot\<close> may spin for ever, so it is a partial function whose value is
  \<open>None\<close> when it does not return; that it returns exactly when the generation is even is a theorem.
  The interleaved executions of the same steps are the subject of the theory \<open>Scc_Steps\<close>.
\<close>

section \<open>State and operations\<close>

record scc =
  window_gen :: u64
  current_ts :: u64
  window_open_at :: u64
  hit_count :: u64
  total_count :: u64
  adaptive_w_ns :: u64
  p99_ns :: u64

definition scc_new :: scc where
  "scc_new = \<lparr>window_gen = 0, current_ts = 0, window_open_at = 0, hit_count = 0,
     total_count = 0, adaptive_w_ns = SCC_MIN_WINDOW_NS, p99_ns = 0\<rparr>"

definition compute_w :: "f64 \<Rightarrow> u64 \<Rightarrow> u64" where
  "compute_w hit p99 =
     (let headroom = 1 - f64_min (f64_of_u64 p99 / f64_of_u64 SCC_TARGET_P99_NS) 1;
          factor = f64_clamp 0 1 (hit * f64_lit (6 / 10) + headroom * f64_lit (4 / 10))
      in f64_to_u64 (f64_of_u64 SCC_MIN_WINDOW_NS
           + factor * f64_of_u64 (SCC_MAX_WINDOW_NS - SCC_MIN_WINDOW_NS)))"

definition hit_rate :: "scc \<Rightarrow> f64" where
  "hit_rate s =
     (let t = total_count s in
      if t = 0 then 0 else f64_of_u64 (hit_count s) / f64_of_u64 t)"

definition record_latency_ns :: "scc \<Rightarrow> u64 \<Rightarrow> scc" where
  "record_latency_ns s ns =
     s\<lparr>p99_ns := f64_to_u64 (f64_of_u64 (p99_ns s) * f64_lit (9 / 10)
                             + f64_of_u64 ns * f64_lit (1 / 10))\<rparr>"

definition latency_ns :: "scc \<Rightarrow> u64" where
  "latency_ns s = p99_ns s"

text \<open>The branch of \<open>take_snapshot\<close> whose compare-exchange has succeeded: the generation is odd while
  the window is rewritten, then the next even number.\<close>

definition open_window :: "scc \<Rightarrow> u64 \<Rightarrow> u64 \<Rightarrow> u64 \<Rightarrow> scc" where
  "open_window s gen now_ns new_ts =
     (let s1 = s\<lparr>window_gen := gen + 1\<rparr>;
          s2 = s1\<lparr>adaptive_w_ns := compute_w (hit_rate s1) (p99_ns s1)\<rparr>;
          s3 = s2\<lparr>current_ts := new_ts\<rparr>;
          s4 = s3\<lparr>window_open_at := now_ns\<rparr>
      in s4\<lparr>window_gen := gen + 2\<rparr>)"

partial_function (option) snapshot_loop :: "u64 \<Rightarrow> u64 \<Rightarrow> scc \<Rightarrow> (u64 \<times> scc) option" where
  "snapshot_loop now_ns epoch s =
     (let gen = window_gen s in
      if gen mod 2 = 1 then snapshot_loop now_ns epoch s
      else
        let ts = current_ts s; opened_at = window_open_at s; w = adaptive_w_ns s in
        if gen \<noteq> 0 \<and> saturating_sub now_ns opened_at < w
        then Some (ts, s\<lparr>hit_count := hit_count s + 1\<rparr>)
        else
          let new_ts = epoch in
          if window_gen s = gen then Some (new_ts, open_window s gen now_ns new_ts)
          else snapshot_loop now_ns epoch s)"

definition scc_take_snapshot :: "scc \<Rightarrow> u64 \<Rightarrow> u64 \<Rightarrow> (u64 \<times> scc) option" where
  "scc_take_snapshot s now_ns epoch =
     snapshot_loop now_ns epoch (s\<lparr>total_count := total_count s + 1\<rparr>)"

section \<open>The loop\<close>

definition coalesces :: "scc \<Rightarrow> u64 \<Rightarrow> bool" where
  "coalesces s now_ns \<longleftrightarrow>
     window_gen s \<noteq> 0 \<and> saturating_sub now_ns (window_open_at s) < adaptive_w_ns s"

lemma snapshot_loop_even:
  assumes "even (window_gen s)"
  shows "snapshot_loop now_ns epoch s =
    (if coalesces s now_ns then Some (current_ts s, s\<lparr>hit_count := hit_count s + 1\<rparr>)
     else Some (epoch, open_window s (window_gen s) now_ns epoch))"
proof -
  have "window_gen s mod 2 \<noteq> 1"
    using assms by (simp add: even_iff_mod_2_eq_zero)
  then show ?thesis
    by (subst snapshot_loop.simps) (simp add: Let_def coalesces_def)
qed

lemma snapshot_loop_returns_even:
  assumes "snapshot_loop now_ns epoch s = Some r"
  shows "even (window_gen s)"
proof (rule snapshot_loop.raw_induct [where P = "\<lambda>n e s r. even (window_gen s)", OF _ assms])
  fix f n e s and r :: "u64 \<times> scc"
  assume IH: "\<And>n e s r. f n e s = Some r \<Longrightarrow> even (window_gen s)"
    and eq: "(let gen = window_gen s in
      if gen mod 2 = 1 then f n e s
      else
        let ts = current_ts s; opened_at = window_open_at s; w = adaptive_w_ns s in
        if gen \<noteq> 0 \<and> saturating_sub n opened_at < w
        then Some (ts, s\<lparr>hit_count := hit_count s + 1\<rparr>)
        else
          let new_ts = e in
          if window_gen s = gen then Some (new_ts, open_window s gen n new_ts)
          else f n e s) = Some r"
  show "even (window_gen s)"
  proof (cases "window_gen s mod 2 = 1")
    case True
    with eq have "f n e s = Some r" by (simp add: Let_def)
    then show ?thesis by (rule IH)
  next
    case False
    then show ?thesis by (simp add: even_iff_mod_2_eq_zero)
  qed
qed

lemma take_snapshot_even:
  assumes "even (window_gen s)"
  shows "scc_take_snapshot s now_ns epoch =
    (let s' = s\<lparr>total_count := total_count s + 1\<rparr> in
     if coalesces s now_ns then Some (current_ts s, s'\<lparr>hit_count := hit_count s + 1\<rparr>)
     else Some (epoch, open_window s' (window_gen s) now_ns epoch))"
  using assms by (simp add: scc_take_snapshot_def snapshot_loop_even coalesces_def Let_def)

section \<open>Window sizing\<close>

definition hit_weight :: rat where "hit_weight = 5404319552844595 / 2 ^ 53"
definition room_weight :: rat where "room_weight = 7205759403792794 / 2 ^ 54"

lemma weight_literals:
  "f64_lit (6 / 10) = Fin hit_weight" "f64_lit (4 / 10) = Fin room_weight"
  using f64_of_rat_lit [of "6 / 10" 53 5404319552844595] f64_of_rat_lit [of "4 / 10" 54 7205759403792794]
  by (simp_all add: rne_int_def Let_def hit_weight_def room_weight_def)

lemma weights:
  "0 < hit_weight" "0 < room_weight" "hit_weight + room_weight = 1"
  "on_grid hit_weight" "on_grid room_weight"
proof -
  show "on_grid hit_weight"
    by (rule on_gridI [of _ 5404319552844595 "- 53"]) (simp_all add: hit_weight_def power_int_minus)
  show "on_grid room_weight"
    by (rule on_gridI [of _ 7205759403792794 "- 54"]) (simp_all add: room_weight_def power_int_minus)
qed (simp_all add: hit_weight_def room_weight_def)

lemma window_consts:
  "f64_of_u64 SCC_MIN_WINDOW_NS = Fin 100000"
  "f64_of_u64 (SCC_MAX_WINDOW_NS - SCC_MIN_WINDOW_NS) = Fin 4900000"
  "f64_of_u64 SCC_TARGET_P99_NS = Fin 2000000"
  by (simp_all add: f64_of_u64_small integer_consts rat_of_u64_def)

text \<open>The share of the latency budget that is left, and the window for a given factor.\<close>

definition headroom :: "u64 \<Rightarrow> rat" where
  "headroom p99 = rne (1 - min (rne (rne (rat_of_u64 p99) / 2000000)) 1)"

definition window_for :: "rat \<Rightarrow> rat" where
  "window_for f = rne (100000 + rne (f * 4900000))"

lemma headroom_unit: "0 \<le> headroom p99" "headroom p99 \<le> 1"
proof -
  have "0 \<le> rne (rne (rat_of_u64 p99) / 2000000)" by (simp add: rne_nonneg)
  then show "0 \<le> headroom p99" "headroom p99 \<le> 1"
    unfolding headroom_def using binary64.rnd_unit by auto
qed

lemma headroom_antimono: "p \<le> q \<Longrightarrow> headroom q \<le> headroom p"
proof -
  assume "p \<le> q"
  then have "rne (rne (rat_of_u64 p) / 2000000) \<le> rne (rne (rat_of_u64 q) / 2000000)"
    by (intro rne_mono divide_right_mono) simp_all
  then show ?thesis unfolding headroom_def by (intro rne_mono) auto
qed

lemma headroom_float:
  "1 - f64_min (f64_of_u64 p99 / f64_of_u64 SCC_TARGET_P99_NS) 1 = Fin (headroom p99)"
proof -
  define x where "x = rat_of_u64 p99"
  have "0 \<le> rne x" "rne x \<le> 2 ^ 64" unfolding x_def by (rule rne_u64_range)+
  then have "\<bar>rne x / 2000000\<bar> \<le> 2 ^ 65" by (simp add: abs_divide)
  then have q: "f64_of_rat (rne x / 2000000) = Fin (rne (rne x / 2000000))"
    by (rule modest_no_overflow)
  define y where "y = rne (rne x / 2000000)"
  have y: "0 \<le> y" unfolding y_def x_def using rne_u64_range(1) by (simp add: rne_nonneg)
  have m: "f64_min (Fin y) 1 = Fin (min y 1)"
    by (simp add: f64_min_def one_f64_def min_def)
  have "\<bar>1 - min y 1\<bar> \<le> 2 ^ 65" using y by auto
  then have "f64_of_rat (1 - min y 1) = Fin (rne (1 - min y 1))" by (rule modest_no_overflow)
  then show ?thesis
    using q m by (simp add: f64_of_u64_eq [of p99] window_consts headroom_def one_f64_def flip: x_def y_def)
qed

lemma window_for_float:
  assumes "0 \<le> f" "f \<le> 1"
  shows "Fin 100000 + Fin f * Fin 4900000 = Fin (window_for f)"
    and "100000 \<le> window_for f" and "window_for f \<le> 5000000"
proof -
  have g: "on_grid 4900000" "on_grid 100000" "on_grid 5000000" by (rule on_grid_numeral; simp)+
  have m: "0 \<le> f * 4900000" "f * 4900000 \<le> 4900000" using assms by auto
  then have r: "0 \<le> rne (f * 4900000)" "rne (f * 4900000) \<le> 4900000"
    using g by (auto intro: rne_nonneg rne_below)
  then show "100000 \<le> window_for f" "window_for f \<le> 5000000"
    unfolding window_for_def using g by (auto intro: rne_below rne_between)
  have "f64_of_rat (f * 4900000) = Fin (rne (f * 4900000))"
    "f64_of_rat (100000 + rne (f * 4900000)) = Fin (window_for f)"
    unfolding window_for_def using m r by (auto intro!: modest_no_overflow)
  then show "Fin 100000 + Fin f * Fin 4900000 = Fin (window_for f)" by simp
qed

lemma window_for_mono: "f \<le> g \<Longrightarrow> window_for f \<le> window_for g"
  unfolding window_for_def by (intro rne_mono add_left_mono mult_right_mono) simp_all

lemma compute_w_unfold:
  "compute_w hit p99 = f64_to_u64 (Fin 100000
     + f64_clamp 0 1 (hit * Fin hit_weight + Fin (headroom p99) * Fin room_weight) * Fin 4900000)"
  by (simp only: compute_w_def Let_def headroom_float weight_literals) (simp only: window_consts)

lemma compute_w_factor:
  assumes "hit \<noteq> NaN"
  obtains f where "0 \<le> f" "f \<le> 1" "compute_w hit p99 = f64_to_u64 (Fin (window_for f))"
proof -
  have hr: "f64_of_rat (headroom p99 * room_weight) = Fin (rne (headroom p99 * room_weight))"
    using binary64.weighted_unit [of room_weight "headroom p99"] weights headroom_unit [of p99]
    by (intro f64_of_rat_small) (auto intro: less_trans [OF _ overflow_bound_gt(1)]
        simp: abs_less_iff hit_weight_def room_weight_def)
  define v where "v = hit * Fin hit_weight + Fin (headroom p99) * Fin room_weight"
  have "v \<noteq> NaN"
    unfolding v_def fin_arith hr
    using assms weights(1) by (intro not_NaN_add not_NaN_mult)
  then obtain f where f: "f64_clamp (Fin 0) (Fin 1) v = Fin f" "0 \<le> f" "f \<le> 1"
    using f64_clamp_range [of v 0 1] by auto
  have "compute_w hit p99 = f64_to_u64 (Fin 100000 + f64_clamp 0 1 v * Fin 4900000)"
    by (simp only: compute_w_unfold v_def)
  also have "\<dots> = f64_to_u64 (Fin (window_for f))"
    using f by (simp only: zero_f64_def one_f64_def window_for_float)
  finally show ?thesis by (rule that [OF f(2,3)])
qed

lemma unat_window:
  assumes "0 \<le> f" "f \<le> 1"
  shows "unat (f64_to_u64 (Fin (window_for f))) = nat \<lfloor>window_for f\<rfloor>"
  using window_for_float(2,3) [OF assms] by (intro unat_f64_to_u64) auto

lemma compute_w_range:
  assumes "hit \<noteq> NaN"
  shows "SCC_MIN_WINDOW_NS \<le> compute_w hit p99 \<and> compute_w hit p99 \<le> SCC_MAX_WINDOW_NS"
proof -
  obtain f where f: "0 \<le> f" "f \<le> 1" "compute_w hit p99 = f64_to_u64 (Fin (window_for f))"
    using compute_w_factor [OF assms] by metis
  have "100000 \<le> nat \<lfloor>window_for f\<rfloor>" "nat \<lfloor>window_for f\<rfloor> \<le> 5000000"
    using window_for_float(2,3) [OF f(1,2)]
    by (simp_all add: le_nat_iff nat_le_iff le_floor_iff floor_le_iff)
  then show ?thesis
    by (simp add: f(3) word_le_nat_alt unat_window [OF f(1,2)] integer_consts)
qed

text \<open>The factor when the hit rate is a proportion, as it is in the program.\<close>

definition factor_for :: "rat \<Rightarrow> u64 \<Rightarrow> rat" where
  "factor_for h p99 = rne (rne (h * hit_weight) + rne (headroom p99 * room_weight))"

lemma factor_for_unit:
  assumes "0 \<le> h" "h \<le> 1"
  shows "0 \<le> factor_for h p99" "factor_for h p99 \<le> 1"
  unfolding factor_for_def
  using binary64.ema_unit [of hit_weight room_weight h "headroom p99"] assms weights headroom_unit
  by auto

lemma factor_for_mono: "h \<le> h' \<Longrightarrow> p' \<le> p \<Longrightarrow> factor_for h p \<le> factor_for h' p'"
  unfolding factor_for_def using weights headroom_antimono
  by (intro rne_mono add_mono mult_right_mono) auto

lemma compute_w_unit:
  assumes "0 \<le> h" "h \<le> 1"
  shows "compute_w (Fin h) p99 = f64_to_u64 (Fin (window_for (factor_for h p99)))"
proof -
  have small: "f64_of_rat x = Fin (rne x)" if "0 \<le> x" "x \<le> 2" for x
    using that by (intro modest_no_overflow) auto
  have "h * hit_weight \<le> 1 * 1" "headroom p99 * room_weight \<le> 1 * 1"
    using assms headroom_unit [of p99] weights by (intro mult_mono; simp)+
  then have s1: "f64_of_rat (h * hit_weight) = Fin (rne (h * hit_weight))"
    "f64_of_rat (headroom p99 * room_weight) = Fin (rne (headroom p99 * room_weight))"
    using assms headroom_unit [of p99] weights by (auto intro!: small)
  have "0 \<le> rne (h * hit_weight)" "rne (h * hit_weight) \<le> 1"
    "0 \<le> rne (headroom p99 * room_weight)" "rne (headroom p99 * room_weight) \<le> 1"
    using \<open>h * hit_weight \<le> 1 * 1\<close> \<open>headroom p99 * room_weight \<le> 1 * 1\<close> assms
      headroom_unit [of p99] weights
    by (auto intro: rne_nonneg rne_below [OF on_grid_1])
  then have s2: "f64_of_rat (rne (h * hit_weight) + rne (headroom p99 * room_weight))
      = Fin (factor_for h p99)"
    unfolding factor_for_def by (intro small) auto
  have "f64_clamp 0 1 (Fin (factor_for h p99)) = Fin (factor_for h p99)"
    using factor_for_unit [OF assms, of p99] by (simp add: f64_clamp_def zero_f64_def one_f64_def)
  then show ?thesis
    using factor_for_unit [OF assms, of p99]
    by (simp only: compute_w_unfold fin_arith(3) s1) (simp only: fin_arith(1) s2 window_for_float)
qed

lemma compute_w_monotone:
  assumes "0 \<le> h" "h \<le> h'" "h' \<le> 1" "p' \<le> p"
  shows "compute_w (Fin h) p \<le> compute_w (Fin h') p'"
proof -
  have f: "0 \<le> factor_for h p" "factor_for h p \<le> 1" "0 \<le> factor_for h' p'" "factor_for h' p' \<le> 1"
    using assms by (auto intro!: factor_for_unit)
  have "window_for (factor_for h p) \<le> window_for (factor_for h' p')"
    using assms by (intro window_for_mono factor_for_mono)
  then show ?thesis
    using assms window_for_float(2,3) [OF f(1,2)] window_for_float(2,3) [OF f(3,4)]
    by (simp only: compute_w_unit order.trans [OF assms(1,2)] order.trans [OF assms(2,3)])
      (intro f64_to_u64_mono; simp)
qed

lemma hit_rate_not_NaN: "hit_rate s \<noteq> NaN"
proof (cases "total_count s = 0")
  case False
  then have "1 \<le> total_count s" by (simp add: word_le_nat_alt unat_gt_0 Suc_le_eq)
  then have "1 \<le> rat_of_u64 (total_count s)"
    using rat_of_u64_mono [of 1 "total_count s"] by simp
  then have "1 \<le> rne (rat_of_u64 (total_count s))" by (intro rne_between) simp
  then show ?thesis using False by (simp add: hit_rate_def Let_def f64_of_u64_eq)
qed (simp add: hit_rate_def zero_f64_def)

section \<open>The invariant of sequential use\<close>

definition scc_ok :: "scc \<Rightarrow> bool" where
  "scc_ok s \<longleftrightarrow> even (window_gen s)
     \<and> SCC_MIN_WINDOW_NS \<le> adaptive_w_ns s \<and> adaptive_w_ns s \<le> SCC_MAX_WINDOW_NS"

lemma scc_ok_new [simp]: "scc_ok scc_new"
  by (simp add: scc_ok_def scc_new_def integer_consts)

lemma not_coalesces_new [simp]: "\<not> coalesces scc_new now"
  by (simp add: coalesces_def scc_new_def)

lemma scc_ok_record [simp]: "scc_ok (record_latency_ns s ns) \<longleftrightarrow> scc_ok s"
  by (simp add: scc_ok_def record_latency_ns_def)

lemma open_window_fields:
  "window_gen (open_window s g now e) = g + 2"
  "current_ts (open_window s g now e) = e"
  "window_open_at (open_window s g now e) = now"
  "hit_count (open_window s g now e) = hit_count s"
  "total_count (open_window s g now e) = total_count s"
  "p99_ns (open_window s g now e) = p99_ns s"
  "adaptive_w_ns (open_window s g now e) = compute_w (hit_rate s) (p99_ns s)"
  by (simp_all add: open_window_def Let_def hit_rate_def)

lemma open_window_ok:
  assumes "even g"
  shows "scc_ok (open_window s g now e)"
proof -
  have "even (g + 2)" using assms by (simp add: even_word_iff)
  then show ?thesis
    using compute_w_range [OF hit_rate_not_NaN [of s]] by (simp add: scc_ok_def open_window_fields)
qed

lemma take_snapshot_ok:
  assumes "scc_ok s"
  shows "\<exists>ts s'. scc_take_snapshot s now e = Some (ts, s') \<and> scc_ok s'
    \<and> ts = (if coalesces s now then current_ts s else e)"
  using assms open_window_ok [of "window_gen s" "s\<lparr>total_count := total_count s + 1\<rparr>" now e]
  by (simp add: take_snapshot_even scc_ok_def Let_def)

text \<open>A sequence of calls, each with its own clock reading and its own value of the global epoch.\<close>

fun snapshot_calls :: "scc \<Rightarrow> (u64 \<times> u64) list \<Rightarrow> (u64 list \<times> scc) option" where
  "snapshot_calls s [] = Some ([], s)"
| "snapshot_calls s ((now, e) # cs) =
     do {
       (ts, s1) \<leftarrow> scc_take_snapshot s now e;
       (tss, s2) \<leftarrow> snapshot_calls s1 cs;
       Some (ts # tss, s2)
     }"

definition same_window :: "scc \<Rightarrow> scc \<Rightarrow> bool" where
  "same_window s s' \<longleftrightarrow> window_gen s' = window_gen s \<and> current_ts s' = current_ts s
     \<and> window_open_at s' = window_open_at s \<and> adaptive_w_ns s' = adaptive_w_ns s"

lemma calls_coalesce:
  assumes "scc_ok s" "\<forall>(now, e) \<in> set cs. coalesces s now"
  shows "\<exists>s'. snapshot_calls s cs = Some (replicate (length cs) (current_ts s), s')
    \<and> same_window s s' \<and> hit_count s' = hit_count s + of_nat (length cs)
    \<and> total_count s' = total_count s + of_nat (length cs)"
  using assms
proof (induction cs arbitrary: s)
  case Nil
  then show ?case by (simp add: same_window_def)
next
  case (Cons c cs)
  obtain now e where c: "c = (now, e)" by (cases c)
  define s1 where "s1 = s\<lparr>total_count := total_count s + 1, hit_count := hit_count s + 1\<rparr>"
  have first: "scc_take_snapshot s now e = Some (current_ts s, s1)"
    using Cons.prems c by (simp add: take_snapshot_even scc_ok_def s1_def Let_def)
  have "scc_ok s1" "\<forall>(now, e) \<in> set cs. coalesces s1 now"
    using Cons.prems by (auto simp: scc_ok_def s1_def coalesces_def)
  from Cons.IH [OF this] first show ?case
    by (auto simp: c s1_def same_window_def algebra_simps)
qed

section \<open>Properties\<close>

text \<open>The window length is always between the two configured limits, for every hit rate that is a
  number and every latency.\<close>

theorem compute_w_within_limits:
  assumes "hit \<noteq> NaN"
  shows "SCC_MIN_WINDOW_NS \<le> compute_w hit p99 \<and> compute_w hit p99 \<le> SCC_MAX_WINDOW_NS"
  by (rule compute_w_range [OF assms])

theorem compute_w_within_limits_witness:
  "SCC_MIN_WINDOW_NS \<le> compute_w PInf u64_max \<and> compute_w PInf u64_max \<le> SCC_MAX_WINDOW_NS"
  by (rule compute_w_within_limits) simp

text \<open>The window grows with the hit rate and shrinks with the latency estimate, in the rounded
  arithmetic of the code.\<close>

theorem compute_w_monotone_in_load:
  assumes "0 \<le> h" "h \<le> h'" "h' \<le> 1" "p' \<le> p"
  shows "compute_w (Fin h) p \<le> compute_w (Fin h') p'"
  by (rule compute_w_monotone [OF assms])

theorem compute_w_monotone_in_load_witness:
  "compute_w (Fin (1 / 4)) 900000 \<le> compute_w (Fin (1 / 2)) 300000"
  by (rule compute_w_monotone_in_load) simp_all

text \<open>Used by one thread at a time, \<open>take_snapshot\<close> always returns: no sequence of calls on a new
  coordinator can hang, and the invariant (even generation, window within its limits) is kept.\<close>

theorem snapshot_calls_return:
  "\<exists>tss s'. snapshot_calls scc_new cs = Some (tss, s') \<and> length tss = length cs \<and> scc_ok s'"
proof -
  have "\<exists>tss s'. snapshot_calls s cs = Some (tss, s') \<and> length tss = length cs \<and> scc_ok s'"
    if "scc_ok s" for s
    using that
  proof (induction cs arbitrary: s)
    case (Cons c cs)
    obtain now e where c: "c = (now, e)" by (cases c)
    obtain ts s1 where "scc_take_snapshot s now e = Some (ts, s1)" "scc_ok s1"
      using take_snapshot_ok [OF Cons.prems] by blast
    with Cons.IH [of s1] c show ?case by auto
  qed simp
  then show ?thesis by simp
qed

text \<open>The retry loop returns exactly when the generation is even: on an odd generation (a writer
  that never publishes) a call spins for ever.\<close>

theorem take_snapshot_returns_iff_even:
  "scc_take_snapshot s now_ns epoch \<noteq> None \<longleftrightarrow> even (window_gen s)"
proof
  assume "scc_take_snapshot s now_ns epoch \<noteq> None"
  then obtain r where "snapshot_loop now_ns epoch (s\<lparr>total_count := total_count s + 1\<rparr>) = Some r"
    by (auto simp: scc_take_snapshot_def)
  then show "even (window_gen s)" using snapshot_loop_returns_even by fastforce
qed (simp add: take_snapshot_even Let_def)

text \<open>Coalescing: after a call has opened a window, every later call whose clock lies less than the
  window length after the opening returns the same timestamp, whatever the global epoch has
  become, and leaves the window alone; the counters count each of them as a hit.\<close>

theorem window_coalesces:
  assumes "scc_ok s" "\<not> coalesces s now0" "window_gen s + 2 \<noteq> 0"
    and "scc_take_snapshot s now0 e0 = Some (ts, s1)"
    and "\<forall>(now, e) \<in> set cs. saturating_sub now now0 < adaptive_w_ns s1"
  shows "\<exists>s'. snapshot_calls s1 cs = Some (replicate (length cs) e0, s') \<and> same_window s1 s'
    \<and> hit_count s' = hit_count s1 + of_nat (length cs)
    \<and> total_count s' = total_count s1 + of_nat (length cs)"
proof -
  define s0 where "s0 = s\<lparr>total_count := total_count s + 1\<rparr>"
  have s1: "s1 = open_window s0 (window_gen s) now0 e0"
    using assms(1,2,4) by (auto simp: take_snapshot_even scc_ok_def Let_def s0_def)
  have ok: "scc_ok s1" unfolding s1 using assms(1) by (intro open_window_ok) (simp add: scc_ok_def)
  have "\<forall>(now, e) \<in> set cs. coalesces s1 now"
    using assms(3,5) by (auto simp: s1 coalesces_def open_window_fields)
  from calls_coalesce [OF ok this] show ?thesis
    by (simp add: s1 open_window_fields)
qed

theorem window_coalesces_witness:
  "\<exists>ts s1 s'. scc_take_snapshot scc_new 1000 5 = Some (ts, s1)
    \<and> snapshot_calls s1 [(1500, 9), (2000, 12)] = Some ([5, 5], s')"
proof -
  obtain ts s1 where s1: "scc_take_snapshot scc_new 1000 5 = Some (ts, s1)" "scc_ok s1"
    using take_snapshot_ok [OF scc_ok_new] by blast
  have "\<forall>(now, e) \<in> set [(1500, 9), (2000, 12 :: u64)]. saturating_sub now 1000 < SCC_MIN_WINDOW_NS"
    by (simp add: saturating_sub_def integer_consts)
  then have "\<forall>(now, e) \<in> set [(1500, 9), (2000, 12 :: u64)]. saturating_sub now 1000 < adaptive_w_ns s1"
    using s1(2) by (auto simp: scc_ok_def)
  from window_coalesces [OF scc_ok_new not_coalesces_new _ s1(1) this]
  obtain s' where "snapshot_calls s1 [(1500, 9), (2000, 12)]
      = Some (replicate (length [(1500 :: u64, 9 :: u64), (2000, 12)]) 5, s')"
    by (auto simp: scc_new_def)
  moreover have "replicate (length [(1500 :: u64, 9 :: u64), (2000, 12)]) (5 :: u64) = [5, 5]"
    by simp
  ultimately show ?thesis using s1(1) by metis
qed

text \<open>Bounded staleness: a call returns either the epoch of its own moment or the timestamp of a
  window that was opened less than the largest window length before.\<close>

theorem snapshot_staleness_bounded:
  assumes "scc_ok s" "scc_take_snapshot s now_ns epoch = Some (ts, s')"
  shows "ts = epoch \<or>
    (ts = current_ts s \<and> unat now_ns - unat (window_open_at s) < unat SCC_MAX_WINDOW_NS)"
proof (cases "coalesces s now_ns")
  case True
  then have "saturating_sub now_ns (window_open_at s) < SCC_MAX_WINDOW_NS"
    using assms(1) by (auto simp: coalesces_def scc_ok_def)
  then have "unat now_ns - unat (window_open_at s) < unat SCC_MAX_WINDOW_NS"
    by (simp only: word_less_nat_alt unat_saturating_sub)
  then show ?thesis using True assms by (simp add: take_snapshot_even scc_ok_def Let_def)
next
  case False
  then show ?thesis using assms by (auto simp: take_snapshot_even scc_ok_def Let_def)
qed

theorem snapshot_staleness_bounded_witness:
  "\<exists>s'. scc_take_snapshot scc_new 7 5 = Some (5, s')
    \<and> (5 = (5 :: u64) \<or> (5 = current_ts scc_new
        \<and> unat (7 :: u64) - unat (window_open_at scc_new) < unat SCC_MAX_WINDOW_NS))"
proof -
  obtain s' where s': "scc_take_snapshot scc_new 7 5 = Some (5, s')"
    using take_snapshot_ok [OF scc_ok_new, of 7 5] not_coalesces_new [of 7] by auto
  then show ?thesis using snapshot_staleness_bounded [OF scc_ok_new s'] by blast
qed

section \<open>The latency estimate\<close>

definition keep_weight :: rat where "keep_weight = 8106479329266893 / 2 ^ 53"
definition new_weight :: rat where "new_weight = 7205759403792794 / 2 ^ 56"

lemma latency_literals:
  "f64_lit (9 / 10) = Fin keep_weight" "f64_lit (1 / 10) = Fin new_weight"
  using f64_of_rat_lit [of "9 / 10" 53 8106479329266893] f64_of_rat_lit [of "1 / 10" 56 7205759403792794]
  by (simp_all add: rne_int_def Let_def keep_weight_def new_weight_def)

text \<open>The new estimate as a rational, before the truncation to an integer.\<close>

definition latency_mix :: "u64 \<Rightarrow> u64 \<Rightarrow> rat" where
  "latency_mix prev ns =
     rne (rne (rne (rat_of_u64 prev) * keep_weight) + rne (rne (rat_of_u64 ns) * new_weight))"

lemma latency_weights: "0 < keep_weight" "0 < new_weight" "keep_weight < 1" "new_weight < 1"
  by (simp_all add: keep_weight_def new_weight_def)

lemma weighted_u64:
  assumes "0 < c" "c < 1"
  shows "f64_of_u64 w * Fin c = Fin (rne (rne (rat_of_u64 w) * c))"
    and "0 \<le> rne (rne (rat_of_u64 w) * c)" and "rne (rne (rat_of_u64 w) * c) \<le> 2 ^ 64"
proof -
  define x where "x = rne (rat_of_u64 w)"
  have x: "0 \<le> x" "x \<le> 2 ^ 64" unfolding x_def by (rule rne_u64_range)+
  have m: "0 \<le> x * c" "x * c \<le> 2 ^ 64"
    using x assms mult_left_le [of c x] by auto
  have g: "on_grid (2 ^ 64)" by (rule on_gridI [of _ 1 64]) simp_all
  show "0 \<le> rne (rne (rat_of_u64 w) * c)" "rne (rne (rat_of_u64 w) * c) \<le> 2 ^ 64"
    unfolding x_def [symmetric] using m g by (auto intro: rne_nonneg rne_below)
  have "f64_of_rat (x * c) = Fin (rne (x * c))" using m by (intro modest_no_overflow) auto
  then show "f64_of_u64 w * Fin c = Fin (rne (rne (rat_of_u64 w) * c))"
    by (simp add: f64_of_u64_eq x_def)
qed

lemma record_latency_mix:
  "p99_ns (record_latency_ns s ns) = f64_to_u64 (Fin (latency_mix (p99_ns s) ns))"
  "0 \<le> latency_mix prev ns"
proof -
  have r: "f64_of_rat (rne (rne (rat_of_u64 p) * keep_weight) + rne (rne (rat_of_u64 q) * new_weight))
    = Fin (latency_mix p q)" for p q
    unfolding latency_mix_def
    using weighted_u64(2,3) [OF latency_weights(1,3), of p]
      weighted_u64(2,3) [OF latency_weights(2,4), of q]
    by (intro modest_no_overflow) auto
  show "p99_ns (record_latency_ns s ns) = f64_to_u64 (Fin (latency_mix (p99_ns s) ns))"
    by (simp add: record_latency_ns_def latency_literals r
        weighted_u64(1) [OF latency_weights(1,3)] weighted_u64(1) [OF latency_weights(2,4)])
  show "0 \<le> latency_mix prev ns"
    unfolding latency_mix_def
    using weighted_u64(2) [OF latency_weights(1,3), of prev]
      weighted_u64(2) [OF latency_weights(2,4), of ns]
    by (intro rne_nonneg) auto
qed

text \<open>The truncation after every sample hides short latencies: however many samples of at most 9 ns
  arrive, an estimate that starts at 0 stays at 0.\<close>

theorem short_latencies_never_register:
  assumes "\<forall>ns \<in> set samples. ns \<le> 9" "p99_ns s = 0"
  shows "latency_ns (fold (\<lambda>ns s. record_latency_ns s ns) samples s) = 0"
proof -
  have step: "p99_ns (record_latency_ns s ns) = 0" if "ns \<le> 9" "p99_ns s = 0" for s ns
  proof -
    have r: "rne (rat_of_u64 ns) \<le> 9"
      using that(1) rat_of_u64_mono [of ns 9] on_grid_numeral
      by (intro rne_below) (auto simp: rat_of_u64_def)
    have "rne (rat_of_u64 ns) * new_weight \<le> 9 * new_weight"
      using r latency_weights(2) by (intro mult_right_mono) auto
    also have "\<dots> \<le> 15 / 16" by (simp add: new_weight_def)
    finally have a: "rne (rne (rat_of_u64 ns) * new_weight) \<le> 15 / 16"
      by (intro rne_below on_gridI [of _ 15 "- 4"]) (simp_all add: power_int_minus)
    then have "rne (0 + rne (rne (rat_of_u64 ns) * new_weight)) \<le> 15 / 16" by simp
    then have "latency_mix 0 ns \<le> 15 / 16" by (simp add: latency_mix_def)
    with record_latency_mix(2) [of 0 ns] have "\<lfloor>latency_mix 0 ns\<rfloor> = 0"
      by (simp add: floor_eq_iff)
    then have "uint (f64_to_u64 (Fin (latency_mix 0 ns))) = 0"
      using record_latency_mix(2) [of 0 ns] \<open>latency_mix 0 ns \<le> 15 / 16\<close>
      by (subst uint_f64_to_u64) auto
    then have "f64_to_u64 (Fin (latency_mix 0 ns)) = 0" by (simp add: word_uint_eq_iff)
    then show ?thesis using that(2) by (simp add: record_latency_mix)
  qed
  show ?thesis using assms unfolding latency_ns_def
    by (induction samples arbitrary: s) (simp_all add: step)
qed

theorem short_latencies_never_register_witness:
  "latency_ns (fold (\<lambda>ns s. record_latency_ns s ns) [9, 8, 9, 9] scc_new) = 0"
  by (rule short_latencies_never_register) (simp_all add: scc_new_def)

end
