(* ===== verification/Float64_Bits.thy ===== *)
theory Float64_Bits
  imports Float64
begin

text \<open>
  \<open>f64::to_bits\<close> and \<open>f64::from_bits\<close>. The program keeps its shared floating-point estimates in
  \<open>AtomicU64\<close> cells as bit patterns; the round trip proved here is what makes reading such a cell
  give back the number that was stored.
\<close>

section \<open>Encoding\<close>

text \<open>Exponent and fraction field of a positive value: subnormal below \<open>2\<^sup>-\<^sup>1\<^sup>0\<^sup>2\<^sup>2\<close>, otherwise the
  biased exponent above the 52 stored bits of the significand, whose leading 1 carries into
  the exponent field.\<close>

definition magnitude_bits :: "rat \<Rightarrow> int" where
  "magnitude_bits x = (let e = ilog2 x in
     if e < - 1022 then \<lfloor>x / 2 powi (- 1074)\<rfloor>
     else (e + 1022) * 2 ^ 52 + \<lfloor>x / 2 powi (e - 52)\<rfloor>)"

definition inf_bits :: int where
  "inf_bits = 2047 * 2 ^ 52"

fun f64_to_bits :: "f64 \<Rightarrow> u64" where
  "f64_to_bits (Fin x) =
     (if x = 0 then 0
      else if 0 < x then word_of_int (magnitude_bits x)
      else word_of_int (2 ^ 63 + magnitude_bits (- x)))"
| "f64_to_bits PInf = word_of_int inf_bits"
| "f64_to_bits NInf = word_of_int (2 ^ 63 + inf_bits)"
| "f64_to_bits NaN = word_of_int (inf_bits + 2 ^ 51)"

definition decode_magnitude :: "int \<Rightarrow> rat" where
  "decode_magnitude g = (let ex = g div 2 ^ 52; fr = g mod 2 ^ 52 in
     if ex = 0 then of_int fr * 2 powi (- 1074) else of_int (2 ^ 52 + fr) * 2 powi (ex - 1075))"

definition decode_bits :: "int \<Rightarrow> f64" where
  "decode_bits u = (let neg = 2 ^ 63 \<le> u; g = u mod 2 ^ 63 in
     if g div 2 ^ 52 = 2047
     then (if g mod 2 ^ 52 \<noteq> 0 then NaN else if neg then NInf else PInf)
     else Fin (if neg then - decode_magnitude g else decode_magnitude g))"

definition f64_from_bits :: "u64 \<Rightarrow> f64" where
  "f64_from_bits w = decode_bits (uint w)"

section \<open>The round trip\<close>

lemma on_grid_ulp:
  assumes "on_grid x" "x \<noteq> 0"
  obtains n where "x = of_int n * 2 powi ulp_exp x"
proof -
  from assms(1) obtain m e where me: "x = of_int m * 2 powi e" "\<bar>m\<bar> < 2 ^ 53" "- 1074 \<le> e"
    by (auto simp: on_grid_def)
  then have "ulp_exp x \<le> e" using assms(2) by (intro on_grid_multiple)
  then obtain k where k: "(2 :: rat) powi e / 2 powi ulp_exp x = of_int k"
    by (rule powi_div_int)
  then have "(2 :: rat) powi e = of_int k * 2 powi ulp_exp x" by (simp flip: k)
  with me(1) have "x = of_int (m * k) * 2 powi ulp_exp x" by simp
  then show ?thesis by (rule that)
qed

lemma subnormal_decode:
  assumes "on_grid x" "0 < x" "ilog2 x < - 1022"
  shows "0 \<le> magnitude_bits x" "magnitude_bits x < 2 ^ 52"
    "decode_magnitude (magnitude_bits x) = x"
proof -
  have u: "ulp_exp x = - 1074" using assms(2,3) by (simp add: ulp_exp_def)
  obtain n where n: "x = of_int n * 2 powi (- 1074)"
    using on_grid_ulp [OF assms(1)] assms(2) u by auto
  have g: "magnitude_bits x = n"
  proof -
    have "x / 2 powi (- 1074) = of_int n" using n by simp
    then show ?thesis using assms(3) by (simp only: magnitude_bits_def Let_def if_True floor_of_int)
  qed
  have "0 < (of_int n :: rat)" using n assms(2) by (simp add: zero_less_mult_iff)
  then have n0: "0 \<le> n" by simp
  have "x < 2 powi (ilog2 x + 1)" by (rule ilog2_bounds(2) [OF assms(2)])
  also have "\<dots> \<le> 2 powi (52 + (- 1074))" using assms(3) by (intro powi_mono) simp
  also have "\<dots> = of_int (2 ^ 52) * 2 powi (- 1074)" by (simp only: powi_add) simp
  finally have "(of_int n :: rat) < of_int (2 ^ 52)"
    using n by (simp only: mult_less_cancel_right_pos [OF powi_pos])
  then have n1: "n < 2 ^ 52" by (simp only: of_int_less_iff)
  show "0 \<le> magnitude_bits x" "magnitude_bits x < 2 ^ 52" using g n0 n1 by simp_all
  have "n div 2 ^ 52 = 0" "n mod 2 ^ 52 = n" using n0 n1 by simp_all
  then show "decode_magnitude (magnitude_bits x) = x"
    by (simp only: g decode_magnitude_def Let_def refl if_True) (simp only: n)
qed

lemma normal_decode:
  assumes "on_grid x" "0 < x" "- 1022 \<le> ilog2 x" "x < overflow_bound"
  shows "2 ^ 52 \<le> magnitude_bits x" "magnitude_bits x < inf_bits"
    "decode_magnitude (magnitude_bits x) = x"
proof -
  define e where "e = ilog2 x"
  have e: "- 1022 \<le> e" using assms(3) by (simp add: e_def)
  have "(2 :: rat) powi e < 2 powi 1024"
    using ilog2_bounds(1) [OF assms(2)] assms(4) unfolding e_def overflow_bound_powi by linarith
  then have "e < 1024" by (rule powi_less_imp)
  then have e2: "e \<le> 1023" by simp
  have u: "ulp_exp x = e - 52" using assms(2) e by (simp add: ulp_exp_def flip: e_def)
  obtain n where n: "x = of_int n * 2 powi (e - 52)"
    using on_grid_ulp [OF assms(1)] assms(2) u by auto
  have g: "magnitude_bits x = (e + 1022) * 2 ^ 52 + n"
  proof -
    have "x / 2 powi (e - 52) = of_int n" using n by simp
    then show ?thesis using e by (simp add: magnitude_bits_def Let_def flip: e_def)
  qed
  have "of_int (2 ^ 52) * 2 powi (e - 52) = (2 :: rat) powi (52 + (e - 52))"
    by (simp only: powi_add) simp
  also have "\<dots> \<le> x" using ilog2_bounds(1) [OF assms(2)] by (simp add: e_def)
  finally have "(of_int (2 ^ 52) :: rat) \<le> of_int n"
    using n by (simp only: mult_le_cancel_right_pos [OF powi_pos])
  then have n0: "2 ^ 52 \<le> n" by (simp only: of_int_le_iff)
  have "x < 2 powi (e + 1)" unfolding e_def by (rule ilog2_bounds(2) [OF assms(2)])
  also have "\<dots> = 2 powi (53 + (e - 52))" by (simp add: algebra_simps)
  also have "\<dots> = of_int (2 ^ 53) * 2 powi (e - 52)" by (simp only: powi_add) simp
  finally have "(of_int n :: rat) < of_int (2 ^ 53)"
    using n by (simp only: mult_less_cancel_right_pos [OF powi_pos])
  then have n1: "n < 2 ^ 53" by (simp only: of_int_less_iff)
  show "2 ^ 52 \<le> magnitude_bits x" "magnitude_bits x < inf_bits"
    using g n0 n1 e e2 by (simp_all add: inf_bits_def)
  have "magnitude_bits x = (n - 2 ^ 52) + (e + 1023) * 2 ^ 52" by (simp add: g)
  moreover have "(n - 2 ^ 52) div 2 ^ 52 = 0" "(n - 2 ^ 52) mod 2 ^ 52 = n - 2 ^ 52"
    using n0 n1 by (intro div_pos_pos_trivial mod_pos_pos_trivial; simp)+
  ultimately have "magnitude_bits x div 2 ^ 52 = e + 1023" "magnitude_bits x mod 2 ^ 52 = n - 2 ^ 52"
    by (simp_all only: div_mult_self1 mod_mult_self1) simp_all
  then show "decode_magnitude (magnitude_bits x) = x"
    using e n by (simp add: decode_magnitude_def)
qed

lemma magnitude_roundtrip:
  assumes "on_grid x" "0 < x" "x < overflow_bound"
  shows "0 \<le> magnitude_bits x" "magnitude_bits x < inf_bits"
    "decode_magnitude (magnitude_bits x) = x"
  using subnormal_decode [of x] normal_decode [of x] assms
  by (cases "ilog2 x < - 1022"; force simp: inf_bits_def)+

lemma uint_word_of_int_u64: "0 \<le> n \<Longrightarrow> n < 2 ^ 64 \<Longrightarrow> uint (word_of_int n :: u64) = n"
  by (simp add: uint_word_of_int)

lemma decode_bits_finite:
  assumes "0 \<le> g" "g < inf_bits"
  shows "decode_bits g = Fin (decode_magnitude g)"
    "decode_bits (2 ^ 63 + g) = Fin (- decode_magnitude g)"
proof -
  have b: "g < 2 ^ 63" using assms(2) by (simp add: inf_bits_def)
  have d: "g div 2 ^ 52 \<noteq> 2047"
    using assms(2) by (simp add: inf_bits_def)
  have m: "g mod 2 ^ 63 = g" "(2 ^ 63 + g) mod 2 ^ 63 = g" using assms(1) b by simp_all
  show "decode_bits g = Fin (decode_magnitude g)"
    using d b by (simp only: decode_bits_def Let_def m) simp
  show "decode_bits (2 ^ 63 + g) = Fin (- decode_magnitude g)"
    using d assms(1) by (simp only: decode_bits_def Let_def m) simp
qed

theorem from_bits_to_bits:
  assumes "f64_ok v"
  shows "f64_from_bits (f64_to_bits v) = v"
proof (cases v)
  case (Fin x)
  consider "x = 0" | "0 < x" | "x < 0" by linarith
  then show ?thesis
  proof cases
    case 1
    then show ?thesis using Fin by (simp add: f64_from_bits_def decode_bits_def decode_magnitude_def)
  next
    case 2
    then have g: "0 \<le> magnitude_bits x" "magnitude_bits x < inf_bits"
      "decode_magnitude (magnitude_bits x) = x"
      using assms Fin by (auto intro!: magnitude_roundtrip)
    then have "uint (word_of_int (magnitude_bits x) :: u64) = magnitude_bits x"
      by (intro uint_word_of_int_u64) (simp_all add: inf_bits_def)
    then show ?thesis
      using 2 Fin g by (simp add: f64_from_bits_def decode_bits_finite)
  next
    case 3
    then have g: "0 \<le> magnitude_bits (- x)" "magnitude_bits (- x) < inf_bits"
      "decode_magnitude (magnitude_bits (- x)) = - x"
      using assms Fin by (auto intro!: magnitude_roundtrip on_grid_minus)
    then have "uint (word_of_int (2 ^ 63 + magnitude_bits (- x)) :: u64) = 2 ^ 63 + magnitude_bits (- x)"
      by (intro uint_word_of_int_u64) (simp_all add: inf_bits_def)
    then have "f64_from_bits (f64_to_bits v) = decode_bits (2 ^ 63 + magnitude_bits (- x))"
      using 3 Fin by (simp add: f64_from_bits_def)
    then show ?thesis using g Fin by (simp only: decode_bits_finite) simp
  qed
qed (simp_all add: f64_from_bits_def decode_bits_def inf_bits_def)

declare f64_to_bits.simps [simp del]

end
