(* ===== verification/Pacer_State.thy ===== *)
theory Pacer_State
  imports Announce Limbo Gc_Mode Scc Float64_Bits
begin

text \<open>
  The two halves of the program's state: what a thread keeps to itself (\<open>ThreadLocalState\<close>) and what
  all threads share (\<open>PacerSystem\<close>), with the operations of \<open>PacerSystem\<close> that only delegate to
  the announcement table or read a shared estimate. The shared estimates are bit patterns of
  binary64 numbers in 64-bit cells, as in the code.
\<close>

section \<open>Thread-local state\<close>

record thread_local_state =
  win_writes :: u64
  win_snaps :: u64
  op_counter :: u64
  fail_streak :: u32
  spi_ema :: f64
  hold_ticks :: u64
  gc_mode :: gc_mode
  limbo_bag :: limbo_bag
  tid :: nat

definition thread_local_state_new :: "nat \<Rightarrow> thread_local_state" where
  "thread_local_state_new i =
     \<lparr>win_writes = 0, win_snaps = 0, op_counter = 0, fail_streak = 0, spi_ema = f64_lit 0,
      hold_ticks = 0, gc_mode = AggressiveEbr, limbo_bag = limbo_bag_new, tid = i\<rparr>"

section \<open>Shared state\<close>

record pacer_system =
  global_epoch :: u64
  approx_spi :: u64
  delta_spi :: u64
  scc :: scc
  announce_tbl :: announcement_table

definition pacer_system_new :: pacer_system where
  "pacer_system_new =
     \<lparr>global_epoch = 1, approx_spi = f64_to_bits (f64_lit 0), delta_spi = f64_to_bits (f64_lit 0),
      scc = scc_new, announce_tbl = announcement_table_new\<rparr>"

definition load_spi :: "pacer_system \<Rightarrow> f64" where
  "load_spi sys = f64_from_bits (approx_spi sys)"

definition load_delta_spi :: "pacer_system \<Rightarrow> f64" where
  "load_delta_spi sys = f64_from_bits (delta_spi sys)"

definition safe_reclaim_ts :: "pacer_system \<Rightarrow> u64 res" where
  "safe_reclaim_ts sys = min_active_ts (announce_tbl sys)"

definition register_thread :: "pacer_system \<Rightarrow> pacer_system \<times> nat res" where
  "register_thread sys = (let (tbl, r) = register (announce_tbl sys) in (sys\<lparr>announce_tbl := tbl\<rparr>, r))"

definition announce_snapshot :: "pacer_system \<Rightarrow> nat \<Rightarrow> u64 \<Rightarrow> pacer_system res" where
  "announce_snapshot sys i ts =
     bind_res (announce (announce_tbl sys) i ts) (\<lambda>tbl. Inr (sys\<lparr>announce_tbl := tbl\<rparr>))"

definition release_snapshot :: "pacer_system \<Rightarrow> nat \<Rightarrow> pacer_system res" where
  "release_snapshot sys i =
     bind_res (release (announce_tbl sys) i) (\<lambda>tbl. Inr (sys\<lparr>announce_tbl := tbl\<rparr>))"

definition release_snapshot_for :: "pacer_system \<Rightarrow> thread_local_state \<Rightarrow> pacer_system res" where
  "release_snapshot_for sys t = release_snapshot sys (tid t)"

text \<open>Loading the epoch and replacing it by its successor; the return value says whether the
  compare-exchange succeeded. The interleaved version is in \<open>Epoch_Steps\<close>.\<close>

definition try_advance_epoch :: "pacer_system \<Rightarrow> bool \<times> pacer_system" where
  "try_advance_epoch sys =
     (let cur = global_epoch sys in
      if global_epoch sys = cur then (True, sys\<lparr>global_epoch := cur + 1\<rparr>) else (False, sys))"

definition step_epoch ::
  "pacer_system \<Rightarrow> thread_local_state \<Rightarrow> pacer_system \<times> thread_local_state" where
  "step_epoch sys t =
     (let (ok, sys') = try_advance_epoch sys in
      if ok then (sys', t\<lparr>fail_streak := 0\<rparr>)
      else (sys', t\<lparr>fail_streak := saturating_add (fail_streak t) 1\<rparr>))"

lemma try_advance_epoch_alone:
  "try_advance_epoch sys = (True, sys\<lparr>global_epoch := global_epoch sys + 1\<rparr>)"
  by (simp add: try_advance_epoch_def Let_def)

lemma step_epoch_alone:
  "step_epoch sys t = (sys\<lparr>global_epoch := global_epoch sys + 1\<rparr>, t\<lparr>fail_streak := 0\<rparr>)"
  by (simp add: step_epoch_def try_advance_epoch_alone)

section \<open>The published estimates read back\<close>

lemma load_spi_new [simp]: "load_spi pacer_system_new = Fin 0" "load_delta_spi pacer_system_new = Fin 0"
proof -
  have "f64_from_bits (f64_to_bits (Fin 0)) = Fin 0" by (rule from_bits_to_bits) (simp add: overflow_bound_gt(1) less_trans [OF zero_less_one])
  then show "load_spi pacer_system_new = Fin 0" "load_delta_spi pacer_system_new = Fin 0"
    by (simp_all only: load_spi_def load_delta_spi_def pacer_system_new_def f64_of_rat_0
        pacer_system.simps)
qed

end
