(* ===== verification/Sampling.thy ===== *)
theory Sampling
  imports Pacer_State
begin

text \<open>
  The snapshot pressure index and the parameters derived from it: \<open>resample_spi\<close>,
  \<open>compute_batch_k\<close>, \<open>compute_epoch_stride\<close> and \<open>compute_retry_wait\<close> of \<open>PacerSystem\<close>. The index is an
  exponential moving average of the share of snapshots in a window; that it stays in the unit
  interval in binary64 arithmetic, rounding included, is what bounds every derived parameter and
  excludes a division by a zero stride.
\<close>

section \<open>Operations\<close>

definition resample_spi ::
  "pacer_system \<Rightarrow> thread_local_state \<Rightarrow> pacer_system \<times> thread_local_state" where
  "resample_spi sys t =
     (let w = win_writes t; s = win_snaps t; total = w + s in
      if total = 0 then (sys, t)
      else
        let win_spi = f64_of_u64 s / f64_of_u64 (total + 1);
            prev_ema = spi_ema t;
            t1 = t\<lparr>spi_ema := prev_ema * (1 - SPI_EMA_ALPHA) + win_spi * SPI_EMA_ALPHA\<rparr>;
            dspi = spi_ema t1 - prev_ema
        in (sys\<lparr>approx_spi := f64_to_bits (spi_ema t1), delta_spi := f64_to_bits dspi\<rparr>,
            t1\<lparr>win_writes := 0, win_snaps := 0\<rparr>))"

definition compute_batch_k :: "f64 \<Rightarrow> f64 \<Rightarrow> nat" where
  "compute_batch_k spi dspi =
     (let bk = f64_of_u64 MAX_BATCH * (1 - spi);
          bk' = (if TREND_THRESHOLD < dspi then bk * (1 - dspi * TREND_WEIGHT) else bk)
      in unat (max (f64_to_u64 bk') MIN_BATCH))"

definition compute_epoch_stride :: "f64 \<Rightarrow> u64" where
  "compute_epoch_stride spi =
     f64_to_u64 (f64_round (f64_of_u64 BASE_STRIDE * (1 + ALPHA * spi)))"

definition compute_retry_wait :: "u32 \<Rightarrow> u64" where
  "compute_retry_wait streak = min (push_bit (unat (min streak 6)) BASE_RETRY_MS) MAX_RETRY_MS"

section \<open>The index stays in the unit interval\<close>

definition spi_ok :: "f64 \<Rightarrow> bool" where
  "spi_ok v \<longleftrightarrow> f64_ok v \<and> f64_between 0 1 v"

lemma spi_okE:
  assumes "spi_ok v"
  obtains x where "v = Fin x" "on_grid x" "0 \<le> x" "x \<le> 1"
  using assms by (auto simp: spi_ok_def elim: f64_betweenE)

lemma spi_ok_Fin: "spi_ok (Fin x) \<longleftrightarrow> on_grid x \<and> 0 \<le> x \<and> x \<le> 1"
  using overflow_bound_gt(1) by (auto simp: spi_ok_def)

lemma spi_ok_0 [simp]: "spi_ok (Fin 0)"
  by (simp add: spi_ok_Fin)

lemma small_of_rat: "\<bar>x\<bar> \<le> 1024 \<Longrightarrow> f64_of_rat x = Fin (rne x)"
  by (rule modest_no_overflow) auto

text \<open>The share of snapshots in a window, as the code computes it.\<close>

definition win_share :: "u64 \<Rightarrow> u64 \<Rightarrow> rat" where
  "win_share w s = rne (rne (rat_of_u64 s) / rne (rat_of_u64 (w + s + 1)))"

definition no_window_overflow :: "thread_local_state \<Rightarrow> bool" where
  "no_window_overflow t \<longleftrightarrow> unat (win_writes t) + unat (win_snaps t) + 1 < 2 ^ 64"

lemma win_share:
  assumes "unat w + unat s + 1 < 2 ^ 64"
  shows "f64_of_u64 s / f64_of_u64 (w + s + 1) = Fin (win_share w s)"
    and "0 \<le> win_share w s" and "win_share w s \<le> 1"
proof -
  have u: "unat (w + s + 1) = unat w + unat s + 1"
    using assms by (simp add: unat_word_ariths)
  then have le: "rat_of_u64 s \<le> rat_of_u64 (w + s + 1)" "1 \<le> rat_of_u64 (w + s + 1)"
    unfolding rat_of_u64_def by (simp_all only: u of_nat_le_iff of_nat_add of_nat_1)
  show "0 \<le> win_share w s" "win_share w s \<le> 1"
    unfolding win_share_def using binary64.ratio_unit [OF rat_of_u64_nonneg le(1)] by simp_all
  have d: "1 \<le> rne (rat_of_u64 (w + s + 1))" using le(2) by (intro rne_between) simp
  have n: "0 \<le> rne (rat_of_u64 s)" "rne (rat_of_u64 s) \<le> rne (rat_of_u64 (w + s + 1))"
    using le by (auto intro: rne_nonneg rne_mono)
  then have "\<bar>rne (rat_of_u64 s) / rne (rat_of_u64 (w + s + 1))\<bar> \<le> 1"
    using d by (auto simp: abs_div_pos divide_le_eq_1)
  then have "f64_of_rat (rne (rat_of_u64 s) / rne (rat_of_u64 (w + s + 1))) = Fin (win_share w s)"
    unfolding win_share_def by (rule small_of_rat [OF order_trans]) simp
  then show "f64_of_u64 s / f64_of_u64 (w + s + 1) = Fin (win_share w s)"
    using d by (simp add: f64_of_u64_eq)
qed

definition keep_alpha :: rat where "keep_alpha = 7656119366529843 / 2 ^ 53"
definition ema_alpha :: rat where "ema_alpha = 5404319552844595 / 2 ^ 55"

lemma keep_alpha_value: "1 - SPI_EMA_ALPHA = Fin keep_alpha"
  by (simp only: ema_keep_value keep_alpha_def)

lemma ema_alpha_value: "SPI_EMA_ALPHA = Fin ema_alpha"
  by (simp only: lit_0_15 ema_alpha_def)

lemma alphas:
  "0 < keep_alpha" "0 < ema_alpha" "keep_alpha < 1" "ema_alpha < 1" "keep_alpha + ema_alpha \<le> 1"
  "on_grid keep_alpha" "on_grid ema_alpha"
proof -
  show "on_grid keep_alpha"
    by (rule on_gridI [of _ 7656119366529843 "- 53"]) (simp_all add: keep_alpha_def power_int_minus)
  show "on_grid ema_alpha"
    by (rule on_gridI [of _ 5404319552844595 "- 55"]) (simp_all add: ema_alpha_def power_int_minus)
qed (simp_all add: keep_alpha_def ema_alpha_def)

definition ema_next :: "rat \<Rightarrow> rat \<Rightarrow> rat" where
  "ema_next x y = rne (rne (x * keep_alpha) + rne (y * ema_alpha))"

lemma ema_next:
  assumes "0 \<le> x" "x \<le> 1" "0 \<le> y" "y \<le> 1"
  shows "Fin x * (1 - SPI_EMA_ALPHA) + Fin y * SPI_EMA_ALPHA = Fin (ema_next x y)"
    and "0 \<le> ema_next x y" and "ema_next x y \<le> 1"
proof -
  have p: "0 \<le> x * keep_alpha" "x * keep_alpha \<le> 1" "0 \<le> y * ema_alpha" "y * ema_alpha \<le> 1"
    using assms alphas mult_le_one [of x keep_alpha] mult_le_one [of y ema_alpha] by auto
  then have r: "0 \<le> rne (x * keep_alpha)" "rne (x * keep_alpha) \<le> 1"
    "0 \<le> rne (y * ema_alpha)" "rne (y * ema_alpha) \<le> 1"
    using binary64.rnd_unit by auto
  show "Fin x * (1 - SPI_EMA_ALPHA) + Fin y * SPI_EMA_ALPHA = Fin (ema_next x y)"
    unfolding keep_alpha_value unfolding ema_alpha_value using p r by (simp add: small_of_rat ema_next_def)
  show "0 \<le> ema_next x y" "ema_next x y \<le> 1"
    unfolding ema_next_def using binary64.ema_unit [of keep_alpha ema_alpha x y] assms alphas by auto
qed

lemma ema_next_mono: "x \<le> x' \<Longrightarrow> y \<le> y' \<Longrightarrow> ema_next x y \<le> ema_next x' y'"
  unfolding ema_next_def using alphas by (intro rne_mono add_mono mult_right_mono) auto

lemma resample_idle: "win_writes t + win_snaps t = 0 \<Longrightarrow> resample_spi sys t = (sys, t)"
  by (simp add: resample_spi_def)

lemma window_total:
  assumes "no_window_overflow t"
  shows "win_writes t + win_snaps t = 0 \<longleftrightarrow> win_writes t = 0 \<and> win_snaps t = 0"
  using assms by (auto simp: no_window_overflow_def unat_eq_0 [symmetric] unat_word_ariths)

lemma resample_counted:
  assumes "spi_ema t = Fin x" "0 \<le> x" "x \<le> 1" "no_window_overflow t"
    and "win_writes t + win_snaps t \<noteq> 0"
  defines "e \<equiv> ema_next x (win_share (win_writes t) (win_snaps t))"
  shows "resample_spi sys t =
      (sys\<lparr>approx_spi := f64_to_bits (Fin e), delta_spi := f64_to_bits (f64_of_rat (e - x))\<rparr>,
       t\<lparr>spi_ema := Fin e, win_writes := 0, win_snaps := 0\<rparr>)"
    and "spi_ok (Fin e)"
proof -
  have o: "unat (win_writes t) + unat (win_snaps t) + 1 < 2 ^ 64"
    using assms(4) by (simp add: no_window_overflow_def)
  note share = win_share [OF o]
  note ema = ema_next [OF assms(2,3) share(2,3)]
  show "resample_spi sys t =
      (sys\<lparr>approx_spi := f64_to_bits (Fin e), delta_spi := f64_to_bits (f64_of_rat (e - x))\<rparr>,
       t\<lparr>spi_ema := Fin e, win_writes := 0, win_snaps := 0\<rparr>)"
    unfolding resample_spi_def Let_def using assms(1,5) share(1) ema(1) by (simp add: e_def)
  show "spi_ok (Fin e)"
    unfolding e_def spi_ok_Fin using ema(2,3) by (simp add: ema_next_def on_grid_rne)
qed

text \<open>C29: Resampling keeps the index a proper number of the unit interval, binary64 rounding
  included: no sequence of windows can make it NaN, infinite, negative or larger than one.\<close>

theorem resample_keeps_unit:
  assumes "spi_ok (spi_ema t)" "no_window_overflow t"
  shows "spi_ok (spi_ema (snd (resample_spi sys t)))"
proof (cases "win_writes t + win_snaps t = 0")
  case False
  from assms(1) obtain x where "spi_ema t = Fin x" "0 \<le> x" "x \<le> 1" by (rule spi_okE)
  note x = this
  show ?thesis
    using resample_counted(1) [OF x assms(2) False, of sys] resample_counted(2) [OF x assms(2) False]
    by simp
qed (use assms in \<open>simp add: resample_idle\<close>)

definition snap_window :: thread_local_state where
  "snap_window = (thread_local_state_new 0)\<lparr>win_writes := 1, win_snaps := 3\<rparr>"

lemma snap_window_simps:
  "spi_ok (spi_ema snap_window)" "no_window_overflow snap_window"
  "win_writes snap_window = 1" "win_snaps snap_window = 3"
  by (simp_all add: snap_window_def thread_local_state_new_def no_window_overflow_def)

theorem resample_keeps_unit_witness: "spi_ok (spi_ema (snd (resample_spi pacer_system_new snap_window)))"
  by (rule resample_keeps_unit) (rule snap_window_simps)+

text \<open>A window with at least one operation is published: reading the shared cells back gives
  exactly the new thread-local index and its change, although both travel as bit patterns, and the
  window counters start again from zero; nothing else of the shared state changes.\<close>

theorem resample_publishes:
  assumes "spi_ok (spi_ema t)" "no_window_overflow t" "win_writes t \<noteq> 0 \<or> win_snaps t \<noteq> 0"
    and "resample_spi sys t = (sys', t')"
  shows "load_spi sys' = spi_ema t' \<and> load_delta_spi sys' = spi_ema t' - spi_ema t \<and>
    win_writes t' = 0 \<and> win_snaps t' = 0 \<and> op_counter t' = op_counter t \<and>
    global_epoch sys' = global_epoch sys \<and> announce_tbl sys' = announce_tbl sys"
proof -
  have nz: "win_writes t + win_snaps t \<noteq> 0" using assms(2,3) window_total by blast
  from assms(1) obtain x where x: "spi_ema t = Fin x" "0 \<le> x" "x \<le> 1" by (rule spi_okE)
  note r = resample_counted(1) [OF x assms(2) nz, of sys] resample_counted(2) [OF x assms(2) nz]
  define e where "e = ema_next x (win_share (win_writes t) (win_snaps t))"
  have e: "f64_from_bits (f64_to_bits (Fin e)) = Fin e"
    using r(2) by (intro from_bits_to_bits) (simp only: e_def spi_ok_def)
  have d: "f64_from_bits (f64_to_bits (f64_of_rat (e - x))) = f64_of_rat (e - x)"
    by (rule from_bits_to_bits) (rule f64_ok_of_rat)
  show ?thesis
    using assms(4) unfolding r(1) e_def [symmetric]
    by (auto simp: load_spi_def load_delta_spi_def e d x(1))
qed

theorem resample_publishes_witness:
  "load_spi (fst (resample_spi pacer_system_new snap_window)) =
   spi_ema (snd (resample_spi pacer_system_new snap_window))"
  using resample_publishes [OF snap_window_simps(1,2), of pacer_system_new]
  by (simp add: snap_window_simps prod_eq_iff)

text \<open>A window of writes alone never raises the index.\<close>

theorem write_window_lowers_spi:
  assumes "spi_ok (spi_ema t)" "no_window_overflow t" "win_snaps t = 0"
  shows "spi_ema (snd (resample_spi sys t)) \<le> spi_ema t"
proof (cases "win_writes t + win_snaps t = 0")
  case True
  from assms(1) show ?thesis by (auto elim!: spi_okE simp: resample_idle [OF True])
next
  case False
  from assms(1) obtain x where x: "spi_ema t = Fin x" "on_grid x" "0 \<le> x" "x \<le> 1" by (rule spi_okE)
  have "win_share (win_writes t) 0 = 0" by (simp add: win_share_def)
  moreover have "ema_next x 0 \<le> x"
    unfolding ema_next_def using x alphas mult_left_le [of keep_alpha x]
    by (simp add: rne_below less_imp_le)
  ultimately show ?thesis
    using resample_counted(1) [OF x(1,3,4) assms(2) False, of sys] assms(3) x(1) by simp
qed

theorem write_window_lowers_spi_witness:
  "spi_ema (snd (resample_spi pacer_system_new (snap_window\<lparr>win_snaps := 0\<rparr>))) \<le> Fin 0"
  using write_window_lowers_spi [of "snap_window\<lparr>win_snaps := 0\<rparr>" pacer_system_new]
  by (simp add: snap_window_def thread_local_state_new_def no_window_overflow_def)

section \<open>The derived parameters\<close>

lemma consts_f64: "f64_of_u64 BASE_STRIDE = Fin 16" "f64_of_u64 MAX_BATCH = Fin 64"
proof -
  have "rat_of_u64 16 = 16" "rat_of_u64 64 = 64" by (simp_all add: rat_of_u64_def)
  then show "f64_of_u64 BASE_STRIDE = Fin 16" "f64_of_u64 MAX_BATCH = Fin 64"
    by (simp_all add: f64_of_u64_small BASE_STRIDE_def MAX_BATCH_def)
qed

definition stride_rat :: "rat \<Rightarrow> rat" where
  "stride_rat x = rne (16 * rne (1 + rne (4 * x)))"

lemma rne_within: "on_grid a \<Longrightarrow> on_grid b \<Longrightarrow> a \<le> x \<Longrightarrow> x \<le> b \<Longrightarrow> a \<le> rne x \<and> rne x \<le> b"
  by (rule binary64.rnd_between)

lemma stride_rat:
  assumes "0 \<le> x" "x \<le> 1"
  shows "compute_epoch_stride (Fin x) = f64_to_u64 (Fin (of_int (round_away (stride_rat x))))"
    and "16 \<le> stride_rat x" and "stride_rat x \<le> 80"
proof -
  have a: "0 \<le> rne (4 * x) \<and> rne (4 * x) \<le> 4"
    using assms by (intro rne_within) (simp_all add: on_grid_numeral)
  have b: "1 \<le> rne (1 + rne (4 * x)) \<and> rne (1 + rne (4 * x)) \<le> 5"
    using a by (intro rne_within) (simp_all add: on_grid_numeral)
  have c: "16 \<le> stride_rat x \<and> stride_rat x \<le> 80"
    unfolding stride_rat_def using b by (intro rne_within) (simp_all add: on_grid_numeral)
  then show "16 \<le> stride_rat x" "stride_rat x \<le> 80" by simp_all
  show "compute_epoch_stride (Fin x) = f64_to_u64 (Fin (of_int (round_away (stride_rat x))))"
    unfolding compute_epoch_stride_def consts_f64 lit_4 one_f64_def stride_rat_def
    using assms a b by (simp add: small_of_rat)
qed

lemma round_away_mono: "x \<le> y \<Longrightarrow> round_away x \<le> round_away y"
  unfolding round_away_def
  by (auto intro!: floor_mono ceiling_mono) linarith

lemma stride_rat_mono: "x \<le> y \<Longrightarrow> stride_rat x \<le> stride_rat y"
  unfolding stride_rat_def by (intro rne_mono mult_left_mono add_left_mono) auto

lemma uint_stride:
  assumes "0 \<le> x" "x \<le> 1"
  shows "uint (compute_epoch_stride (Fin x)) = round_away (stride_rat x)"
    and "16 \<le> round_away (stride_rat x)" and "round_away (stride_rat x) \<le> 80"
proof -
  note s = stride_rat [OF assms]
  have "round_away 16 = 16" "round_away 80 = 80" by (simp_all add: round_away_def)
  then show r: "16 \<le> round_away (stride_rat x)" "round_away (stride_rat x) \<le> 80"
    using round_away_mono [OF s(2)] round_away_mono [OF s(3)] by simp_all
  have "of_int (round_away (stride_rat x)) \<le> (of_int 80 :: rat)" using r(2) by (simp only: of_int_le_iff)
  then have "of_int (round_away (stride_rat x)) < (2 ^ 64 :: rat)" by simp
  then show "uint (compute_epoch_stride (Fin x)) = round_away (stride_rat x)"
    unfolding s(1) using r(1) by (subst uint_f64_to_u64) simp_all
qed

text \<open>Every index of the unit interval gives an epoch stride between 16 and 80, so the remainder
  \<open>op_counter % stride\<close> of the reclamation passes never divides by zero.\<close>

theorem epoch_stride_bounds:
  assumes "spi_ok spi"
  shows "16 \<le> compute_epoch_stride spi \<and> compute_epoch_stride spi \<le> 80"
proof -
  from assms obtain x where "spi = Fin x" "0 \<le> x" "x \<le> 1" by (rule spi_okE)
  then show ?thesis using uint_stride [of x] by (simp add: word_le_def)
qed

theorem epoch_stride_bounds_witness:
  "16 \<le> compute_epoch_stride (Fin 1) \<and> compute_epoch_stride (Fin 1) \<le> 80"
  by (rule epoch_stride_bounds) (simp add: spi_ok_Fin)

text \<open>The epoch stride grows with the index, from 16 when nothing reads to 80 when nothing writes.\<close>

theorem epoch_stride_monotone:
  assumes "spi_ok spi" "spi_ok spi'" "spi \<le> spi'"
  shows "compute_epoch_stride spi \<le> compute_epoch_stride spi' \<and>
    compute_epoch_stride 0 = 16 \<and> compute_epoch_stride 1 = 80"
proof -
  from assms(1) obtain x where x: "spi = Fin x" "0 \<le> x" "x \<le> 1" by (rule spi_okE)
  from assms(2) obtain y where y: "spi' = Fin y" "0 \<le> y" "y \<le> 1" by (rule spi_okE)
  have "round_away (stride_rat x) \<le> round_away (stride_rat y)"
    using assms(3) x(1) y(1) by (intro round_away_mono stride_rat_mono) simp
  moreover have "stride_rat 0 = 16" "stride_rat 1 = 80"
    by (simp_all add: stride_rat_def rne_grid on_grid_numeral)
  then have "uint (compute_epoch_stride (Fin 0)) = 16" "uint (compute_epoch_stride (Fin 1)) = 80"
    using uint_stride(1) [of 0] uint_stride(1) [of 1] by (simp_all add: round_away_def)
  then have "compute_epoch_stride (Fin 0) = 16" "compute_epoch_stride (Fin 1) = 80"
    by (simp_all add: word_uint_eq_iff)
  ultimately show ?thesis
    using uint_stride(1) [OF x(2,3)] uint_stride(1) [OF y(2,3)] x(1) y(1)
    by (simp add: word_le_def zero_f64_def one_f64_def)
qed

theorem epoch_stride_monotone_witness: "compute_epoch_stride 0 \<le> compute_epoch_stride 1"
  using epoch_stride_monotone [of 0 1] by (simp add: zero_f64_def one_f64_def spi_ok_Fin)

text \<open>Values that are at most \<open>c\<close>, not a number, or minus infinity: all a cast sees of them is a
  number up to \<open>c\<close>.\<close>

fun at_most :: "rat \<Rightarrow> f64 \<Rightarrow> bool" where
  "at_most c (Fin x) \<longleftrightarrow> x \<le> c"
| "at_most c PInf \<longleftrightarrow> False"
| "at_most c _ \<longleftrightarrow> True"

lemma at_most_of_rat:
  assumes "on_grid c" "x \<le> c" "c \<le> 1024"
  shows "at_most c (f64_of_rat x)"
proof -
  have le: "rne x \<le> c" using assms(1,2) by (rule rne_below)
  have "(1024 :: rat) \<le> 2 ^ 65" by simp
  then have "rne x < overflow_bound" using le assms(3) overflow_bound_gt(2) by linarith
  with le show ?thesis by (simp add: f64_of_rat_def Let_def)
qed

lemma at_most_mult:
  assumes "on_grid c" "c \<le> 1024" "0 \<le> b" "b \<le> c" "at_most 1 v"
  shows "at_most c (Fin b * v)"
proof (cases v)
  case (Fin z)
  then have "b * z \<le> c"
    using assms mult_left_mono [of z 1 b] by simp
  with Fin show ?thesis by (simp add: at_most_of_rat assms)
qed (use assms in \<open>simp_all add: times_f64_def signed_inf_def\<close>)

lemma at_most_trend:
  assumes "Fin 0 < dspi"
  shows "at_most 1 (Fin 1 - dspi * Fin (1 / 2))"
proof (cases dspi)
  case (Fin d)
  have "0 \<le> rne (d * (1 / 2))" using assms Fin by (intro rne_nonneg) simp
  then show ?thesis unfolding Fin fin_arith f64_of_rat_def [of "d * (1 / 2)"] Let_def
    by (auto simp: at_most_of_rat minus_f64_def)
qed (use assms in \<open>simp_all add: times_f64_def minus_f64_def signed_inf_def\<close>)

lemma unat_at_most:
  assumes "at_most (of_nat n) v" "n < 2 ^ 64"
  shows "unat (f64_to_u64 v) \<le> n"
proof (cases v)
  case (Fin x)
  show ?thesis
  proof (cases "x \<le> 0")
    case False
    have "(of_nat n :: rat) < of_nat (2 ^ 64)" using assms(2) by (simp only: of_nat_less_iff)
    then have "x < 2 ^ 64" using assms(1) Fin by simp
    moreover have "nat \<lfloor>x\<rfloor> \<le> n" using assms(1) Fin False by (simp add: nat_le_iff floor_le_iff)
    ultimately show ?thesis using False Fin by (simp only: unat_f64_to_u64)
  qed (simp add: Fin f64_to_u64.simps(1))
qed (use assms(1) in simp_all)

text \<open>The batch size before the trend correction.\<close>

definition base_batch :: "rat \<Rightarrow> rat" where
  "base_batch x = rne (64 * rne (1 - x))"

lemma base_batch:
  assumes "0 \<le> x" "x \<le> 1"
  shows "f64_of_u64 MAX_BATCH * (1 - Fin x) = Fin (base_batch x)"
    and "0 \<le> base_batch x" and "base_batch x \<le> 64"
proof -
  have a: "0 \<le> rne (1 - x) \<and> rne (1 - x) \<le> 1"
    using assms by (intro rne_within) simp_all
  have b: "0 \<le> base_batch x \<and> base_batch x \<le> 64"
    unfolding base_batch_def using a by (intro rne_within) (simp_all add: on_grid_numeral)
  then show "0 \<le> base_batch x" "base_batch x \<le> 64" by simp_all
  show "f64_of_u64 MAX_BATCH * (1 - Fin x) = Fin (base_batch x)"
    unfolding consts_f64 one_f64_def base_batch_def using assms a by (simp add: small_of_rat)
qed

lemma base_batch_antimono: "x \<le> y \<Longrightarrow> base_batch y \<le> base_batch x"
  unfolding base_batch_def by (intro rne_mono mult_left_mono diff_left_mono) auto

lemma trend_threshold_pos: "TREND_THRESHOLD < dspi \<Longrightarrow> Fin 0 < dspi"
  by (cases dspi) (auto simp: lit_0_05 intro: less_trans [rotated])

text \<open>The batch of the continuous variant lies between 1 and 64 for every index of the unit
  interval and every trend, be it infinite or not a number.\<close>

theorem batch_k_bounds:
  assumes "spi_ok spi"
  shows "1 \<le> compute_batch_k spi dspi \<and> compute_batch_k spi dspi \<le> 64"
proof -
  from assms obtain x where x: "spi = Fin x" "0 \<le> x" "x \<le> 1" by (rule spi_okE)
  note b = base_batch [OF x(2,3)]
  define bk where "bk = (if TREND_THRESHOLD < dspi
    then Fin (base_batch x) * (1 - dspi * TREND_WEIGHT) else Fin (base_batch x))"
  have "at_most (of_nat 64) bk"
    using at_most_mult [OF _ _ b(2,3), of "1 - dspi * TREND_WEIGHT"] b(3)
      at_most_trend [OF trend_threshold_pos]
    by (simp add: bk_def lit_0_5 one_f64_def on_grid_numeral)
  then have "unat (f64_to_u64 bk) \<le> 64" by (rule unat_at_most) simp
  then have "f64_to_u64 bk \<le> 64" by (simp add: word_le_nat_alt)
  then have m: "1 \<le> max (f64_to_u64 bk) 1" "max (f64_to_u64 bk) 1 \<le> 64" by simp_all
  have "compute_batch_k spi dspi = unat (max (f64_to_u64 bk) 1)"
    by (simp add: compute_batch_k_def Let_def x(1) b(1) bk_def MIN_BATCH_def)
  with m show ?thesis by (simp add: word_le_nat_alt)
qed

theorem batch_k_bounds_witness: "compute_batch_k (Fin (1 / 2)) PInf \<le> 64"
proof -
  have "on_grid (1 / 2)" by (rule on_gridI [of _ 1 "- 1"]) simp_all
  then show ?thesis using batch_k_bounds [of "Fin (1 / 2)" PInf] by (simp add: spi_ok_Fin)
qed

text \<open>While the index does not rise faster than the trend threshold, a higher index never gives a
  larger batch, and the extremes are 64 without snapshots and 1 without writes.\<close>

theorem batch_k_antimonotone:
  assumes "spi_ok spi" "spi_ok spi'" "spi \<le> spi'" "\<not> TREND_THRESHOLD < dspi"
  shows "compute_batch_k spi' dspi \<le> compute_batch_k spi dspi \<and>
    compute_batch_k 0 dspi = 64 \<and> compute_batch_k 1 dspi = 1"
proof -
  from assms(1) obtain x where x: "spi = Fin x" "0 \<le> x" "x \<le> 1" by (rule spi_okE)
  from assms(2) obtain y where y: "spi' = Fin y" "0 \<le> y" "y \<le> 1" by (rule spi_okE)
  have k: "compute_batch_k (Fin z) dspi = max (nat \<lfloor>base_batch z\<rfloor>) 1" if z: "0 \<le> z" "z \<le> 1" for z
  proof -
    have "base_batch z < 2 ^ 64" using base_batch(3) [OF z] by simp
    then have "unat (f64_to_u64 (Fin (base_batch z))) = nat \<lfloor>base_batch z\<rfloor>"
      using base_batch(2) [OF z] by (intro unat_f64_to_u64)
    then show ?thesis
      using assms(4)
      by (auto simp: compute_batch_k_def base_batch(1) [OF z] MIN_BATCH_def max_def word_le_nat_alt)
  qed
  have "\<lfloor>base_batch y\<rfloor> \<le> \<lfloor>base_batch x\<rfloor>"
    using assms(3) x(1) y(1) by (intro floor_mono base_batch_antimono) simp
  then have "compute_batch_k spi' dspi \<le> compute_batch_k spi dspi"
    unfolding x(1) y(1) k [OF x(2,3)] k [OF y(2,3)] by (intro max.mono nat_mono) simp_all
  moreover have "base_batch 0 = 64" "base_batch 1 = 0"
    by (simp_all add: base_batch_def rne_grid on_grid_numeral)
  then have "compute_batch_k 0 dspi = 64" "compute_batch_k 1 dspi = 1"
    using k [of 0] k [of 1] by (simp_all add: zero_f64_def one_f64_def)
  ultimately show ?thesis by simp
qed

theorem batch_k_antimonotone_witness: "compute_batch_k 1 NaN \<le> compute_batch_k 0 NaN"
  using batch_k_antimonotone [of 0 1 NaN] by (simp add: zero_f64_def one_f64_def spi_ok_Fin)

text \<open>The retry wait doubles with every failed epoch step in a row and saturates at 32 after
  five of them; no streak, however long, makes the shift overflow.\<close>

theorem retry_wait_doubles: "unat (compute_retry_wait streak) = 2 ^ min (unat streak) 5"
proof -
  have m: "unat (min streak 6) = min (unat streak) 6"
    by (auto simp: min_def word_le_nat_alt)
  have p: "min (unat streak) 5 = min (min (unat streak) 6) 5" by simp
  define n where "n = min (unat streak) 6"
  have "n \<in> {0, 1, 2, 3, 4, 5, 6}" by (auto simp: n_def)
  then show ?thesis
    unfolding compute_retry_wait_def m p n_def [symmetric]
    by (auto simp: BASE_RETRY_MS_def MAX_RETRY_MS_def push_bit_eq_mult)
qed

end
