(* ===== verification/Reclaim.thy ===== *)
theory Reclaim
  imports Sampling
begin

text \<open>
  The two reclamation variants of \<open>PacerSystem\<close>, each with its two cadences: a drain on every write
  (\<open>drain_discrete_tick\<close>, \<open>drain_continuous_tick\<close>) and the bookkeeping at the end of a window
  (\<open>reclaim_discrete\<close>, \<open>reclaim_continuous\<close>). The tick of the discrete variant is shown to implement
  a policy stated without the code's branches, a budget per mode and the count of held writes.
\<close>

section \<open>Operations\<close>

text \<open>\<open>t.limbo_bag.drain(safe_ts, k)\<close> on the bag inside the thread-local state.\<close>

definition drain_bag ::
  "thread_local_state \<Rightarrow> u64 \<Rightarrow> nat \<Rightarrow> 'v memory \<Rightarrow> (nat \<times> thread_local_state \<times> 'v memory) res" where
  "drain_bag t safe_ts k m =
     bind_res (drain (limbo_bag t) safe_ts k m) (\<lambda>(n, q, m'). Inr (n, t\<lparr>limbo_bag := q\<rparr>, m'))"

definition drain_discrete_tick ::
  "pacer_system \<Rightarrow> thread_local_state \<Rightarrow> 'v memory \<Rightarrow> (nat \<times> thread_local_state \<times> 'v memory) res" where
  "drain_discrete_tick sys t m =
     bind_res (safe_reclaim_ts sys) (\<lambda>safe_ts.
       case gc_mode t of
         AggressiveEbr \<Rightarrow> drain_bag (t\<lparr>hold_ticks := 0\<rparr>) safe_ts AGGRESSIVE_DRAIN_PER_OP m
       | AmortisedFree \<Rightarrow> drain_bag (t\<lparr>hold_ticks := 0\<rparr>) safe_ts AF_BATCH_K m
       | ConservativeHold \<Rightarrow>
           let t1 = t\<lparr>hold_ticks := hold_ticks t + 1\<rparr> in
           if HOLD_LIMIT \<le> hold_ticks t1
           then drain_bag (t1\<lparr>hold_ticks := 0\<rparr>) safe_ts (unat HOLD_LIMIT) m
           else Inr (0, t1, m))"

definition reclaim_discrete ::
  "pacer_system \<Rightarrow> thread_local_state \<Rightarrow> (nat \<times> pacer_system \<times> thread_local_state) res" where
  "reclaim_discrete sys t =
     (let spi = spi_ema t;
          mode = select_gc_mode_with_hysteresis spi (gc_mode t);
          t1 = t\<lparr>gc_mode := mode\<rparr>;
          stride = compute_epoch_stride spi
      in case mode of
           ConservativeHold \<Rightarrow> Inr (0, sys, t1)
         | _ \<Rightarrow>
             if stride = 0 then Inl DivisionByZero
             else if op_counter t1 mod stride = 0
             then (let (sys', t2) = step_epoch sys t1 in Inr (0, sys', t2))
             else Inr (0, sys, t1))"

definition drain_continuous_tick ::
  "pacer_system \<Rightarrow> thread_local_state \<Rightarrow> 'v memory \<Rightarrow> (nat \<times> thread_local_state \<times> 'v memory) res" where
  "drain_continuous_tick sys t m =
     bind_res (safe_reclaim_ts sys) (\<lambda>safe_ts. drain_bag t safe_ts CONTINUOUS_DRAIN_PER_OP m)"

definition reclaim_continuous ::
  "pacer_system \<Rightarrow> thread_local_state \<Rightarrow> 'v memory
    \<Rightarrow> (nat \<times> pacer_system \<times> thread_local_state \<times> 'v memory) res" where
  "reclaim_continuous sys t m =
     (let spi = spi_ema t;
          dspi = load_delta_spi sys;
          bk = compute_batch_k spi dspi;
          stride = compute_epoch_stride spi
      in bind_res (safe_reclaim_ts sys) (\<lambda>safe_ts.
         bind_res (drain_bag t safe_ts bk m) (\<lambda>(freed, t1, m').
           if stride = 0 then Inl DivisionByZero
           else if op_counter t1 mod stride = 0
           then (let (sys', t2) = step_epoch sys t1 in Inr (freed, sys', t2, m'))
           else Inr (freed, sys, t1, m'))))"

section \<open>The policy of the discrete tick\<close>

text \<open>How many nodes one write may free, and how many held writes are counted after it.\<close>

fun tick_budget :: "gc_mode \<Rightarrow> u64 \<Rightarrow> nat" where
  "tick_budget AggressiveEbr h = 4"
| "tick_budget AmortisedFree h = 1"
| "tick_budget ConservativeHold h = (if 8 \<le> h + 1 then 8 else 0)"

fun tick_hold :: "gc_mode \<Rightarrow> u64 \<Rightarrow> u64" where
  "tick_hold ConservativeHold h = (if 8 \<le> h + 1 then 0 else h + 1)"
| "tick_hold _ h = 0"

text \<open>The timestamp the scan yields on a proper table.\<close>

definition safe_ts_of :: "pacer_system \<Rightarrow> u64" where
  "safe_ts_of sys = Min (insert u64_max (active_timestamps (announce_tbl sys)))"

lemma safe_reclaim_ts_of: "table_ok (announce_tbl sys) \<Longrightarrow> safe_reclaim_ts sys = Inr (safe_ts_of sys)"
  by (simp add: safe_reclaim_ts_def safe_ts_of_def min_active_ts_Min)

lemma safe_ts_of_cong: "announce_tbl sys' = announce_tbl sys \<Longrightarrow> safe_ts_of sys' = safe_ts_of sys"
  by (simp add: safe_ts_of_def)

lemma safe_ts_of_le:
  assumes "table_ok (announce_tbl sys)" "ts \<in> active_timestamps (announce_tbl sys)"
  shows "safe_ts_of sys \<le> ts"
  unfolding safe_ts_of_def using finite_active_timestamps [OF assms(1)] assms(2) by (intro Min_le) auto

lemma safe_ts_of_none:
  "active_timestamps (announce_tbl sys) = {} \<Longrightarrow> safe_ts_of sys = u64_max"
  by (simp add: safe_ts_of_def)

text \<open>How many nodes a drain with budget \<open>k\<close> frees, and the state it leaves.\<close>

definition drain_count :: "pacer_system \<Rightarrow> thread_local_state \<Rightarrow> nat \<Rightarrow> nat" where
  "drain_count sys t k = length (drained (limbo_bag t) (safe_ts_of sys) k)"

lemma drain_count_le: "drain_count sys t k \<le> k" "drain_count sys t k \<le> length (limbo_bag t)"
  by (simp_all add: drain_count_def length_drained_le)

lemma drain_count_all:
  "\<forall>e \<in> set (limbo_bag t). fst e < safe_ts_of sys \<Longrightarrow> drain_count sys t k = min k (length (limbo_bag t))"
  by (simp add: drain_count_def drained_all min.commute)

lemma drain_bag_correct:
  fixes sys :: pacer_system and k :: nat and m :: "'v memory"
  assumes "bag_ok (limbo_bag t) m" "limbo_bag t' = limbo_bag t"
  defines "n \<equiv> drain_count sys t k"
  shows "drain_bag t' (safe_ts_of sys) k m =
      Inr (n, t'\<lparr>limbo_bag := drop n (limbo_bag t)\<rparr>, free_all (take n (limbo_bag t)) m)"
    and "bag_ok (drop n (limbo_bag t)) (free_all (take n (limbo_bag t)) m)"
  using drain_correct [OF assms(1), of "safe_ts_of sys" k] bag_ok_drained [OF assms(1), of "safe_ts_of sys" k]
    drained_take [of "limbo_bag t" "safe_ts_of sys" k]
  by (simp_all add: n_def drain_count_def drain_bag_def assms(2))

lemma drain_count_0 [simp]: "drain_count sys t 0 = 0"
  using drain_count_le(1) [of sys t 0] by simp

lemma discrete_tick_policy:
  assumes "table_ok (announce_tbl sys)" "bag_ok (limbo_bag t) m"
  defines "n \<equiv> drain_count sys t (tick_budget (gc_mode t) (hold_ticks t))"
  shows "drain_discrete_tick sys t m =
    Inr (n, t\<lparr>hold_ticks := tick_hold (gc_mode t) (hold_ticks t), limbo_bag := drop n (limbo_bag t)\<rparr>,
         free_all (take n (limbo_bag t)) m)"
  unfolding n_def drain_discrete_tick_def safe_reclaim_ts_of [OF assms(1)]
  by (cases "gc_mode t")
    (auto simp: Let_def drain_bag_correct(1) [OF assms(2)] AGGRESSIVE_DRAIN_PER_OP_def AF_BATCH_K_def HOLD_LIMIT_def)

lemma continuous_tick_policy:
  assumes "table_ok (announce_tbl sys)" "bag_ok (limbo_bag t) m"
  defines "n \<equiv> drain_count sys t 1"
  shows "drain_continuous_tick sys t m =
    Inr (n, t\<lparr>limbo_bag := drop n (limbo_bag t)\<rparr>, free_all (take n (limbo_bag t)) m)"
  unfolding n_def drain_continuous_tick_def safe_reclaim_ts_of [OF assms(1)]
  by (simp add: drain_bag_correct(1) [OF assms(2)] CONTINUOUS_DRAIN_PER_OP_def)

section \<open>The window passes\<close>

lemma stride_nonzero: "spi_ok spi \<Longrightarrow> compute_epoch_stride spi \<noteq> 0"
proof (erule spi_okE)
  fix x assume "spi = Fin x" "0 \<le> x" "x \<le> 1"
  then show "compute_epoch_stride spi \<noteq> 0" using uint_stride [of x] by auto
qed

text \<open>Whether the pass steps the epoch.\<close>

definition strides :: "thread_local_state \<Rightarrow> bool" where
  "strides t \<longleftrightarrow> op_counter t mod compute_epoch_stride (spi_ema t) = 0"

definition next_mode :: "thread_local_state \<Rightarrow> gc_mode" where
  "next_mode t = select_gc_mode_with_hysteresis (spi_ema t) (gc_mode t)"

definition bookkeep :: "pacer_system \<Rightarrow> thread_local_state \<Rightarrow> pacer_system \<times> thread_local_state" where
  "bookkeep sys t =
     (if next_mode t \<noteq> ConservativeHold \<and> strides t
      then (sys\<lparr>global_epoch := global_epoch sys + 1\<rparr>, t\<lparr>gc_mode := next_mode t, fail_streak := 0\<rparr>)
      else (sys, t\<lparr>gc_mode := next_mode t\<rparr>))"

lemma reclaim_discrete_bookkeep:
  assumes "spi_ok (spi_ema t)"
  shows "reclaim_discrete sys t = Inr (0, bookkeep sys t)"
  using stride_nonzero [OF assms]
  by (cases "next_mode t")
    (auto simp: reclaim_discrete_def bookkeep_def strides_def next_mode_def step_epoch_alone Let_def)

lemma bookkeep_keeps:
  assumes "bookkeep sys t = (sys', t')"
  shows "limbo_bag t' = limbo_bag t" "hold_ticks t' = hold_ticks t" "op_counter t' = op_counter t"
    "spi_ema t' = spi_ema t" "win_writes t' = win_writes t" "win_snaps t' = win_snaps t" "tid t' = tid t"
    "gc_mode t' = next_mode t" "announce_tbl sys' = announce_tbl sys" "scc sys' = scc sys"
    "global_epoch sys' = global_epoch sys \<or> global_epoch sys' = global_epoch sys + 1"
  using assms by (auto simp: bookkeep_def split: if_splits)

lemma reclaim_continuous_policy:
  assumes "table_ok (announce_tbl sys)" "bag_ok (limbo_bag t) m" "spi_ok (spi_ema t)"
  defines "n \<equiv> drain_count sys t (compute_batch_k (spi_ema t) (load_delta_spi sys))"
  shows "reclaim_continuous sys t m =
    Inr (n, if strides t then sys\<lparr>global_epoch := global_epoch sys + 1\<rparr> else sys,
         (if strides t then t\<lparr>fail_streak := 0\<rparr> else t)\<lparr>limbo_bag := drop n (limbo_bag t)\<rparr>,
         free_all (take n (limbo_bag t)) m)"
  unfolding n_def reclaim_continuous_def safe_reclaim_ts_of [OF assms(1)]
  using stride_nonzero [OF assms(3)]
  by (simp add: Let_def drain_bag_correct(1) [OF assms(2)] strides_def step_epoch_alone)

section \<open>Properties\<close>

lemma drain_zero [simp]: "drain q s 0 m = Inr (0, q, m)"
  by (cases q) (auto simp: drain_def)

text \<open>The tick implements the policy: whatever the scan returned, it is one drain with the budget of
  the mode, and the count of held writes moves as the policy says, with no other effect on the
  thread.\<close>

theorem discrete_tick_implements_policy:
  assumes "safe_reclaim_ts sys = Inr s"
  shows "drain_discrete_tick sys t m =
    bind_res (drain (limbo_bag t) s (tick_budget (gc_mode t) (hold_ticks t)) m) (\<lambda>(n, q, m').
      Inr (n, t\<lparr>hold_ticks := tick_hold (gc_mode t) (hold_ticks t), limbo_bag := q\<rparr>, m'))"
  by (cases "gc_mode t")
    (auto simp: drain_discrete_tick_def assms drain_bag_def Let_def AGGRESSIVE_DRAIN_PER_OP_def
      AF_BATCH_K_def HOLD_LIMIT_def)

definition held_thread :: thread_local_state where
  "held_thread = (thread_local_state_new 0)
     \<lparr>gc_mode := ConservativeHold, hold_ticks := 7, spi_ema := Fin 1, limbo_bag := small_bag\<rparr>"

lemma held_thread_simps:
  "spi_ok (spi_ema held_thread)" "limbo_bag held_thread = small_bag" "op_counter held_thread = 0"
  "gc_mode held_thread = ConservativeHold" "hold_ticks held_thread = 7"
  by (simp_all add: held_thread_def spi_ok_Fin thread_local_state_new_def)

lemma new_system_scan:
  "table_ok (announce_tbl pacer_system_new)"
  "safe_reclaim_ts pacer_system_new = Inr u64_max"
  by (simp_all add: pacer_system_new_def safe_reclaim_ts_def min_active_ts_def announcement_table_new_def
      table_ok_def)

theorem discrete_tick_implements_policy_witness:
  "drain_discrete_tick pacer_system_new held_thread two_boxes =
   bind_res (drain small_bag u64_max 8 two_boxes) (\<lambda>(n, q, m').
     Inr (n, held_thread\<lparr>hold_ticks := 0, limbo_bag := q\<rparr>, m'))"
  by (subst discrete_tick_implements_policy [OF new_system_scan(2)]) (simp add: held_thread_simps)

text \<open>The window pass of the discrete variant returns zero, always: it leaves the bag alone,
  re-selects the mode with hysteresis and steps the epoch exactly when the selected mode does not
  hold and the stride divides the operation count.\<close>

theorem reclaim_discrete_only_bookkeeps:
  assumes "spi_ok (spi_ema t)"
  shows "\<exists>sys' t'. reclaim_discrete sys t = Inr (0, sys', t') \<and> limbo_bag t' = limbo_bag t \<and>
    gc_mode t' = select_gc_mode_with_hysteresis (spi_ema t) (gc_mode t) \<and>
    global_epoch sys' = global_epoch sys +
      (if gc_mode t' \<noteq> ConservativeHold \<and> op_counter t mod compute_epoch_stride (spi_ema t) = 0
       then 1 else 0)"
  unfolding reclaim_discrete_bookkeep [OF assms]
  by (auto simp: bookkeep_def next_mode_def strides_def)

theorem reclaim_discrete_only_bookkeeps_witness:
  "\<exists>sys' t'. reclaim_discrete pacer_system_new held_thread = Inr (0, sys', t') \<and>
     global_epoch sys' = global_epoch pacer_system_new"
proof -
  have "select_gc_mode_with_hysteresis (Fin 1) ConservativeHold = ConservativeHold"
    by (simp add: mode_Fin threshold_defs)
  then show ?thesis
    using reclaim_discrete_only_bookkeeps [OF held_thread_simps(1), of pacer_system_new]
    by (auto simp: held_thread_def)
qed

text \<open>The window pass of the continuous variant does not panic on an index of the unit interval: it
  frees at most the batch derived from index and trend, all of the batch if every entry is
  eligible, and accounts for the nodes it frees.\<close>

theorem reclaim_continuous_frees_batch:
  assumes "table_ok (announce_tbl sys)" "bag_ok (limbo_bag t) m" "spi_ok (spi_ema t)"
  defines "k \<equiv> compute_batch_k (spi_ema t) (load_delta_spi sys)"
  shows "\<exists>n sys' t' m'. reclaim_continuous sys t m = Inr (n, sys', t', m') \<and> n \<le> k \<and>
    n + limbo_len (limbo_bag t') = limbo_len (limbo_bag t) \<and> bag_ok (limbo_bag t') m' \<and>
    ((\<forall>e \<in> set (limbo_bag t). fst e < safe_ts_of sys) \<longrightarrow> n = min k (limbo_len (limbo_bag t)))"
proof -
  define n where "n = drain_count sys t k"
  have "n \<le> k" "n \<le> length (limbo_bag t)"
    unfolding n_def by (rule drain_count_le)+
  moreover have "bag_ok (drop n (limbo_bag t)) (free_all (take n (limbo_bag t)) m)"
    unfolding n_def by (rule drain_bag_correct(2) [OF assms(2) refl])
  moreover have "(\<forall>e \<in> set (limbo_bag t). fst e < safe_ts_of sys) \<longrightarrow> n = min k (length (limbo_bag t))"
    using drain_count_all unfolding n_def by blast
  moreover note reclaim_continuous_policy [OF assms(1-3)]
  ultimately show ?thesis by (auto simp: limbo_len_def n_def k_def)
qed

theorem reclaim_continuous_frees_batch_witness:
  "\<exists>n sys' t' m'. reclaim_continuous pacer_system_new held_thread two_boxes = Inr (n, sys', t', m') \<and>
     n + limbo_len (limbo_bag t') = limbo_len small_bag"
  using reclaim_continuous_frees_batch [OF new_system_scan(1), of held_thread two_boxes]
    small_bag_ok held_thread_simps by auto

end
