(* ===== verification/Write_Path.thy ===== *)
theory Write_Path
  imports Reclaim
begin

text \<open>
  The operations of \<open>PacerSystem\<close> a user thread runs: taking and releasing a snapshot, preparing a
  write and finishing it (\<open>take_snapshot\<close>, \<open>release_snapshot_for\<close>, \<open>write_op_prepare\<close>, \<open>post_write\<close>).
  The time a snapshot took, which the code reads off a clock, is an argument. \<open>take_snapshot\<close> can
  spin for ever or panic, so its value is an option of a result.
\<close>

section \<open>Operations\<close>

definition take_snapshot ::
  "pacer_system \<Rightarrow> thread_local_state \<Rightarrow> u64 \<Rightarrow> u64
    \<Rightarrow> (u64 \<times> pacer_system \<times> thread_local_state) res option" where
  "take_snapshot sys t now_ns elapsed_ns =
     (let t1 = t\<lparr>win_snaps := win_snaps t + 1\<rparr> in
      case scc_take_snapshot (scc sys) now_ns (global_epoch sys) of
        None \<Rightarrow> None
      | Some (ts, s1) \<Rightarrow>
          let s2 = record_latency_ns s1 elapsed_ns;
              sys1 = sys\<lparr>scc := s2\<rparr>
          in Some (bind_res (announce_snapshot sys1 (tid t1) ts) (\<lambda>sys2. Inr (ts, sys2, t1))))"

definition write_op_prepare ::
  "pacer_system \<Rightarrow> thread_local_state \<Rightarrow> 'v \<Rightarrow> 'v memory
    \<Rightarrow> addr \<times> u64 \<times> pacer_system \<times> thread_local_state \<times> 'v memory" where
  "write_op_prepare sys t v m =
     (let t1 = t\<lparr>win_writes := win_writes t + 1\<rparr>;
          t2 = t1\<lparr>op_counter := op_counter t1 + 1\<rparr>;
          ts = global_epoch sys;
          sys1 = sys\<lparr>global_epoch := global_epoch sys + 1\<rparr>;
          (p, m1) = version_node_new v ts m
      in (p, ts, sys1, t2, m1))"

definition post_write ::
  "pacer_system \<Rightarrow> thread_local_state \<Rightarrow> addr \<Rightarrow> u64 \<Rightarrow> 'v memory
    \<Rightarrow> (nat \<times> pacer_system \<times> thread_local_state \<times> 'v memory) res" where
  "post_write sys t old_ptr old_ts m =
     (let t1 = t\<lparr>limbo_bag := limbo_push (limbo_bag t) old_ts old_ptr\<rparr> in
      bind_res (drain_discrete_tick sys t1 m) (\<lambda>(freed, t2, m2).
        if op_counter t2 mod WINDOW_SIZE = 0
        then (let (sys1, t3) = resample_spi sys t2 in
              bind_res (reclaim_discrete sys1 t3) (\<lambda>(n, sys2, t4). Inr (freed + n, sys2, t4, m2)))
        else Inr (freed, sys, t2, m2)))"

section \<open>The worker's invariant\<close>

text \<open>What every operation of a registered thread relies on and re-establishes.\<close>

definition worker_ok :: "pacer_system \<Rightarrow> thread_local_state \<Rightarrow> 'v memory \<Rightarrow> bool" where
  "worker_ok sys t m \<longleftrightarrow> table_ok (announce_tbl sys) \<and> tid t \<in> registered (announce_tbl sys) \<and>
     scc_ok (scc sys) \<and> spi_ok (spi_ema t) \<and> memory_ok m \<and> bag_ok (limbo_bag t) m"

text \<open>The effect of \<open>post_write\<close> in one piece.\<close>

definition pushed :: "thread_local_state \<Rightarrow> u64 \<Rightarrow> addr \<Rightarrow> thread_local_state" where
  "pushed t ts p = t\<lparr>limbo_bag := limbo_push (limbo_bag t) ts p\<rparr>"

definition write_freed :: "pacer_system \<Rightarrow> thread_local_state \<Rightarrow> addr \<Rightarrow> u64 \<Rightarrow> nat" where
  "write_freed sys t p ts =
     drain_count sys (pushed t ts p) (tick_budget (gc_mode t) (hold_ticks t))"

definition after_tick :: "pacer_system \<Rightarrow> thread_local_state \<Rightarrow> addr \<Rightarrow> u64 \<Rightarrow> thread_local_state" where
  "after_tick sys t p ts = t\<lparr>hold_ticks := tick_hold (gc_mode t) (hold_ticks t),
     limbo_bag := drop (write_freed sys t p ts) (limbo_push (limbo_bag t) ts p)\<rparr>"

definition after_window :: "pacer_system \<Rightarrow> thread_local_state \<Rightarrow> pacer_system \<times> thread_local_state" where
  "after_window sys t =
     (if op_counter t mod WINDOW_SIZE = 0 then case resample_spi sys t of (sys1, t1) \<Rightarrow> bookkeep sys1 t1
      else (sys, t))"

lemma resample_keeps:
  assumes "spi_ok (spi_ema t)" "no_window_overflow t" "resample_spi sys t = (sys', t')"
  shows "spi_ok (spi_ema t')" "limbo_bag t' = limbo_bag t" "hold_ticks t' = hold_ticks t"
    "op_counter t' = op_counter t" "tid t' = tid t" "gc_mode t' = gc_mode t"
    "announce_tbl sys' = announce_tbl sys" "scc sys' = scc sys" "global_epoch sys' = global_epoch sys"
    "win_writes t' = 0" "win_snaps t' = 0"
proof -
  from assms(1) obtain x where x: "spi_ema t = Fin x" "0 \<le> x" "x \<le> 1" by (rule spi_okE)
  have "spi_ok (spi_ema t') \<and> limbo_bag t' = limbo_bag t \<and> hold_ticks t' = hold_ticks t \<and>
    op_counter t' = op_counter t \<and> tid t' = tid t \<and> gc_mode t' = gc_mode t \<and>
    announce_tbl sys' = announce_tbl sys \<and> scc sys' = scc sys \<and> global_epoch sys' = global_epoch sys \<and>
    win_writes t' = 0 \<and> win_snaps t' = 0"
  proof (cases "win_writes t + win_snaps t = 0")
    case True
    with assms window_total [OF assms(2)] show ?thesis by (simp add: resample_idle)
  next
    case False
    show ?thesis
      using resample_counted(1) [OF x assms(2) False, of sys] resample_counted(2) [OF x assms(2) False]
        assms(3) by auto
  qed
  then show "spi_ok (spi_ema t')" "limbo_bag t' = limbo_bag t" "hold_ticks t' = hold_ticks t"
    "op_counter t' = op_counter t" "tid t' = tid t" "gc_mode t' = gc_mode t"
    "announce_tbl sys' = announce_tbl sys" "scc sys' = scc sys" "global_epoch sys' = global_epoch sys"
    "win_writes t' = 0" "win_snaps t' = 0" by auto
qed

lemma after_window_keeps:
  assumes "spi_ok (spi_ema t)" "no_window_overflow t" "after_window sys t = (sys', t')"
  shows "spi_ok (spi_ema t')" "limbo_bag t' = limbo_bag t" "hold_ticks t' = hold_ticks t"
    "op_counter t' = op_counter t" "tid t' = tid t"
    "announce_tbl sys' = announce_tbl sys" "scc sys' = scc sys"
    "global_epoch sys' = global_epoch sys \<or> global_epoch sys' = global_epoch sys + 1"
    "win_writes t' = 0 \<and> win_snaps t' = 0 \<or> win_writes t' = win_writes t \<and> win_snaps t' = win_snaps t"
    "op_counter t mod WINDOW_SIZE \<noteq> 0 \<Longrightarrow> gc_mode t' = gc_mode t"
proof -
  have "spi_ok (spi_ema t') \<and> limbo_bag t' = limbo_bag t \<and> hold_ticks t' = hold_ticks t \<and>
    op_counter t' = op_counter t \<and> tid t' = tid t \<and>
    announce_tbl sys' = announce_tbl sys \<and> scc sys' = scc sys \<and>
    (global_epoch sys' = global_epoch sys \<or> global_epoch sys' = global_epoch sys + 1) \<and>
    (win_writes t' = 0 \<and> win_snaps t' = 0 \<or> win_writes t' = win_writes t \<and> win_snaps t' = win_snaps t) \<and>
    (op_counter t mod WINDOW_SIZE \<noteq> 0 \<longrightarrow> gc_mode t' = gc_mode t)"
  proof (cases "op_counter t mod WINDOW_SIZE = 0")
    case True
    obtain sys1 t1 where r: "resample_spi sys t = (sys1, t1)" by fastforce
    note a = resample_keeps [OF assms(1,2) r]
    have "bookkeep sys1 t1 = (sys', t')" using assms(3) True r by (simp add: after_window_def)
    from bookkeep_keeps [OF this] a True show ?thesis by auto
  qed (use assms in \<open>simp add: after_window_def\<close>)
  then show "spi_ok (spi_ema t')" "limbo_bag t' = limbo_bag t" "hold_ticks t' = hold_ticks t"
    "op_counter t' = op_counter t" "tid t' = tid t"
    "announce_tbl sys' = announce_tbl sys" "scc sys' = scc sys"
    "global_epoch sys' = global_epoch sys \<or> global_epoch sys' = global_epoch sys + 1"
    "win_writes t' = 0 \<and> win_snaps t' = 0 \<or> win_writes t' = win_writes t \<and> win_snaps t' = win_snaps t"
    "op_counter t mod WINDOW_SIZE \<noteq> 0 \<Longrightarrow> gc_mode t' = gc_mode t" by auto
qed

lemma after_tick_keeps [simp]:
  "spi_ema (after_tick sys t p ts) = spi_ema t" "op_counter (after_tick sys t p ts) = op_counter t"
  "no_window_overflow (after_tick sys t p ts) = no_window_overflow t"
  "tid (after_tick sys t p ts) = tid t" "gc_mode (after_tick sys t p ts) = gc_mode t"
  "win_writes (after_tick sys t p ts) = win_writes t" "win_snaps (after_tick sys t p ts) = win_snaps t"
  by (simp_all add: after_tick_def no_window_overflow_def)

lemma post_write_correct:
  fixes m :: "'v memory"
  assumes "table_ok (announce_tbl sys)" "bag_ok (limbo_push (limbo_bag t) ts p) m"
    "spi_ok (spi_ema t)" "no_window_overflow t"
  defines "n \<equiv> write_freed sys t p ts"
  assumes "after_window sys (after_tick sys t p ts) = (sys', t')"
  shows "post_write sys t p ts m =
    Inr (n, sys', t', free_all (take n (limbo_push (limbo_bag t) ts p)) m)"
proof -
  have b: "bag_ok (limbo_bag (pushed t ts p)) m" using assms(2) by (simp add: pushed_def)
  have d: "drain_discrete_tick sys (pushed t ts p) m =
    Inr (n, after_tick sys t p ts, free_all (take n (limbo_push (limbo_bag t) ts p)) m)"
    using discrete_tick_policy [OF assms(1) b]
    by (simp add: n_def write_freed_def after_tick_def pushed_def)
  show ?thesis
  proof (cases "op_counter t mod WINDOW_SIZE = 0")
    case False
    then show ?thesis using d assms(6) by (auto simp: post_write_def pushed_def after_window_def)
  next
    case True
    obtain sys1 t1 where r: "resample_spi sys (after_tick sys t p ts) = (sys1, t1)" by fastforce
    have "spi_ok (spi_ema t1)" using resample_keeps(1) [OF _ _ r] assms(3,4) by simp
    from reclaim_discrete_bookkeep [OF this, of sys1] r True d assms(6) show ?thesis
      by (simp add: post_write_def pushed_def after_window_def)
  qed
qed

lemma write_freed_le: "write_freed sys t p ts \<le> Suc (length (limbo_bag t))"
  "write_freed sys t p ts \<le> tick_budget (gc_mode t) (hold_ticks t)"
  using drain_count_le [of sys "pushed t ts p"] by (auto simp: write_freed_def pushed_def limbo_push_def)

lemma bag_after_tick:
  assumes "bag_ok (limbo_push (limbo_bag t) ts p) m"
  shows "bag_ok (limbo_bag (after_tick sys t p ts))
    (free_all (take (write_freed sys t p ts) (limbo_push (limbo_bag t) ts p)) m)"
  using drain_bag_correct(2) [where t = "pushed t ts p" and t' = "pushed t ts p" and m = m] assms
  by (simp add: after_tick_def write_freed_def pushed_def)

section \<open>Properties of the write path\<close>

text \<open>C4: A write that retires a live node not retired before always returns: no free fails, no division
  by zero, no panic. Nothing is lost: the nodes freed and the nodes left are the old backlog and the
  new node; the bag again owns live, distinct boxes and the worker's invariant holds again.\<close>

theorem post_write_returns_and_accounts:
  fixes m :: "'v memory"
  assumes "worker_ok sys t m" "no_window_overflow t" "boxes m p \<noteq> None" "p \<notin> set (owned_addrs (limbo_bag t))"
  shows "\<exists>n sys' t' m'. post_write sys t p ts m = Inr (n, sys', t', m') \<and> worker_ok sys' t' m' \<and>
    n + limbo_len (limbo_bag t') = limbo_len (limbo_bag t) + 1 \<and>
    m' = free_all (take n (limbo_push (limbo_bag t) ts p)) m \<and>
    n \<le> tick_budget (gc_mode t) (hold_ticks t)"
proof -
  have w: "table_ok (announce_tbl sys)" "spi_ok (spi_ema t)" "memory_ok m"
    using assms(1) by (simp_all add: worker_ok_def)
  have b: "bag_ok (limbo_push (limbo_bag t) ts p) m"
    using assms by (auto simp: worker_ok_def intro: bag_ok_push)
  obtain sys' t' where a: "after_window sys (after_tick sys t p ts) = (sys', t')" by fastforce
  note k = after_window_keeps [OF _ _ a, simplified, OF w(2) assms(2)]
  note r = post_write_correct [OF w(1) b w(2) assms(2) a]
  define n where "n = write_freed sys t p ts"
  have "worker_ok sys' t' (free_all (take n (limbo_push (limbo_bag t) ts p)) m)"
    using assms(1) k bag_after_tick [OF b, of sys] memory_ok_free_all [OF w(3)]
    by (simp add: worker_ok_def n_def)
  moreover have "n + limbo_len (limbo_bag t') = limbo_len (limbo_bag t) + 1"
    using k(2) write_freed_le(1) [of sys t p ts]
    by (simp add: after_tick_def n_def limbo_len_def limbo_push_def)
  ultimately show ?thesis using r write_freed_le(2) by (auto simp: n_def)
qed

definition one_thread :: "pacer_system \<times> thread_local_state" where
  "one_thread = (let (sys, r) = register_thread pacer_system_new in (sys, thread_local_state_new 0))"

lemma one_thread_ok: "worker_ok (fst one_thread) (snd one_thread) (empty_memory :: 'v memory)"
  by (simp add: worker_ok_def one_thread_def register_thread_def register_def Let_def pacer_system_new_def
      announcement_table_new_def table_ok_def registered_def thread_local_state_new_def memory_ok_def
      empty_memory_def limbo_bag_new_def MAX_THREADS_def)

theorem post_write_returns_and_accounts_witness:
  "\<exists>n sys' t' m'. post_write (fst one_thread) (snd one_thread) 0 3 two_boxes = Inr (n, sys', t', m') \<and>
     n + limbo_len (limbo_bag t') = 1"
proof -
  have t: "snd one_thread = thread_local_state_new 0"
    by (simp add: one_thread_def register_thread_def register_def Let_def)
  have "memory_ok two_boxes"
    by (simp add: memory_ok_def two_boxes_def version_node_new_def empty_memory_def)
  then have "worker_ok (fst one_thread) (snd one_thread) two_boxes"
    using one_thread_ok [where 'v = nat]
    by (simp add: worker_ok_def t thread_local_state_new_def limbo_bag_new_def)
  moreover have "no_window_overflow (snd one_thread)" "limbo_bag (snd one_thread) = []"
    by (simp_all add: t thread_local_state_new_def no_window_overflow_def limbo_bag_new_def)
  moreover have "boxes two_boxes 0 \<noteq> None"
    by (simp add: two_boxes_def version_node_new_def empty_memory_def)
  ultimately obtain n sys' t' m' where
    "post_write (fst one_thread) (snd one_thread) 0 3 two_boxes = Inr (n, sys', t', m')"
    "n + limbo_len (limbo_bag t') = limbo_len [] + 1"
    using post_write_returns_and_accounts [of "fst one_thread" "snd one_thread" two_boxes 0 3] by auto
  then show ?thesis by (auto simp: limbo_len_def)
qed

text \<open>Preparing a write gives the node a timestamp no earlier write has: the epoch moves on by one,
  the node carries the epoch it was read at, its address was not in use, and the worker's invariant
  is kept.\<close>

theorem write_op_prepare_fresh:
  assumes "worker_ok sys t m" "write_op_prepare sys t v m = (p, ts, sys', t', m')"
  shows "ts = global_epoch sys \<and> global_epoch sys' = ts + 1 \<and> op_counter t' = op_counter t + 1 \<and>
    boxes m p = None \<and> boxes m' p = Some \<lparr>node_value = v, birth_ts = ts, next_ptr = 0\<rparr> \<and>
    p \<notin> set (owned_addrs (limbo_bag t')) \<and> worker_ok sys' t' m'"
proof -
  have e: "version_node_new v (global_epoch sys) m = (p, m')" "ts = global_epoch sys"
    "sys' = sys\<lparr>global_epoch := global_epoch sys + 1\<rparr>"
    "t' = t\<lparr>win_writes := win_writes t + 1, op_counter := op_counter t + 1\<rparr>"
    using assms(2) by (auto simp: write_op_prepare_def Let_def split: prod.splits)
  have m: "memory_ok m" "bag_ok (limbo_bag t) m" using assms(1) by (simp_all add: worker_ok_def)
  note n = version_node_new_ok [OF m e(1)]
  have "boxes m' p = Some \<lparr>node_value = v, birth_ts = ts, next_ptr = 0\<rparr>"
    using e(1,2) by (auto simp: version_node_new_def)
  with n e assms(1) show ?thesis by (simp add: worker_ok_def)
qed

theorem write_op_prepare_fresh_witness:
  "\<exists>p ts sys' t' m'. write_op_prepare (fst one_thread) (snd one_thread) (42 :: nat) empty_memory
     = (p, ts, sys', t', m') \<and> global_epoch sys' = ts + 1"
proof -
  obtain p ts sys' t' m' where w:
    "write_op_prepare (fst one_thread) (snd one_thread) (42 :: nat) empty_memory = (p, ts, sys', t', m')"
    by (metis prod_cases5)
  from write_op_prepare_fresh [OF one_thread_ok w] w show ?thesis by blast
qed

text \<open>The timestamp a snapshot call returns when it does not coalesce is the epoch; a window that is
  open holds a timestamp other than 0, which would mean \<open>none\<close> in the announcement table.\<close>

definition stamps_nonzero :: "pacer_system \<Rightarrow> bool" where
  "stamps_nonzero sys \<longleftrightarrow> global_epoch sys \<noteq> 0 \<and> (window_gen (scc sys) \<noteq> 0 \<longrightarrow> current_ts (scc sys) \<noteq> 0)"

lemma take_snapshot_effect:
  fixes m :: "'v memory"
  assumes "worker_ok sys t m"
  shows "\<exists>ts sys' t'. take_snapshot sys t now_ns lat = Some (Inr (ts, sys', t')) \<and>
    ts = (if coalesces (scc sys) now_ns then current_ts (scc sys) else global_epoch sys) \<and>
    worker_ok sys' t' m \<and> t' = t\<lparr>win_snaps := win_snaps t + 1\<rparr> \<and>
    global_epoch sys' = global_epoch sys \<and>
    announced (announce_tbl sys') = (announced (announce_tbl sys))(tid t := (if ts = 0 then None else Some ts)) \<and>
    registered (announce_tbl sys') = registered (announce_tbl sys)"
proof -
  have w: "table_ok (announce_tbl sys)" "tid t \<in> registered (announce_tbl sys)" "scc_ok (scc sys)"
    using assms by (simp_all add: worker_ok_def)
  obtain ts s1 where s: "scc_take_snapshot (scc sys) now_ns (global_epoch sys) = Some (ts, s1)" "scc_ok s1"
    "ts = (if coalesces (scc sys) now_ns then current_ts (scc sys) else global_epoch sys)"
    using take_snapshot_ok [OF w(3)] by blast
  obtain tbl where tbl: "announce (announce_tbl sys) (tid t) ts = Inr tbl" "table_ok tbl"
    "registered tbl = registered (announce_tbl sys)"
    "announced tbl = (announced (announce_tbl sys))(tid t := (if ts = 0 then None else Some ts))"
    using announcements.ann_law [OF w(1,2), of ts] by auto
  show ?thesis
    using s tbl assms
    by (simp add: take_snapshot_def announce_snapshot_def Let_def worker_ok_def)
qed

lemma take_snapshot_window:
  assumes "even (window_gen (scc sys))" "\<not> coalesces (scc sys) now_ns"
    and "take_snapshot sys t now_ns lat = Some (Inr (ts, sys', t'))"
  shows "window_gen (scc sys') = window_gen (scc sys) + 2" "current_ts (scc sys') = global_epoch sys"
    "window_open_at (scc sys') = now_ns" "SCC_MIN_WINDOW_NS \<le> adaptive_w_ns (scc sys')"
proof -
  define s1 where "s1 = open_window ((scc sys)\<lparr>total_count := total_count (scc sys) + 1\<rparr>)
    (window_gen (scc sys)) now_ns (global_epoch sys)"
  have "scc sys' = record_latency_ns s1 lat"
    using assms by (auto simp: take_snapshot_def take_snapshot_even Let_def announce_snapshot_def s1_def
        bind_res_Inr_iff)
  moreover have "SCC_MIN_WINDOW_NS \<le> adaptive_w_ns s1"
    using open_window_ok [OF assms(1)] by (simp add: s1_def scc_ok_def)
  ultimately show "window_gen (scc sys') = window_gen (scc sys) + 2" "current_ts (scc sys') = global_epoch sys"
    "window_open_at (scc sys') = now_ns" "SCC_MIN_WINDOW_NS \<le> adaptive_w_ns (scc sys')"
    by (simp_all add: record_latency_ns_def s1_def open_window_fields)
qed

text \<open>Taking a snapshot returns, with the epoch or the open window's timestamp, keeps the worker's
  invariant, and from then on the reclamation timestamp is at most the snapshot's.\<close>

theorem take_snapshot_protects_itself:
  assumes "worker_ok sys t m" "stamps_nonzero sys"
  shows "\<exists>ts sys' t'. take_snapshot sys t now_ns lat = Some (Inr (ts, sys', t')) \<and>
    ts \<in> {global_epoch sys, current_ts (scc sys)} \<and> worker_ok sys' t' m \<and>
    win_snaps t' = win_snaps t + 1 \<and> safe_ts_of sys' \<le> ts"
proof -
  obtain ts sys' t' where r: "take_snapshot sys t now_ns lat = Some (Inr (ts, sys', t'))"
    "ts = (if coalesces (scc sys) now_ns then current_ts (scc sys) else global_epoch sys)"
    "worker_ok sys' t' m" "t' = t\<lparr>win_snaps := win_snaps t + 1\<rparr>"
    "announced (announce_tbl sys') = (announced (announce_tbl sys))(tid t := (if ts = 0 then None else Some ts))"
    "registered (announce_tbl sys') = registered (announce_tbl sys)"
    using take_snapshot_effect [OF assms(1)] by blast
  have "ts \<noteq> 0" using r(2) assms(2) by (auto simp: stamps_nonzero_def coalesces_def)
  moreover have "tid t \<in> registered (announce_tbl sys)" "table_ok (announce_tbl sys')"
    using assms(1) r(3) by (simp_all add: worker_ok_def)
  ultimately have "ts \<in> active_timestamps (announce_tbl sys')"
    using r(5,6) by (auto simp: active_timestamps_def ran_def restrict_map_def)
  then have "safe_ts_of sys' \<le> ts" using \<open>table_ok (announce_tbl sys')\<close> by (rule safe_ts_of_le [rotated])
  with r show ?thesis by auto
qed

theorem take_snapshot_protects_itself_witness:
  "\<exists>ts sys' t'. take_snapshot (fst one_thread) (snd one_thread) 500 20 = Some (Inr (ts, sys', t')) \<and>
     safe_ts_of sys' \<le> ts"
proof -
  have "stamps_nonzero (fst one_thread)"
    by (simp add: stamps_nonzero_def one_thread_def register_thread_def register_def Let_def
        pacer_system_new_def scc_new_def)
  from take_snapshot_protects_itself [OF one_thread_ok [where 'v = nat] this] show ?thesis by blast
qed

text \<open>No write frees a node a snapshot may need: while a registered thread has announced a snapshot,
  a retired node with that timestamp or a later one stays in the bag and in memory.\<close>

theorem write_spares_announced_snapshot:
  fixes m :: "'v memory"
  assumes "worker_ok sys t m" "no_window_overflow t" "boxes m p \<noteq> None" "p \<notin> set (owned_addrs (limbo_bag t))"
    and "snap \<in> active_timestamps (announce_tbl sys)" "(ts', Owned p') \<in> set (limbo_push (limbo_bag t) ts p)"
    and "snap \<le> ts'" "post_write sys t p ts m = Inr (n, sys', t', m')"
  shows "(ts', Owned p') \<in> set (limbo_bag t') \<and> boxes m' p' = boxes m p'"
proof -
  have w: "table_ok (announce_tbl sys)" "spi_ok (spi_ema t)"
    using assms(1) by (simp_all add: worker_ok_def)
  have b: "bag_ok (limbo_push (limbo_bag t) ts p) m"
    using assms by (auto simp: worker_ok_def intro: bag_ok_push)
  obtain sys1 t1 where a: "after_window sys (after_tick sys t p ts) = (sys1, t1)" by fastforce
  have "limbo_bag t1 = limbo_bag (after_tick sys t p ts)"
    by (rule after_window_keeps(2) [OF _ _ a]) (simp_all add: w assms(2))
  then have t': "limbo_bag t' = drop (write_freed sys t p ts) (limbo_push (limbo_bag t) ts p)"
    "m' = free_all (take (write_freed sys t p ts) (limbo_push (limbo_bag t) ts p)) m"
    using post_write_correct [OF w(1) b w(2) assms(2) a] assms(8) by (auto simp: after_tick_def)
  have "drain (limbo_push (limbo_bag t) ts p) (safe_ts_of sys) (tick_budget (gc_mode t) (hold_ticks t)) m
      = Inr (write_freed sys t p ts, limbo_bag t', m')"
    using drain_correct [OF b, of "safe_ts_of sys" "tick_budget (gc_mode t) (hold_ticks t)"]
      drained_take [of "limbo_push (limbo_bag t) ts p" "safe_ts_of sys" "tick_budget (gc_mode t) (hold_ticks t)"]
    by (simp add: t' write_freed_def drain_count_def pushed_def)
  moreover have "safe_ts_of sys \<le> ts'" using safe_ts_of_le [OF w(1) assms(5)] assms(7) by order
  ultimately show ?thesis by (rule protected_entry [OF b _ assms(6)])
qed

text \<open>One thread that reads a snapshot of timestamp 4, and writes.\<close>

definition reading_system :: pacer_system where
  "reading_system = (fst one_thread)\<lparr>announce_tbl := (announce_tbl (fst one_thread))
     \<lparr>slots := (slots (announce_tbl (fst one_thread)))[0 := \<lparr>active_ts = 4\<rparr>]\<rparr>\<rparr>"

lemma one_thread_simps:
  "snd one_thread = thread_local_state_new 0"
  "fst one_thread = pacer_system_new\<lparr>announce_tbl := announcement_table_new\<lparr>active_count := 1\<rparr>\<rparr>"
  by (simp_all add: one_thread_def register_thread_def register_def Let_def pacer_system_new_def
      announcement_table_new_def)

lemma two_boxes_simps:
  "memory_ok two_boxes" "boxes two_boxes 0 \<noteq> None" "boxes two_boxes 1 \<noteq> None"
  by (simp_all add: two_boxes_def version_node_new_def empty_memory_def memory_ok_def)

lemma reading_system_ok:
  "worker_ok reading_system (thread_local_state_new 0) two_boxes"
  "no_window_overflow (thread_local_state_new 0)" "limbo_bag (thread_local_state_new 0) = []"
  using two_boxes_simps(1)
  by (simp_all add: worker_ok_def reading_system_def one_thread_simps pacer_system_new_def table_ok_def
      registered_def announcement_table_new_def MAX_THREADS_def thread_local_state_new_def limbo_bag_new_def
      no_window_overflow_def)

lemma active_reading_system: "active_timestamps (announce_tbl reading_system) = {4}"
proof -
  have "table_ok (announce_tbl reading_system)" using reading_system_ok(1) by (simp add: worker_ok_def)
  note iff = active_timestamps_iff [OF this]
  have "0 < MAX_THREADS" by (simp add: MAX_THREADS_def)
  then have s: "slots (announce_tbl reading_system) ! 0 = \<lparr>active_ts = 4\<rparr>"
    and c: "unat (active_count (announce_tbl reading_system)) = 1"
    by (simp_all add: reading_system_def one_thread_simps announcement_table_new_def)
  have "ts \<in> active_timestamps (announce_tbl reading_system) \<longleftrightarrow> ts = 4" for ts
    unfolding iff c using s by (auto simp del: One_nat_def)
  then show ?thesis by blast
qed

lemma post_write_total:
  fixes m :: "'v memory"
  assumes "worker_ok sys t m" "no_window_overflow t" "boxes m p \<noteq> None" "p \<notin> set (owned_addrs (limbo_bag t))"
  shows "\<exists>sys' t'. post_write sys t p ts m =
    Inr (write_freed sys t p ts, sys', t', free_all (take (write_freed sys t p ts) (limbo_push (limbo_bag t) ts p)) m)"
proof -
  have w: "table_ok (announce_tbl sys)" "spi_ok (spi_ema t)"
    using assms(1) by (simp_all add: worker_ok_def)
  have b: "bag_ok (limbo_push (limbo_bag t) ts p) m"
    using assms by (auto simp: worker_ok_def intro: bag_ok_push)
  show ?thesis using post_write_correct [OF w(1) b w(2) assms(2) prod.collapse [symmetric]] by blast
qed

theorem write_spares_announced_snapshot_witness:
  "\<exists>n sys' t' m'. post_write reading_system (thread_local_state_new 0) 1 5 two_boxes = Inr (n, sys', t', m')
     \<and> (5, Owned 1) \<in> set (limbo_bag t') \<and> boxes m' 1 = boxes two_boxes 1"
proof -
  obtain n sys' t' m' where
    w: "post_write reading_system (thread_local_state_new 0) 1 5 two_boxes = Inr (n, sys', t', m')"
    using post_write_total [OF reading_system_ok(1,2) two_boxes_simps(3), of 5]
    by (auto simp: reading_system_ok(3))
  have "(5, Owned 1) \<in> set (limbo_bag t') \<and> boxes m' 1 = boxes two_boxes 1"
    by (rule write_spares_announced_snapshot
        [OF reading_system_ok(1,2) two_boxes_simps(3), of 4 5 1 5 n sys' t' m'])
      (simp_all add: active_reading_system reading_system_ok(3) limbo_push_def w del: One_nat_def)
  with w show ?thesis by blast
qed

text \<open>C30: What is compared with the announced snapshots is the timestamp a node was born with, not the
  time it is retired. A node born before every announced snapshot is freed by the very write that
  retires it, so a snapshot announced between its birth and its retirement, whose reader may still
  reach it, does not protect it.\<close>

theorem older_node_freed_under_snapshot:
  fixes m :: "'v memory"
  assumes "worker_ok sys t m" "no_window_overflow t" "boxes m p \<noteq> None" "limbo_bag t = []"
    and "gc_mode t \<noteq> ConservativeHold" "\<forall>snap \<in> active_timestamps (announce_tbl sys). birth < snap"
    and "birth \<noteq> u64_max"
  shows "\<exists>sys' t' m'. post_write sys t p birth m = Inr (1, sys', t', m') \<and> boxes m' p = None"
proof -
  have tab: "table_ok (announce_tbl sys)" using assms(1) by (simp add: worker_ok_def)
  have "birth < safe_ts_of sys"
    unfolding safe_ts_of_def using finite_active_timestamps [OF tab] assms(6,7) unat_less_u64_max by auto
  then have "drain_count sys (pushed t birth p) (tick_budget (gc_mode t) (hold_ticks t)) = 1"
    using assms(4,5) by (cases "gc_mode t") (simp_all add: drain_count_all pushed_def limbo_push_def)
  then have "write_freed sys t p birth = 1" by (simp add: write_freed_def)
  with post_write_total [OF assms(1-3), of birth] assms(4) show ?thesis
    by (auto simp: limbo_push_def free_all_def)
qed

theorem older_node_freed_under_snapshot_witness:
  "\<exists>sys' t' m'. post_write reading_system (thread_local_state_new 0) 0 3 two_boxes = Inr (1, sys', t', m')
     \<and> boxes m' 0 = None"
  by (rule older_node_freed_under_snapshot [OF reading_system_ok(1,2) two_boxes_simps(2) reading_system_ok(3)])
    (simp_all add: active_reading_system thread_local_state_new_def)

end
