(* ===== verification/Strategies.thy ===== *)
theory Strategies
  imports Write_Path
begin

text \<open>
  The four reclamation strategies the benchmarks compare (\<open>Strategy\<close>), as what one write does with
  the node it retires, and a worker thread that mixes writes with snapshots it releases at once,
  which is one iteration of the loop of \<open>run_bench_synthetic\<close>.
\<close>

section \<open>Strategies\<close>

datatype strategy = PacerDiscrete | PacerContinuous | TokenAf | BatchEbr

fun strategy_retire ::
  "strategy \<Rightarrow> pacer_system \<Rightarrow> thread_local_state \<Rightarrow> addr \<Rightarrow> u64 \<Rightarrow> 'v memory
    \<Rightarrow> (nat \<times> pacer_system \<times> thread_local_state \<times> 'v memory) res" where
  "strategy_retire PacerDiscrete sys t old ts m = post_write sys t old ts m"
| "strategy_retire PacerContinuous sys t old ts m =
     (let t1 = t\<lparr>limbo_bag := limbo_push (limbo_bag t) ts old\<rparr> in
      bind_res (drain_continuous_tick sys t1 m) (\<lambda>(freed, t2, m2).
        if op_counter t2 mod WINDOW_SIZE = 0
        then (let (sys1, t3) = resample_spi sys t2 in
              bind_res (reclaim_continuous sys1 t3 m2) (\<lambda>(n, sys2, t4, m4).
                Inr (freed + n, sys2, t4, m4)))
        else Inr (freed, sys, t2, m2)))"
| "strategy_retire TokenAf sys t old ts m =
     (let t1 = t\<lparr>limbo_bag := limbo_push (limbo_bag t) ts old\<rparr> in
      bind_res (safe_reclaim_ts sys) (\<lambda>safe.
        bind_res (drain_bag t1 safe AF_BATCH_K m) (\<lambda>(freed, t2, m2). Inr (freed, sys, t2, m2))))"
| "strategy_retire BatchEbr sys t old ts m =
     (let t1 = t\<lparr>limbo_bag := limbo_push (limbo_bag t) ts old\<rparr> in
      if op_counter t1 mod WINDOW_SIZE = 0
      then bind_res (safe_reclaim_ts sys) (\<lambda>safe.
             bind_res (drain_bag t1 safe usize_max m) (\<lambda>(freed, t2, m2). Inr (freed, sys, t2, m2)))
      else Inr (0, sys, t1, m))"

section \<open>A worker\<close>

type_synonym 'v worker = "pacer_system \<times> thread_local_state \<times> 'v memory"

text \<open>An operation of a worker: a write of a value, or a snapshot taken at a time on the clock, after a
  latency, and released.\<close>

datatype 'v worker_op = Write 'v | Read u64 u64

fun worker_step :: "strategy \<Rightarrow> 'v worker_op \<Rightarrow> 'v worker \<Rightarrow> (nat \<times> 'v worker) res option" where
  "worker_step S (Write v) (sys, t, m) =
     (let (p, ts, sys1, t1, m1) = write_op_prepare sys t v m
      in Some (strategy_retire S sys1 t1 p ts m1))"
| "worker_step S (Read now_ns lat) (sys, t, m) =
     (case take_snapshot sys t now_ns lat of
        None \<Rightarrow> None
      | Some r \<Rightarrow> Some (bind_res r (\<lambda>(ts, sys1, t1).
          bind_res (release_snapshot_for sys1 t1) (\<lambda>sys2. Inr (0, sys2, t1, m)))))"

fun bind_run :: "'a res option \<Rightarrow> ('a \<Rightarrow> 'b res option) \<Rightarrow> 'b res option" where
  "bind_run None f = None"
| "bind_run (Some (Inl e)) f = Some (Inl e)"
| "bind_run (Some (Inr x)) f = f x"

fun worker_run :: "strategy \<Rightarrow> 'v worker_op list \<Rightarrow> 'v worker \<Rightarrow> (nat \<times> 'v worker) res option" where
  "worker_run S [] w = Some (Inr (0, w))"
| "worker_run S (x # xs) w =
     bind_run (worker_step S x w) (\<lambda>(n, w1).
       bind_run (worker_run S xs w1) (\<lambda>(n', w2). Some (Inr (n + n', w2))))"

section \<open>The nodes a strategy frees\<close>

text \<open>A write that retires a live node, under any strategy: it returns, and only moves the bag forward.\<close>

lemma drain_bag_total:
  assumes "bag_ok (limbo_bag t) m"
  shows "\<exists>n. drain_bag t s k m = Inr (n, t\<lparr>limbo_bag := drop n (limbo_bag t)\<rparr>, free_all (take n (limbo_bag t)) m)
    \<and> n = length (drained (limbo_bag t) s k) \<and> n \<le> length (limbo_bag t)
    \<and> bag_ok (drop n (limbo_bag t)) (free_all (take n (limbo_bag t)) m)"
  using drain_correct [OF assms, of s k] bag_ok_drained [OF assms, of s k] drained_take [of "limbo_bag t" s k]
    length_drained_le(2) [of "limbo_bag t" s k]
  by (simp add: drain_bag_def)

text \<open>The most a write may free under a strategy: the drain of the write itself, and that of the
  window, which the continuous and the batching strategy have.\<close>

definition window_ends :: "thread_local_state \<Rightarrow> bool" where
  "window_ends t \<longleftrightarrow> op_counter t mod WINDOW_SIZE = 0"

definition window_batch :: "pacer_system \<Rightarrow> thread_local_state \<Rightarrow> nat" where
  "window_batch sys t = (case resample_spi sys t of (sys1, t1) \<Rightarrow>
     compute_batch_k (spi_ema t1) (load_delta_spi sys1))"

fun strategy_budget :: "strategy \<Rightarrow> pacer_system \<Rightarrow> thread_local_state \<Rightarrow> nat" where
  "strategy_budget PacerDiscrete sys t = tick_budget (gc_mode t) (hold_ticks t)"
| "strategy_budget PacerContinuous sys t = 1 + (if window_ends t then window_batch sys t else 0)"
| "strategy_budget TokenAf sys t = 1"
| "strategy_budget BatchEbr sys t = (if window_ends t then usize_max else 0)"

text \<open>The first \<open>n\<close> entries of a bag are all older than every announced snapshot.\<close>

definition frees_only_older :: "pacer_system \<Rightarrow> limbo_bag \<Rightarrow> nat \<Rightarrow> bool" where
  "frees_only_older sys q n \<longleftrightarrow> (\<forall>e \<in> set (take n q). fst e < safe_ts_of sys)"

text \<open>What a write that retires a live node does, under any strategy.\<close>

definition retire_effect ::
  "strategy \<Rightarrow> pacer_system \<Rightarrow> thread_local_state \<Rightarrow> addr \<Rightarrow> u64 \<Rightarrow> 'v memory
    \<Rightarrow> nat \<Rightarrow> pacer_system \<Rightarrow> thread_local_state \<Rightarrow> 'v memory \<Rightarrow> bool" where
  "retire_effect S sys t p ts m n sys' t' m' \<longleftrightarrow>
     worker_ok sys' t' m' \<and> announce_tbl sys' = announce_tbl sys \<and> scc sys' = scc sys \<and>
     global_epoch sys' \<in> {global_epoch sys, global_epoch sys + 1} \<and>
     limbo_bag t' = drop n (limbo_push (limbo_bag t) ts p) \<and> m' = free_all (take n (limbo_push (limbo_bag t) ts p)) m \<and>
     n \<le> length (limbo_bag t) + 1 \<and> n \<le> strategy_budget S sys t \<and>
     frees_only_older sys (limbo_push (limbo_bag t) ts p) n \<and>
     op_counter t' = op_counter t \<and> tid t' = tid t \<and>
     (win_writes t' = 0 \<and> win_snaps t' = 0 \<or> win_writes t' = win_writes t \<and> win_snaps t' = win_snaps t) \<and>
     ((\<forall>e \<in> set (limbo_push (limbo_bag t) ts p). fst e < safe_ts_of sys) \<longrightarrow>
        n = min (strategy_budget S sys t) (length (limbo_bag t) + 1))"

lemma drain_count_eligible:
  assumes "\<forall>e \<in> set (limbo_push (limbo_bag t) ts p). fst e < safe_ts_of sys"
  shows "drain_count sys (pushed t ts p) k = min k (length (limbo_bag t) + 1)"
  using assms by (simp add: drain_count_all pushed_def limbo_push_def)

lemma drain_count_older: "frees_only_older sys (limbo_bag t) (drain_count sys t k)"
  unfolding frees_only_older_def drain_count_def drained_take [symmetric] using drained_older by blast

lemma pushed_count_older:
  "frees_only_older sys (limbo_push (limbo_bag t) ts p) (drain_count sys (pushed t ts p) k)"
  using drain_count_older [of sys "pushed t ts p" k] by (simp add: pushed_def)

lemma retire_discrete:
  assumes "worker_ok sys t m" "bag_ok (limbo_push (limbo_bag t) ts p) m" "no_window_overflow t"
    and a: "after_window sys (after_tick sys t p ts) = (sys', t')"
  shows "retire_effect PacerDiscrete sys t p ts m (write_freed sys t p ts) sys' t'
    (free_all (take (write_freed sys t p ts) (limbo_push (limbo_bag t) ts p)) m)"
proof -
  have s: "spi_ok (spi_ema t)" using assms(1) by (simp add: worker_ok_def)
  note k = after_window_keeps [OF _ _ a, simplified, OF s assms(3)]
  have "limbo_bag t' = drop (write_freed sys t p ts) (limbo_push (limbo_bag t) ts p)"
    using k(2) by (simp add: after_tick_def)
  then show ?thesis
    using assms(1) k bag_after_tick [OF assms(2), of sys] memory_ok_free_all write_freed_le [of sys t p ts]
      drain_count_eligible [of t ts p sys] pushed_count_older [of sys t ts p]
    by (auto simp: retire_effect_def worker_ok_def write_freed_def)
qed

text \<open>The strategies that drain once, or not at all.\<close>

lemma retire_once:
  assumes "worker_ok sys t m" "bag_ok (limbo_push (limbo_bag t) ts p) m" "strategy_budget S sys t = k"
  defines "n \<equiv> drain_count sys (pushed t ts p) k"
  shows "drain_bag (pushed t ts p) (safe_ts_of sys) k m =
      Inr (n, t\<lparr>limbo_bag := drop n (limbo_push (limbo_bag t) ts p)\<rparr>, free_all (take n (limbo_push (limbo_bag t) ts p)) m)"
    and "retire_effect S sys t p ts m n sys (t\<lparr>limbo_bag := drop n (limbo_push (limbo_bag t) ts p)\<rparr>)
      (free_all (take n (limbo_push (limbo_bag t) ts p)) m)"
proof -
  have b: "bag_ok (limbo_bag (pushed t ts p)) m" "limbo_bag (pushed t ts p) = limbo_push (limbo_bag t) ts p"
    using assms(2) by (simp_all add: pushed_def)
  note d = drain_bag_correct [OF b(1) refl, of sys k]
  show "drain_bag (pushed t ts p) (safe_ts_of sys) k m =
      Inr (n, t\<lparr>limbo_bag := drop n (limbo_push (limbo_bag t) ts p)\<rparr>, free_all (take n (limbo_push (limbo_bag t) ts p)) m)"
    unfolding n_def d(1) by (simp add: pushed_def)
  show "retire_effect S sys t p ts m n sys (t\<lparr>limbo_bag := drop n (limbo_push (limbo_bag t) ts p)\<rparr>)
      (free_all (take n (limbo_push (limbo_bag t) ts p)) m)"
    using assms(1) d(2) memory_ok_free_all drain_count_le [of sys "pushed t ts p" k] assms(3)
      drain_count_eligible [of t ts p sys] pushed_count_older [of sys t ts p]
    by (auto simp: retire_effect_def worker_ok_def b(2) n_def) (simp add: pushed_def limbo_push_def)
qed

lemma resample_ignores_bag:
  "resample_spi sys t = (sys1, t1) \<Longrightarrow> resample_spi sys (t\<lparr>limbo_bag := q\<rparr>) = (sys1, t1\<lparr>limbo_bag := q\<rparr>)"
  by (auto simp: resample_spi_def Let_def split: if_splits)

lemma free_all_take_add:
  "free_all (take j (drop i q)) (free_all (take i q) m) = free_all (take (i + j) q) m"
  by (simp add: free_all_append take_add)

text \<open>The continuous strategy at the end of a window: the tick and the batch of the window, one after
  the other, are one drain.\<close>

lemma retire_continuous_window:
  assumes "worker_ok sys t m" "bag_ok (limbo_push (limbo_bag t) ts p) m" "no_window_overflow t"
    and "window_ends t"
  shows "\<exists>n sys' t' m'. strategy_retire PacerContinuous sys t p ts m = Inr (n, sys', t', m') \<and>
    retire_effect PacerContinuous sys t p ts m n sys' t' m'"
proof -
  define X where "X = limbo_push (limbo_bag t) ts p"
  define n1 where "n1 = drain_count sys (pushed t ts p) 1"
  obtain sys1 t1 where r: "resample_spi sys t = (sys1, t1)" by fastforce
  have w: "table_ok (announce_tbl sys)" "spi_ok (spi_ema t)" using assms(1) by (simp_all add: worker_ok_def)
  note k = resample_keeps [OF w(2) assms(3) r]
  define t3 where "t3 = t1\<lparr>limbo_bag := drop n1 X\<rparr>"
  define bk where "bk = compute_batch_k (spi_ema t3) (load_delta_spi sys1)"
  define n2 where "n2 = drain_count sys1 t3 bk"
  have wb: "window_batch sys t = bk" by (simp add: window_batch_def r bk_def t3_def)
  have X: "limbo_bag (pushed t ts p) = X" "bag_ok (limbo_bag (pushed t ts p)) m"
    using assms(2) by (simp_all add: pushed_def X_def)
  note d1 = continuous_tick_policy [OF w(1) X(2), folded n1_def, unfolded X(1)]
  have b1: "bag_ok (drop n1 X) (free_all (take n1 X) m)"
    using drain_bag_correct(2) [OF X(2) refl, of sys 1] by (simp add: n1_def X(1))
  have t3: "table_ok (announce_tbl sys1)" "bag_ok (limbo_bag t3) (free_all (take n1 X) m)" "spi_ok (spi_ema t3)"
    using k b1 w by (simp_all add: t3_def)
  note d2 = reclaim_continuous_policy [OF t3, folded bk_def, folded n2_def]
  have b2: "bag_ok (drop n2 (drop n1 X)) (free_all (take n2 (drop n1 X)) (free_all (take n1 X) m))"
    using drain_bag_correct(2) [OF t3(2) refl, of sys1 bk] by (simp add: n2_def t3_def)
  define sys' where "sys' = (if strides t3 then sys1\<lparr>global_epoch := global_epoch sys1 + 1\<rparr> else sys1)"
  define t' where "t' = (if strides t3 then t3\<lparr>fail_streak := 0\<rparr> else t3)\<lparr>limbo_bag := drop n2 (limbo_bag t3)\<rparr>"
  have res: "strategy_retire PacerContinuous sys t p ts m = Inr (n1 + n2, sys', t', free_all (take (n1 + n2) X) m)"
    using d1 d2 assms(4) resample_ignores_bag [OF r, of "drop n1 X"]
    by (simp add: pushed_def window_ends_def t3_def [symmetric] sys'_def t'_def free_all_take_add)
      (simp add: t3_def free_all_take_add)
  have le: "n1 \<le> 1" "n1 \<le> length X" "n2 \<le> bk" "n2 \<le> length X - n1"
    unfolding n1_def n2_def using drain_count_le [of sys "pushed t ts p" 1] drain_count_le [of sys1 t3 bk] X(1)
    by (auto simp: n1_def t3_def)
  have all: "n1 + n2 = min (1 + bk) (length X)" if e: "\<forall>e \<in> set X. fst e < safe_ts_of sys"
  proof -
    have "n1 = 1" using drain_count_eligible [of t ts p sys 1] e by (simp add: n1_def X_def)
    moreover have "\<forall>e \<in> set (limbo_bag t3). fst e < safe_ts_of sys1"
      using e safe_ts_of_cong [OF k(7)] by (auto simp: t3_def dest: in_set_dropD)
    from drain_count_all [OF this, of bk] have "n2 = min bk (length X - n1)" by (simp add: n2_def t3_def)
    ultimately show ?thesis using le(2) by simp
  qed
  have older: "frees_only_older sys X (n1 + n2)"
    using pushed_count_older [of sys t ts p 1] drain_count_older [of sys1 t3 bk] safe_ts_of_cong [OF k(7)]
    unfolding frees_only_older_def take_add n2_def [symmetric] n1_def [symmetric] X_def [symmetric]
    by (auto simp: t3_def)
  have lX: "length X = length (limbo_bag t) + 1" by (simp add: X_def limbo_push_def)
  have "retire_effect PacerContinuous sys t p ts m (n1 + n2) sys' t' (free_all (take (n1 + n2) X) m)"
    unfolding retire_effect_def strategy_budget.simps wb X_def [symmetric]
    using assms(1,4) k b2 memory_ok_free_all le all lX older
    by (auto simp: worker_ok_def sys'_def t'_def t3_def add.commute free_all_take_add)
  with res show ?thesis by blast
qed

lemma strategy_retire_effect:
  assumes "worker_ok sys t m" "bag_ok (limbo_push (limbo_bag t) ts p) m" "no_window_overflow t"
  shows "\<exists>n sys' t' m'. strategy_retire S sys t p ts m = Inr (n, sys', t', m') \<and>
    retire_effect S sys t p ts m n sys' t' m'"
proof -
  have w: "table_ok (announce_tbl sys)" "spi_ok (spi_ema t)" using assms(1) by (simp_all add: worker_ok_def)
  have b: "bag_ok (limbo_bag (pushed t ts p)) m" using assms(2) by (simp add: pushed_def)
  note once = retire_once [OF assms(1,2)]
  show ?thesis
  proof (cases S)
    case PacerDiscrete
    obtain sys' t' where a: "after_window sys (after_tick sys t p ts) = (sys', t')" by fastforce
    from post_write_correct [OF w(1) assms(2) w(2) assms(3) a] retire_discrete [OF assms a] PacerDiscrete
    show ?thesis by auto
  next
    case TokenAf
    then show ?thesis
      using once [of TokenAf 1] by (auto simp: pushed_def safe_reclaim_ts_of [OF w(1)] AF_BATCH_K_def)
  next
    case BatchEbr
    show ?thesis
    proof (cases "window_ends t")
      case True
      then show ?thesis
        using once [of BatchEbr usize_max] BatchEbr
        by (auto simp: pushed_def safe_reclaim_ts_of [OF w(1)] window_ends_def Let_def)
    next
      case False
      then show ?thesis
        using once [of BatchEbr 0] BatchEbr by (auto simp: window_ends_def)
    qed
  next
    case PacerContinuous
    show ?thesis
    proof (cases "window_ends t")
      case True
      from retire_continuous_window [OF assms True] PacerContinuous show ?thesis by simp
    next
      case False
      then show ?thesis
        using once(2) [of PacerContinuous 1] continuous_tick_policy [OF w(1) b] PacerContinuous
        by (auto simp: window_ends_def pushed_def)
    qed
  qed
qed

end
