(* ===== verification/Backlog.thy ===== *)
theory Backlog
  imports Strategies
begin

text \<open>
  How large the backlog of retired nodes gets. A worker runs any mix of writes and snapshots, under
  each of the four strategies; the runs are shown to return, to account for every node, and, while
  no other thread holds a snapshot, to leave a backlog that the count of operations determines:
  none, or fewer than eight, or fewer than 256 nodes.
\<close>

section \<open>The invariant of a run\<close>

text \<open>After at most \<open>n\<close> operations. The bounds keep every counter away from wrapping.\<close>

definition run_ok :: "nat \<Rightarrow> 'v worker \<Rightarrow> bool" where
  "run_ok n w = (case w of (sys, t, m) \<Rightarrow>
     worker_ok sys t m \<and> unat (win_writes t) + unat (win_snaps t) \<le> n \<and>
     unat (global_epoch sys) \<le> 2 * n + 1 \<and> (\<forall>e \<in> set (limbo_bag t). unat (fst e) \<le> 2 * n))"

definition quiet :: "pacer_system \<Rightarrow> bool" where
  "quiet sys \<longleftrightarrow> active_timestamps (announce_tbl sys) = {}"

lemma quiet_iff:
  "quiet sys \<longleftrightarrow> (\<forall>i \<in> registered (announce_tbl sys). announced (announce_tbl sys) i = None)"
proof -
  have "ts \<in> active_timestamps t \<longleftrightarrow> (\<exists>i \<in> registered t. announced t i = Some ts)" for ts t
    by (auto simp: active_timestamps_def ran_def restrict_map_def)
  then show ?thesis unfolding quiet_def set_eq_iff by (auto, metis not_None_eq)
qed

lemma unat_add_1: "unat (w :: u64) \<le> c \<Longrightarrow> c < 2 ^ 64 - 1 \<Longrightarrow> unat (w + 1) = unat w + 1"
  by (simp add: unat_word_ariths)

definition prepared :: "thread_local_state \<Rightarrow> thread_local_state" where
  "prepared t = t\<lparr>win_writes := win_writes t + 1, op_counter := op_counter t + 1\<rparr>"

lemma prepared_simps [simp]:
  "op_counter (prepared t) = op_counter t + 1" "gc_mode (prepared t) = gc_mode t"
  "hold_ticks (prepared t) = hold_ticks t" "limbo_bag (prepared t) = limbo_bag t"
  "spi_ema (prepared t) = spi_ema t" "win_snaps (prepared t) = win_snaps t"
  "win_writes (prepared t) = win_writes t + 1" "tid (prepared t) = tid t"
  by (simp_all add: prepared_def)

lemma prepare_unfold:
  "write_op_prepare sys t v m =
     (next_box m, global_epoch sys, sys\<lparr>global_epoch := global_epoch sys + 1\<rparr>, prepared t,
      snd (version_node_new v (global_epoch sys) m))"
  by (simp add: write_op_prepare_def version_node_new_def prepared_def Let_def)

lemma prepare_ok:
  fixes v :: 'v
  assumes "run_ok n (sys, t, m)" "n < 2 ^ 62"
  defines "sys1 \<equiv> sys\<lparr>global_epoch := global_epoch sys + 1\<rparr>"
    and "m1 \<equiv> snd (version_node_new v (global_epoch sys) m)"
  shows "worker_ok sys1 (prepared t) m1"
    and "bag_ok (limbo_push (limbo_bag t) (global_epoch sys) (next_box m)) m1"
    and "no_window_overflow (prepared t)"
    and "unat (global_epoch sys1) = unat (global_epoch sys) + 1"
    and "unat (win_writes (prepared t)) + unat (win_snaps t) \<le> n + 1"
proof -
  have w: "worker_ok sys t m" "unat (win_writes t) + unat (win_snaps t) \<le> n"
    "unat (global_epoch sys) \<le> 2 * n + 1"
    using assms(1) by (simp_all add: run_ok_def)
  have m: "memory_ok m" "bag_ok (limbo_bag t) m" using w(1) by (simp_all add: worker_ok_def)
  have v: "version_node_new v (global_epoch sys) m = (next_box m, m1)"
    by (simp add: m1_def version_node_new_def)
  note new = version_node_new_ok [OF m v]
  show "worker_ok sys1 (prepared t) m1" using w(1) new by (simp add: worker_ok_def sys1_def)
  show "bag_ok (limbo_push (limbo_bag t) (global_epoch sys) (next_box m)) m1"
    by (rule bag_ok_push [OF new(2,4,5)])
  have "unat (win_writes t + 1) = unat (win_writes t) + 1"
    using w(2) assms(2) by (intro unat_add_1 [of _ n]) auto
  then show "unat (win_writes (prepared t)) + unat (win_snaps t) \<le> n + 1" "no_window_overflow (prepared t)"
    using w(2) assms(2) by (simp_all add: no_window_overflow_def)
  show "unat (global_epoch sys1) = unat (global_epoch sys) + 1"
    unfolding sys1_def using w(3) assms(2) by (simp add: unat_add_1 [of _ "2 * n + 1"])
qed

lemma less_u64_max: "unat w \<le> 2 * n \<Longrightarrow> n \<le> 2 ^ 62 \<Longrightarrow> w < (u64_max :: u64)"
proof -
  assume a: "unat w \<le> 2 * n" "n \<le> 2 ^ 62"
  have "unat (u64_max :: u64) = 2 ^ 64 - 1" by (simp add: unsigned_minus_1_eq_mask mask_eq_exp_minus_1)
  with a show ?thesis by (simp add: word_less_nat_alt)
qed

section \<open>One operation\<close>

lemma run_write:
  assumes "run_ok n (sys, t, m)" "n < 2 ^ 62"
  defines "sys1 \<equiv> sys\<lparr>global_epoch := global_epoch sys + 1\<rparr>"
  shows "\<exists>k sys' t' m'. worker_step S (Write v) (sys, t, m) = Some (Inr (k, sys', t', m')) \<and>
    strategy_retire S sys1 (prepared t) (next_box m) (global_epoch sys)
      (snd (version_node_new v (global_epoch sys) m)) = Inr (k, sys', t', m') \<and>
    run_ok (n + 1) (sys', t', m') \<and> quiet sys' = quiet sys \<and> op_counter t' = op_counter t + 1 \<and>
    k + length (limbo_bag t') = length (limbo_bag t) + 1 \<and>
    announce_tbl sys' = announce_tbl sys \<and> tid t' = tid t \<and>
    frees_only_older sys (limbo_push (limbo_bag t) (global_epoch sys) (next_box m)) k \<and>
    limbo_bag t' = drop k (limbo_push (limbo_bag t) (global_epoch sys) (next_box m)) \<and>
    m' = free_all (take k (limbo_push (limbo_bag t) (global_epoch sys) (next_box m)))
      (snd (version_node_new v (global_epoch sys) m)) \<and>
    unat (global_epoch sys) < unat (global_epoch sys') \<and>
    (quiet sys \<longrightarrow> k = min (strategy_budget S sys1 (prepared t)) (length (limbo_bag t) + 1))"
proof -
  define ts where "ts = global_epoch sys"
  define m1 where "m1 = snd (version_node_new v ts m)"
  note p = prepare_ok(1,2) [OF assms(1,2), of v, folded sys1_def ts_def, folded m1_def]
    prepare_ok(3-5) [OF assms(1,2), folded sys1_def ts_def]
  obtain k sys' t' m' where r: "strategy_retire S sys1 (prepared t) (next_box m) ts m1 = Inr (k, sys', t', m')"
    "retire_effect S sys1 (prepared t) (next_box m) ts m1 k sys' t' m'"
    using strategy_retire_effect [of sys1 "prepared t" m1 ts "next_box m" S] p(1-3) by auto
  let ?X = "limbo_push (limbo_bag t) ts (next_box m)"
  have older: "frees_only_older sys1 ?X k = frees_only_older sys ?X k" "safe_ts_of sys1 = safe_ts_of sys"
    using safe_ts_of_cong [of sys1 sys] by (simp_all add: frees_only_older_def sys1_def)
  have e: "worker_ok sys' t' m'" "announce_tbl sys' = announce_tbl sys" "limbo_bag t' = drop k ?X"
    "global_epoch sys' = global_epoch sys1 \<or> global_epoch sys' = global_epoch sys1 + 1"
    "k \<le> length (limbo_bag t) + 1" "op_counter t' = op_counter t + 1"
    "tid t' = tid t \<and> m' = free_all (take k ?X) m1" "frees_only_older sys ?X k"
    "win_writes t' = 0 \<and> win_snaps t' = 0 \<or> win_writes t' = win_writes (prepared t) \<and> win_snaps t' = win_snaps t"
    "(\<forall>e \<in> set ?X. fst e < safe_ts_of sys) \<longrightarrow> k = min (strategy_budget S sys1 (prepared t)) (length (limbo_bag t) + 1)"
    using r(2) older by (simp_all add: retire_effect_def sys1_def) auto
  have b: "unat ts \<le> 2 * n + 1" "\<forall>e \<in> set (limbo_bag t). unat (fst e) \<le> 2 * n"
    using assms(1) by (simp_all add: run_ok_def ts_def)
  have X: "\<forall>e \<in> set ?X. unat (fst e) \<le> 2 * (n + 1)"
    using b by (auto simp: limbo_push_def)
  have "unat (global_epoch sys1 + 1) = unat (global_epoch sys1) + 1"
    using p(4) b(1) assms(2) by (intro unat_add_1 [of _ "2 * n + 2"]) (simp_all add: ts_def)
  then have up: "unat (global_epoch sys) < unat (global_epoch sys')"
    and ge: "unat (global_epoch sys') \<le> 2 * (n + 1) + 1"
    using e(4) p(4) b(1) by (auto simp: ts_def)
  have win: "unat (win_writes t') + unat (win_snaps t') \<le> n + 1"
    using e(9) p(5) by auto
  have bag: "\<forall>x \<in> set (limbo_bag t'). unat (fst x) \<le> 2 * (n + 1)"
    using X by (simp add: e(3)) (meson in_set_dropD)
  have "run_ok (n + 1) (sys', t', m')"
    using e(1) ge win bag by (simp add: run_ok_def)
  moreover have "quiet sys' = quiet sys" by (simp add: quiet_def e(2))
  moreover have "k + length (limbo_bag t') = length (limbo_bag t) + 1"
    using e(5) by (simp add: e(3) limbo_push_def)
  moreover have "quiet sys \<longrightarrow> k = min (strategy_budget S sys1 (prepared t)) (length (limbo_bag t) + 1)"
    using X e(10) assms(2) less_u64_max [of _ "n + 1"] by (simp add: quiet_def safe_ts_of_none)
  moreover have "worker_step S (Write v) (sys, t, m) = Some (strategy_retire S sys1 (prepared t) (next_box m) ts m1)"
    by (simp add: prepare_unfold sys1_def ts_def m1_def)
  ultimately show ?thesis
    using r(1) e(2,3,6-8) up unfolding ts_def [symmetric] m1_def [symmetric] by metis
qed

lemma run_read:
  fixes m :: "'v memory"
  assumes "run_ok n (sys, t, m)" "n < 2 ^ 62"
  shows "\<exists>sys'. worker_step S (Read now_ns lat) (sys, t, m)
      = Some (Inr (0, sys', t\<lparr>win_snaps := win_snaps t + 1\<rparr>, m)) \<and>
    run_ok (n + 1) (sys', t\<lparr>win_snaps := win_snaps t + 1\<rparr>, m) \<and> (quiet sys \<longrightarrow> quiet sys') \<and>
    global_epoch sys' = global_epoch sys \<and> registered (announce_tbl sys') = registered (announce_tbl sys) \<and>
    (\<forall>j. j \<noteq> tid t \<longrightarrow> announced (announce_tbl sys') j = announced (announce_tbl sys) j)"
proof -
  have w: "worker_ok sys t m" using assms(1) by (simp add: run_ok_def)
  obtain ts sys1 t1 where s: "take_snapshot sys t now_ns lat = Some (Inr (ts, sys1, t1))"
    "worker_ok sys1 t1 m" "t1 = t\<lparr>win_snaps := win_snaps t + 1\<rparr>" "global_epoch sys1 = global_epoch sys"
    "announced (announce_tbl sys1) = (announced (announce_tbl sys))(tid t := (if ts = 0 then None else Some ts))"
    "registered (announce_tbl sys1) = registered (announce_tbl sys)"
    using take_snapshot_effect [OF w] by blast
  have i: "tid t \<in> registered (announce_tbl sys1)" "table_ok (announce_tbl sys1)"
    using s(2,3) by (auto simp: worker_ok_def)
  obtain tbl where tbl: "release (announce_tbl sys1) (tid t) = Inr tbl" "table_ok tbl"
    "registered tbl = registered (announce_tbl sys1)"
    "announced tbl = (announced (announce_tbl sys1))(tid t := None)"
    using announcements.rel_law [OF i(2,1)] by auto
  define sys' where "sys' = sys1\<lparr>announce_tbl := tbl\<rparr>"
  have step: "worker_step S (Read now_ns lat) (sys, t, m) = Some (Inr (0, sys', t1, m))"
    using s(1,3) tbl(1) by (simp add: release_snapshot_for_def release_snapshot_def sys'_def)
  have "worker_ok sys' t1 m"
    using s(2) tbl by (simp add: worker_ok_def sys'_def)
  moreover have "unat (win_snaps t + 1) = unat (win_snaps t) + 1"
    using assms by (intro unat_add_1 [of _ n]) (auto simp: run_ok_def)
  ultimately have "run_ok (n + 1) (sys', t1, m)"
    using assms(1) s(3,4) by (auto simp: run_ok_def sys'_def)
  moreover have "quiet sys'" if "quiet sys"
    using that s(5,6) tbl(3,4) by (auto simp: quiet_iff sys'_def)
  moreover have "global_epoch sys' = global_epoch sys" using s(4) by (simp add: sys'_def)
  moreover have "registered (announce_tbl sys') = registered (announce_tbl sys)"
    "\<forall>j. j \<noteq> tid t \<longrightarrow> announced (announce_tbl sys') j = announced (announce_tbl sys) j"
    using s(5,6) tbl(3,4) by (simp_all add: sys'_def)
  ultimately show ?thesis using step s(3) by blast
qed

section \<open>Runs\<close>

definition writes_in :: "'v worker_op list \<Rightarrow> nat" where
  "writes_in ops = length (filter (\<lambda>x. case x of Write _ \<Rightarrow> True | Read _ _ \<Rightarrow> False) ops)"

lemma writes_in_simps [simp]:
  "writes_in [] = 0" "writes_in (Write v # ops) = Suc (writes_in ops)"
  "writes_in (Read a b # ops) = writes_in ops"
  by (simp_all add: writes_in_def)

text \<open>An invariant \<open>I\<close> over the thread that every operation keeps while the run's own invariant holds,
  holds at the end of the run.\<close>

lemma run_induct:
  assumes "run_ok n (sys, t, m)" "n + length ops \<le> 2 ^ 62" "I sys t"
    and step: "\<And>n x sys t m k sys' t' m'. run_ok n (sys, t, m) \<Longrightarrow> n < 2 ^ 62 \<Longrightarrow> I sys t \<Longrightarrow>
      x \<in> set ops \<Longrightarrow> worker_step S x (sys, t, m) = Some (Inr (k, sys', t', m')) \<Longrightarrow> I sys' t'"
  shows "\<exists>k sys' t' m'. worker_run S ops (sys, t, m) = Some (Inr (k, sys', t', m')) \<and>
    run_ok (n + length ops) (sys', t', m') \<and> I sys' t' \<and>
    k + length (limbo_bag t') = length (limbo_bag t) + writes_in ops \<and>
    op_counter t' = op_counter t + of_nat (writes_in ops)"
  using assms
proof (induction ops arbitrary: n sys t m)
  case Nil
  then show ?case by simp
next
  case (Cons x ops)
  have n: "n < 2 ^ 62" using Cons.prems(2) by simp
  obtain k sys1 t1 m1 where s: "worker_step S x (sys, t, m) = Some (Inr (k, sys1, t1, m1))"
    "run_ok (n + 1) (sys1, t1, m1)"
    "k + length (limbo_bag t1) = length (limbo_bag t) + writes_in [x]"
    "op_counter t1 = op_counter t + of_nat (writes_in [x])"
  proof (cases x)
    case (Write v)
    with run_write [OF Cons.prems(1) n, of S v] show ?thesis by (auto intro: that)
  next
    case (Read a b)
    with run_read [OF Cons.prems(1) n, of S a b] show ?thesis by (auto intro: that)
  qed
  have I: "I sys1 t1" by (rule Cons.prems(4) [OF Cons.prems(1) n Cons.prems(3) _ s(1)]) simp
  have st: "I sys' t'" if "run_ok n (sys, t, m)" "n < 2 ^ 62" "I sys t" "x \<in> set ops"
    "worker_step S x (sys, t, m) = Some (Inr (k, sys', t', m'))" for n x sys t m k sys' t' m'
    by (rule Cons.prems(4) [OF that(1-3) _ that(5)]) (simp add: that(4))
  have le: "n + 1 + length ops \<le> 2 ^ 62" using Cons.prems(2) by simp
  have "\<exists>k sys' t' m'. worker_run S ops (sys1, t1, m1) = Some (Inr (k, sys', t', m')) \<and>
    run_ok (n + 1 + length ops) (sys', t', m') \<and> I sys' t' \<and>
    k + length (limbo_bag t') = length (limbo_bag t1) + writes_in ops \<and>
    op_counter t' = op_counter t1 + of_nat (writes_in ops)"
    by (rule Cons.IH [OF s(2) le I]) (rule st; assumption)
  then obtain k2 sys2 t2 m2 where r: "worker_run S ops (sys1, t1, m1) = Some (Inr (k2, sys2, t2, m2))"
    "run_ok (n + 1 + length ops) (sys2, t2, m2)" "I sys2 t2"
    "k2 + length (limbo_bag t2) = length (limbo_bag t1) + writes_in ops"
    "op_counter t2 = op_counter t1 + of_nat (writes_in ops)"
    by blast
  have "writes_in (x # ops) = writes_in [x] + writes_in ops" by (cases x) simp_all
  with r s(1,3,4) show ?case by (auto simp: add.assoc)
qed

lemma run_writes_total:
  assumes "run_ok n (sys, t, m)" "n + length ops \<le> 2 ^ 62"
  shows "\<exists>k sys' t' m'. worker_run S ops (sys, t, m) = Some (Inr (k, sys', t', m')) \<and>
    k + length (limbo_bag t') = length (limbo_bag t) + writes_in ops"
  using run_induct [OF assms, of "\<lambda>_ _. True" S] by auto

section \<open>The backlog between operations\<close>

text \<open>The backlog a quiet thread has after its operations, by strategy.\<close>

fun settled_backlog :: "strategy \<Rightarrow> thread_local_state \<Rightarrow> nat" where
  "settled_backlog PacerDiscrete t =
     (if gc_mode t = ConservativeHold then unat (op_counter t) mod 8 else 0)"
| "settled_backlog BatchEbr t = unat (op_counter t) mod 256"
| "settled_backlog _ t = 0"

definition settled :: "strategy \<Rightarrow> thread_local_state \<Rightarrow> bool" where
  "settled S t \<longleftrightarrow> length (limbo_bag t) = settled_backlog S t \<and>
     (S = PacerDiscrete \<longrightarrow> unat (hold_ticks t) = settled_backlog S t)"

lemma unat_add_1_mod:
  fixes c :: u64
  assumes "d dvd 2 ^ 64"
  shows "unat (c + 1) mod d = (unat c + 1) mod d"
proof -
  have "unat (c + 1) = (unat c + 1) mod 2 ^ 64" by (simp add: unat_word_ariths)
  then show ?thesis using assms by (simp add: mod_mod_cancel)
qed

lemma window_ends_iff: "window_ends t \<longleftrightarrow> unat (op_counter t) mod 256 = 0"
  by (simp add: window_ends_def WINDOW_SIZE_def unat_eq_0 [symmetric] unat_mod_distrib)

definition never_read :: "thread_local_state \<Rightarrow> bool" where
  "never_read t \<longleftrightarrow> spi_ema t = Fin 0 \<and> win_snaps t = 0 \<and> gc_mode t = AggressiveEbr"

lemma after_window_never_read:
  assumes "never_read t" "no_window_overflow t" "after_window sys t = (sys', t')"
  shows "never_read t'"
proof (cases "op_counter t mod WINDOW_SIZE = 0")
  case True
  have mode: "select_gc_mode_with_hysteresis (Fin 0) AggressiveEbr = AggressiveEbr"
    by (simp add: hysteresis_Fin threshold_defs)
  obtain sys1 t1 where r: "resample_spi sys t = (sys1, t1)" by fastforce
  have "never_read t1"
  proof (cases "win_writes t + win_snaps t = 0")
    case False
    have "ema_next 0 (win_share (win_writes t) 0) = 0" by (simp add: ema_next_def win_share_def)
    then show ?thesis
      using resample_counted(1) [of t 0 sys, OF _ _ _ assms(2) False] assms(1) r by (auto simp: never_read_def)
  qed (use assms(1) r in \<open>simp add: resample_idle\<close>)
  then show ?thesis
    using assms(3) r mode True by (auto simp: after_window_def bookkeep_def next_mode_def never_read_def split: if_splits)
qed (use assms in \<open>simp add: after_window_def\<close>)

lemma discrete_write_mode:
  assumes "run_ok n (sys, t, m)" "n < 2 ^ 62"
    and "worker_step PacerDiscrete (Write v) (sys, t, m) = Some (Inr (k, sys', t', m'))"
  shows "hold_ticks t' = tick_hold (gc_mode t) (hold_ticks t)"
    and "\<not> window_ends (prepared t) \<Longrightarrow> gc_mode t' = gc_mode t"
    and "never_read t \<Longrightarrow> never_read t'"
proof -
  define ts where "ts = global_epoch sys"
  define sys1 where "sys1 = sys\<lparr>global_epoch := ts + 1\<rparr>"
  note p = prepare_ok(1,2) [OF assms(1,2), of v, folded ts_def, folded sys1_def] prepare_ok(3) [OF assms(1,2)]
  have w: "table_ok (announce_tbl sys1)" "spi_ok (spi_ema (prepared t))"
    using p(1) by (simp_all add: worker_ok_def)
  obtain sys2 t2 where a: "after_window sys1 (after_tick sys1 (prepared t) (next_box m) ts) = (sys2, t2)" by fastforce
  have "limbo_push (limbo_bag t) ts (next_box m) = limbo_push (limbo_bag (prepared t)) ts (next_box m)" by simp
  note r = post_write_correct [OF w(1) p(2) [unfolded this] w(2) p(3) a]
  have t': "t' = t2"
    using assms(3) r by (simp add: prepare_unfold ts_def [symmetric] sys1_def [symmetric])
  have s: "spi_ok (spi_ema (after_tick sys1 (prepared t) (next_box m) ts))"
    "no_window_overflow (after_tick sys1 (prepared t) (next_box m) ts)"
    using w(2) p(3) by simp_all
  note k = after_window_keeps [OF s a]
  show "hold_ticks t' = tick_hold (gc_mode t) (hold_ticks t)"
    using k(3) by (simp add: t' after_tick_def)
  show "never_read t'" if "never_read t"
    using after_window_never_read [OF _ s(2) a] that by (simp add: t' never_read_def)
  show "gc_mode t' = gc_mode t" if "\<not> window_ends (prepared t)"
    using k(10) that by (simp add: t' window_ends_def)
qed

lemma settled_write_discrete:
  assumes "run_ok n (sys, t, m)" "n < 2 ^ 62" "settled PacerDiscrete t"
    and step: "worker_step PacerDiscrete (Write v) (sys, t, m) = Some (Inr (k, sys', t', m'))"
    and w: "k + length (limbo_bag t') = length (limbo_bag t) + 1"
      "k = min (strategy_budget PacerDiscrete sys1 (prepared t)) (length (limbo_bag t) + 1)"
    and c0: "c = unat (op_counter t)" and c1: "unat (op_counter t') mod 8 = (c + 1) mod 8"
    and ends: "window_ends (prepared t) \<longrightarrow> (c + 1) mod 8 = 0"
  shows "settled PacerDiscrete t'"
proof -
  note d = discrete_write_mode [OF assms(1,2) step]
  show ?thesis
  proof (cases "gc_mode t = ConservativeHold")
    case False
    then have "length (limbo_bag t) = 0" "tick_hold (gc_mode t) (hold_ticks t) = 0"
      "1 \<le> tick_budget (gc_mode t) (hold_ticks t)"
      using assms(3) by (cases "gc_mode t"; simp add: settled_def)+
    then show ?thesis
      using w d False ends c1 by (auto simp: settled_def)
  next
    case True
    then have h: "length (limbo_bag t) = c mod 8" "unat (hold_ticks t) = c mod 8"
      using assms(3) by (simp_all add: settled_def c0)
    have "unat (hold_ticks t + 1) = c mod 8 + 1"
      using h(2) by (simp add: unat_add_1 [of _ 8])
    then have lim: "8 \<le> hold_ticks t + 1 \<longleftrightarrow> c mod 8 = 7" and
      nxt: "unat (hold_ticks t + 1) = c mod 8 + 1"
      by (auto simp: word_le_nat_alt)
    show ?thesis
    proof (cases "c mod 8 = 7")
      case last: True
      then have "(c + 1) mod 8 = 0" by (simp add: mod_Suc)
      with w d(1) True last lim h(1) c1 show ?thesis
        by (simp add: settled_def)
    next
      case False
      then have s: "(c + 1) mod 8 = c mod 8 + 1" by (simp add: mod_Suc)
      then have "\<not> window_ends (prepared t)" using ends by auto
      then have "gc_mode t' = ConservativeHold" using d(2) True by simp
      with s w d(1) True False lim nxt h(1) c1 show ?thesis
        by (simp add: settled_def)
    qed
  qed
qed

lemma settled_write:
  assumes "run_ok n (sys, t, m)" "n < 2 ^ 62" "quiet sys" "settled S t"
    and step: "worker_step S (Write v) (sys, t, m) = Some (Inr (k, sys', t', m'))"
  shows "settled S t'"
proof -
  define sys1 where "sys1 = sys\<lparr>global_epoch := global_epoch sys + 1\<rparr>"
  have w: "op_counter t' = op_counter t + 1" "k + length (limbo_bag t') = length (limbo_bag t) + 1"
    "k = min (strategy_budget S sys1 (prepared t)) (length (limbo_bag t) + 1)"
    using run_write [OF assms(1,2), of S v] step assms(3) by (auto simp: sys1_def)
  define c where "c = unat (op_counter t)"
  have c: "unat (op_counter t') mod 8 = (c + 1) mod 8" "unat (op_counter t') mod 256 = (c + 1) mod 256"
    unfolding w(1) c_def by (rule unat_add_1_mod, simp)+
  have ends: "window_ends (prepared t) \<longleftrightarrow> (c + 1) mod 256 = 0"
    using c(2) by (simp add: window_ends_iff w(1))
  have m: "(c + 1) mod 256 = 0 \<Longrightarrow> (c + 1) mod 8 = 0"
    using mod_mod_cancel [of 8 256 "c + 1"] by simp
  show ?thesis
  proof (cases S)
    case PacerDiscrete
    show ?thesis unfolding PacerDiscrete
      by (rule settled_write_discrete [OF assms(1,2) assms(4) [unfolded PacerDiscrete] step [unfolded PacerDiscrete]
            w(2) w(3) [unfolded PacerDiscrete] c_def c(1)]) (use ends m in simp)
  next
    case BatchEbr
    then have "length (limbo_bag t) = c mod 256" using assms(4) by (simp add: settled_def c_def)
    moreover have "(c mod 256 + 1) \<le> usize_max" by (simp add: usize_max_def)
    moreover have "(c + 1) mod 256 = (if c mod 256 = 255 then 0 else c mod 256 + 1)"
      by (simp add: mod_Suc)
    ultimately show ?thesis using w(2,3) c(2) ends BatchEbr by (auto simp: settled_def split: if_splits)
  qed (use w(2,3) assms(4) in \<open>simp_all add: settled_def\<close>)
qed

lemma settled_step:
  assumes "run_ok n (sys, t, m)" "n < 2 ^ 62" "quiet sys \<and> settled S t"
    and "worker_step S x (sys, t, m) = Some (Inr (k, sys', t', m'))"
  shows "quiet sys' \<and> settled S t'"
proof (cases x)
  case (Write v)
  with settled_write [OF assms(1,2)] run_write [OF assms(1,2), of S v] assms(3,4) show ?thesis by auto
next
  case (Read a b)
  with run_read [OF assms(1,2), of S a b] assms(3,4) show ?thesis
    by (cases S) (auto simp: settled_def)
qed

section \<open>Properties\<close>

text \<open>A thread that starts with no backlog, with any index and mode, as a test or a benchmark sets it up,
  on a system where no snapshot is announced.\<close>

definition fresh_worker :: "f64 \<Rightarrow> gc_mode \<Rightarrow> 'v worker" where
  "fresh_worker spi mode =
     (fst one_thread, (snd one_thread)\<lparr>spi_ema := spi, gc_mode := mode\<rparr>, empty_memory)"

lemma fresh_worker_ok:
  assumes "spi_ok spi"
  shows "run_ok 0 (fresh_worker spi mode :: 'v worker)" "quiet (fst one_thread)"
    "settled S ((snd one_thread)\<lparr>spi_ema := spi, gc_mode := mode\<rparr>)"
    "limbo_bag (snd one_thread) = []"
proof -
  have t: "snd one_thread = thread_local_state_new 0" by (rule one_thread_simps)
  show b: "limbo_bag (snd one_thread) = []" by (simp add: t thread_local_state_new_def limbo_bag_new_def)
  have "worker_ok (fst one_thread) ((snd one_thread)\<lparr>spi_ema := spi, gc_mode := mode\<rparr>) (empty_memory :: 'v memory)"
    using one_thread_ok [where 'v = 'v] assms by (simp add: worker_ok_def)
  then show "run_ok 0 (fresh_worker spi mode :: 'v worker)"
    by (simp add: run_ok_def fresh_worker_def b) (simp add: t thread_local_state_new_def one_thread_simps pacer_system_new_def)
  have "announced (announcement_table_new\<lparr>active_count := 1\<rparr>) i = None" for i
    by (simp add: announced_def announcement_table_new_def announcement_slot_new_def)
  then show "quiet (fst one_thread)"
    by (simp add: quiet_iff one_thread_simps)
  show "settled S ((snd one_thread)\<lparr>spi_ema := spi, gc_mode := mode\<rparr>)"
    by (cases S) (simp_all add: settled_def b, simp_all add: t thread_local_state_new_def)
qed

text \<open>C28: Under every strategy, any mix of writes and snapshots by one thread runs to its end: no free
  fails, nothing panics, no call spins, and every node written is either freed or in the bag.\<close>

theorem worker_run_accounts:
  assumes "spi_ok spi" "length ops \<le> 2 ^ 62"
  shows "\<exists>freed sys t m. worker_run S ops (fresh_worker spi mode) = Some (Inr (freed, sys, t, m)) \<and>
    freed + limbo_len (limbo_bag t) = writes_in ops"
  using run_writes_total [of 0 _ _ empty_memory ops S, OF fresh_worker_ok(1) [OF assms(1), of mode, unfolded fresh_worker_def]]
    fresh_worker_ok(4) [OF assms(1)] assms(2)
  by (simp add: fresh_worker_def limbo_len_def)

theorem worker_run_accounts_witness:
  "\<exists>freed sys t m. worker_run PacerContinuous [Write (1 :: nat), Read 5 7, Write 2]
     (fresh_worker (Fin 0) AggressiveEbr) = Some (Inr (freed, sys, t, m)) \<and>
     freed + limbo_len (limbo_bag t) = 2"
proof -
  have "length [Write (1 :: nat), Read 5 7, Write 2] \<le> 2 ^ 62" by simp
  from worker_run_accounts [OF spi_ok_0 this, of PacerContinuous AggressiveEbr] show ?thesis
    by (simp del: worker_run.simps add: numeral_2_eq_2)
qed

lemma quiet_run:
  assumes "spi_ok spi" "length ops \<le> 2 ^ 62"
  shows "\<exists>k sys t m. worker_run S ops (fresh_worker spi mode) = Some (Inr (k, sys, t, m)) \<and>
    run_ok (length ops) (sys, t, m) \<and> settled S t \<and> unat (op_counter t) = writes_in ops"
proof -
  define t0 where "t0 = (snd one_thread)\<lparr>spi_ema := spi, gc_mode := mode\<rparr>"
  note f = fresh_worker_ok(1) [OF assms(1), of mode, unfolded fresh_worker_def, folded t0_def]
    fresh_worker_ok(2) [OF assms(1)] fresh_worker_ok(3) [OF assms(1), of S mode, folded t0_def]
  have len: "0 + length ops \<le> 2 ^ 62" using assms(2) by simp
  have "\<exists>k sys t m. worker_run S ops (fst one_thread, t0, empty_memory) = Some (Inr (k, sys, t, m)) \<and>
    run_ok (0 + length ops) (sys, t, m) \<and> (quiet sys \<and> settled S t) \<and>
    k + length (limbo_bag t) = length (limbo_bag t0) + writes_in ops \<and>
    op_counter t = op_counter t0 + of_nat (writes_in ops)"
    by (rule run_induct [where I = "\<lambda>sys t. quiet sys \<and> settled S t", OF f(1) len conjI [OF f(2,3)]])
      (rule settled_step; assumption)
  then obtain k sys t m where r: "worker_run S ops (fst one_thread, t0, empty_memory) = Some (Inr (k, sys, t, m))"
    "run_ok (length ops) (sys, t, m)" "settled S t" "op_counter t = op_counter t0 + of_nat (writes_in ops)"
    by auto
  have z: "op_counter t0 = 0" by (simp add: t0_def one_thread_simps thread_local_state_new_def)
  have "writes_in ops \<le> length ops" by (simp add: writes_in_def)
  then have "writes_in ops < 2 ^ 64" using assms(2) by (rule order.strict_trans1 [OF order.trans]) simp
  then have "unat (op_counter t) = writes_in ops" by (simp add: r(4) z unat_of_nat)
  with r show ?thesis by (auto simp: fresh_worker_def t0_def)
qed

text \<open>C5: While no other thread holds a snapshot, the backlog after any mix of operations is exact: the
  aggressive and the amortised mode, the continuous variant and the token strategy leave none, the
  holding mode leaves the number of writes since its last release, always fewer than eight, and
  batching those since the last window, fewer than 256.\<close>

theorem quiet_backlog_exact:
  assumes "spi_ok spi" "length ops \<le> 2 ^ 62"
  shows "\<exists>freed sys t m. worker_run S ops (fresh_worker spi mode) = Some (Inr (freed, sys, t, m)) \<and>
    limbo_len (limbo_bag t) =
      (case S of PacerDiscrete \<Rightarrow> if gc_mode t = ConservativeHold then writes_in ops mod 8 else 0
       | BatchEbr \<Rightarrow> writes_in ops mod 256
       | _ \<Rightarrow> 0)"
proof -
  obtain k sys t m where r: "worker_run S ops (fresh_worker spi mode) = Some (Inr (k, sys, t, m))"
    "settled S t" "unat (op_counter t) = writes_in ops"
    using quiet_run [OF assms, of S mode] by blast
  then have "limbo_len (limbo_bag t) =
      (case S of PacerDiscrete \<Rightarrow> if gc_mode t = ConservativeHold then writes_in ops mod 8 else 0
       | BatchEbr \<Rightarrow> writes_in ops mod 256
       | _ \<Rightarrow> 0)"
    by (cases S) (simp_all add: settled_def limbo_len_def)
  with r(1) show ?thesis by blast
qed

theorem quiet_backlog_exact_witness:
  "\<exists>freed sys t m. worker_run PacerDiscrete (map Write [0..<50000]) (fresh_worker (Fin 1) ConservativeHold)
     = Some (Inr (freed, sys, t, m)) \<and> limbo_len (limbo_bag t) < 80"
proof -
  obtain freed sys t m where "worker_run PacerDiscrete (map Write [0..<50000]) (fresh_worker (Fin 1) ConservativeHold)
     = Some (Inr (freed, sys, t, m))"
    "limbo_len (limbo_bag t) =
       (if gc_mode t = ConservativeHold then writes_in (map Write [0..<50000]) mod 8 else 0)"
    using quiet_backlog_exact [of "Fin 1" "map Write [0..<50000]" PacerDiscrete ConservativeHold]
    by (auto simp: spi_ok_Fin)
  moreover then have "limbo_len (limbo_bag t) < 80"
    using mod_less_divisor [of 8 "writes_in (map Write [0..<50000])"] by auto
  ultimately show ?thesis by blast
qed

text \<open>Another thread that reads a snapshot the whole time.\<close>

definition pinned_by_other :: "u64 \<Rightarrow> pacer_system \<Rightarrow> thread_local_state \<Rightarrow> bool" where
  "pinned_by_other snap sys t \<longleftrightarrow>
     (\<exists>j \<in> registered (announce_tbl sys). j \<noteq> tid t \<and> announced (announce_tbl sys) j = Some snap)"

lemma pinned_safe:
  assumes "pinned_by_other snap sys t" "table_ok (announce_tbl sys)"
  shows "safe_ts_of sys \<le> snap"
  using assms(1)
  by (intro safe_ts_of_le [OF assms(2)])
    (auto simp: pinned_by_other_def active_timestamps_def ran_def restrict_map_def)

definition nothing_freed :: "u64 \<Rightarrow> pacer_system \<Rightarrow> thread_local_state \<Rightarrow> bool" where
  "nothing_freed snap sys t \<longleftrightarrow> pinned_by_other snap sys t \<and> snap \<le> global_epoch sys \<and>
     (\<forall>e \<in> set (limbo_bag t). snap \<le> fst e) \<and> of_nat (length (limbo_bag t)) = op_counter t"

lemma run_ok_table:
  assumes "run_ok n (sys, t, m)"
  shows "table_ok (announce_tbl sys)"
  using assms by (simp add: run_ok_def worker_ok_def)

lemma pinned_write:
  assumes "run_ok n (sys, t, m)" "n < 2 ^ 62" "nothing_freed snap sys t"
    and step: "worker_step S (Write v) (sys, t, m) = Some (Inr (k, sys', t', m'))"
  shows "nothing_freed snap sys' t'"
proof -
  let ?X = "limbo_push (limbo_bag t) (global_epoch sys) (next_box m)"
  have w: "announce_tbl sys' = announce_tbl sys" "tid t' = tid t" "frees_only_older sys ?X k"
    "limbo_bag t' = drop k ?X" "op_counter t' = op_counter t + 1"
    "unat (global_epoch sys) < unat (global_epoch sys')" "k + length (limbo_bag t') = length (limbo_bag t) + 1"
    using run_write [OF assms(1,2), of S v] step by auto
  have n: "pinned_by_other snap sys t" "snap \<le> global_epoch sys" "\<forall>e \<in> set ?X. snap \<le> fst e"
    using assms(3) by (auto simp: nothing_freed_def limbo_push_def)
  have "k = 0"
  proof (rule ccontr)
    assume "k \<noteq> 0"
    then have "hd ?X \<in> set (take k ?X)" "hd ?X \<in> set ?X"
      by (cases ?X; cases k; simp add: limbo_push_def)+
    then have "fst (hd ?X) < snap" "snap \<le> fst (hd ?X)"
      using w(3) n pinned_safe [OF n(1) run_ok_table [OF assms(1)]]
      by (auto simp: frees_only_older_def)
    then show False by simp
  qed
  moreover have "snap \<le> global_epoch sys'" using n(2) w(6) by (simp add: word_le_nat_alt)
  ultimately show ?thesis
    using w n assms(3) by (simp add: nothing_freed_def pinned_by_other_def)
qed

lemma pinned_step:
  assumes "run_ok n (sys, t, m)" "n < 2 ^ 62" "nothing_freed snap sys t"
    and "worker_step S x (sys, t, m) = Some (Inr (k, sys', t', m'))"
  shows "nothing_freed snap sys' t'"
proof (cases x)
  case (Write v)
  with pinned_write [OF assms(1-3)] assms(4) show ?thesis by blast
next
  case (Read a b)
  with run_read [OF assms(1,2), of S a b] assms(3,4) show ?thesis
    by (auto simp: nothing_freed_def pinned_by_other_def)
qed

text \<open>No strategy bounds the backlog under a reader that does not finish: while another thread keeps a
  snapshot announced, a thread that started with an empty bag frees none of the nodes it writes,
  in any mode and at any window, and its backlog is the number of its writes.\<close>

theorem held_snapshot_pins_backlog:
  assumes "run_ok 0 (sys, t, m)" "limbo_bag t = []" "op_counter t = 0" "length ops \<le> 2 ^ 62"
    and "pinned_by_other snap sys t" "snap \<le> global_epoch sys"
  shows "\<exists>sys' t' m'. worker_run S ops (sys, t, m) = Some (Inr (0, sys', t', m')) \<and>
    limbo_len (limbo_bag t') = writes_in ops"
proof -
  have len: "0 + length ops \<le> 2 ^ 62" using assms(4) by simp
  have I: "nothing_freed snap sys t" using assms by (simp add: nothing_freed_def)
  have "\<exists>k sys' t' m'. worker_run S ops (sys, t, m) = Some (Inr (k, sys', t', m')) \<and>
    run_ok (0 + length ops) (sys', t', m') \<and> nothing_freed snap sys' t' \<and>
    k + length (limbo_bag t') = length (limbo_bag t) + writes_in ops \<and>
    op_counter t' = op_counter t + of_nat (writes_in ops)"
    by (rule run_induct [where I = "nothing_freed snap", OF assms(1) len I]) (rule pinned_step; assumption)
  then obtain k sys' t' m' where r: "worker_run S ops (sys, t, m) = Some (Inr (k, sys', t', m'))"
    "of_nat (length (limbo_bag t')) = (of_nat (writes_in ops) :: u64)" "k + length (limbo_bag t') = writes_in ops"
    using assms(2,3) by (auto simp: nothing_freed_def)
  have "writes_in ops \<le> 2 ^ 62" using assms(4) by (simp add: writes_in_def order.trans [OF length_filter_le])
  then have w: "writes_in ops < 2 ^ 64" by (rule order.strict_trans1) simp
  then have "length (limbo_bag t') < 2 ^ 64" using r(3) by linarith
  then have "length (limbo_bag t') = writes_in ops"
    using arg_cong [where f = unat, OF r(2)] w by (simp add: unat_of_nat)
  with r show ?thesis by (simp add: limbo_len_def)
qed

definition two_threads :: pacer_system where
  "two_threads = pacer_system_new\<lparr>announce_tbl := announcement_table_new
     \<lparr>slots := (slots announcement_table_new)[1 := \<lparr>active_ts = 1\<rparr>], active_count := 2\<rparr>\<rparr>"

lemma two_threads_pinned:
  "run_ok 0 (two_threads, thread_local_state_new 0, empty_memory :: nat memory)"
  "pinned_by_other 1 two_threads (thread_local_state_new 0)"
proof -
  have pos: "Suc 0 < MAX_THREADS" by (simp add: MAX_THREADS_def)
  have "table_ok (announce_tbl two_threads)" "registered (announce_tbl two_threads) = {0, 1}"
    by (auto simp: two_threads_def table_ok_def announcement_table_new_def MAX_THREADS_def registered_def)
  moreover have "announced (announce_tbl two_threads) 1 = Some 1"
    using pos by (simp add: two_threads_def announced_def announcement_table_new_def)
  ultimately show "run_ok 0 (two_threads, thread_local_state_new 0, empty_memory :: nat memory)"
    "pinned_by_other 1 two_threads (thread_local_state_new 0)"
    by (simp_all add: run_ok_def worker_ok_def pinned_by_other_def thread_local_state_new_def limbo_bag_new_def
        memory_ok_def empty_memory_def) (simp_all add: two_threads_def pacer_system_new_def)
qed

theorem held_snapshot_pins_backlog_witness:
  "\<exists>sys' t' m'. worker_run TokenAf (map Write [0..<1000])
     (two_threads, thread_local_state_new 0, empty_memory :: nat memory) = Some (Inr (0, sys', t', m')) \<and>
     limbo_len (limbo_bag t') = writes_in (map Write [0..<1000 :: nat])"
  by (rule held_snapshot_pins_backlog [OF two_threads_pinned(1) _ _ _ two_threads_pinned(2)])
    (simp_all add: thread_local_state_new_def limbo_bag_new_def two_threads_def pacer_system_new_def)

text \<open>A thread that only writes stays in the aggressive mode with the index at exactly zero, over
  every window, and so with an empty bag after every write: without readers the collector is plain
  epoch-based reclamation.\<close>

theorem write_only_stays_aggressive:
  assumes "length vs \<le> 2 ^ 62"
  shows "\<exists>sys t m. worker_run PacerDiscrete (map Write vs) (fresh_worker (Fin 0) AggressiveEbr)
      = Some (Inr (length vs, sys, t, m)) \<and>
    spi_ema t = Fin 0 \<and> gc_mode t = AggressiveEbr \<and> limbo_bag t = []"
proof -
  define t0 where "t0 = (snd one_thread)\<lparr>spi_ema := Fin 0, gc_mode := AggressiveEbr\<rparr>"
  let ?I = "\<lambda>sys t. (quiet sys \<and> settled PacerDiscrete t) \<and> never_read t"
  note f = fresh_worker_ok [OF spi_ok_0]
  have ok: "run_ok 0 (fst one_thread, t0, empty_memory)"
    using f(1) [of AggressiveEbr] by (simp add: fresh_worker_def t0_def)
  have I: "?I (fst one_thread) t0"
    using f(2) f(3) [of PacerDiscrete AggressiveEbr]
    by (simp add: t0_def never_read_def one_thread_simps thread_local_state_new_def)
  have len: "0 + length (map Write vs) \<le> 2 ^ 62" using assms by simp
  have step: "?I sys' t'" if "run_ok n (sys, t, m)" "n < 2 ^ 62" "?I sys t" "x \<in> set (map Write vs)"
    "worker_step PacerDiscrete x (sys, t, m) = Some (Inr (k, sys', t', m'))" for n x sys t m k sys' t' m'
    using settled_step [OF that(1,2) _ that(5)] discrete_write_mode(3) [OF that(1,2)] that(3-5) by auto
  have "\<exists>k sys t m. worker_run PacerDiscrete (map Write vs) (fst one_thread, t0, empty_memory) = Some (Inr (k, sys, t, m)) \<and>
    run_ok (0 + length (map Write vs)) (sys, t, m) \<and> ?I sys t \<and>
    k + length (limbo_bag t) = length (limbo_bag t0) + writes_in (map Write vs) \<and>
    op_counter t = op_counter t0 + of_nat (writes_in (map Write vs))"
    by (rule run_induct [where I = ?I, OF ok len I]) (rule step; assumption)
  moreover have "writes_in (map Write vs) = length vs" by (simp add: writes_in_def filter_map o_def)
  ultimately show ?thesis
    using f(4) by (auto simp: fresh_worker_def t0_def settled_def never_read_def)
qed

theorem write_only_stays_aggressive_witness:
  "\<exists>sys t m. worker_run PacerDiscrete (map Write [0..<600]) (fresh_worker (Fin 0) AggressiveEbr)
      = Some (Inr (600, sys, t, m)) \<and> limbo_bag t = []"
  using write_only_stays_aggressive [of "[0..<600]"] by (simp del: worker_run.simps upt_conv_Nil) metis

text \<open>A first snapshot, released at once: the system is quiet again and its window open.\<close>

lemma first_read_released:
  shows "\<exists>sys1 t sys2. take_snapshot (fst one_thread) (snd one_thread) 0 lat = Some (Inr (1, sys1, t)) \<and>
    release_snapshot_for sys1 t = Inr sys2 \<and> run_ok 1 (sys2, t, empty_memory :: 'v memory) \<and> quiet sys2 \<and>
    global_epoch sys2 = 1 \<and> limbo_bag t = [] \<and> gc_mode t = AggressiveEbr \<and> current_ts (scc sys2) = 1 \<and>
    (\<forall>now. now < SCC_MIN_WINDOW_NS \<longrightarrow> coalesces (scc sys2) now)"
proof -
  let ?sys = "fst one_thread" and ?t = "snd one_thread"
  have init: "scc ?sys = scc_new" "global_epoch ?sys = 1" "gc_mode ?t = AggressiveEbr" "limbo_bag ?t = []"
    "win_writes ?t = 0" "win_snaps ?t = 0" "window_gen scc_new = 0"
    by (simp_all add: one_thread_simps pacer_system_new_def thread_local_state_new_def limbo_bag_new_def scc_new_def)
  have w: "worker_ok ?sys ?t (empty_memory :: 'v memory)" by (rule one_thread_ok)
  obtain sys1 t where s: "take_snapshot ?sys ?t 0 lat = Some (Inr (1, sys1, t))"
    "worker_ok sys1 t (empty_memory :: 'v memory)" "t = ?t\<lparr>win_snaps := win_snaps ?t + 1\<rparr>"
    "global_epoch sys1 = 1" "announced (announce_tbl sys1) = (announced (announce_tbl ?sys))(tid ?t \<mapsto> 1)"
    "registered (announce_tbl sys1) = registered (announce_tbl ?sys)"
    using take_snapshot_effect [OF w, of 0 lat] init(1,2) by auto
  have win: "window_gen (scc sys1) = 2" "current_ts (scc sys1) = 1" "window_open_at (scc sys1) = 0"
    "SCC_MIN_WINDOW_NS \<le> adaptive_w_ns (scc sys1)"
    using take_snapshot_window [OF _ _ s(1)] init(1,2,7) by simp_all
  have i: "tid t \<in> registered (announce_tbl sys1)" "table_ok (announce_tbl sys1)"
    using s(2) by (auto simp: worker_ok_def)
  obtain tbl where tbl: "release (announce_tbl sys1) (tid t) = Inr tbl" "table_ok tbl"
    "registered tbl = registered (announce_tbl sys1)"
    "announced tbl = (announced (announce_tbl sys1))(tid t := None)"
    using announcements.rel_law [OF i(2,1)] by auto
  define sys2 where "sys2 = sys1\<lparr>announce_tbl := tbl\<rparr>"
  have "release_snapshot_for sys1 t = Inr sys2"
    by (simp add: release_snapshot_for_def release_snapshot_def tbl(1) sys2_def)
  moreover have "quiet sys2"
    using fresh_worker_ok(2) [OF spi_ok_0] s(3,5,6) tbl(3,4) by (auto simp: quiet_iff sys2_def)
  moreover have "run_ok 1 (sys2, t, empty_memory :: 'v memory)"
    using s(2-4) tbl(2,3) init(4-6) by (simp add: run_ok_def worker_ok_def sys2_def)
  moreover have "coalesces (scc sys2) now" if "now < SCC_MIN_WINDOW_NS" for now
    using win that by (simp add: sys2_def coalesces_def saturating_sub_def)
  ultimately show ?thesis using s(1,3,4) init(3,4) win(2) by (auto simp: sys2_def)
qed

text \<open>A write with an empty bag in a quiet system frees its node.\<close>

lemma quiet_write_frees:
  assumes "run_ok n (sys, t, m)" "n < 2 ^ 62" "quiet sys" "limbo_bag t = []" "gc_mode t = AggressiveEbr"
  defines "e \<equiv> global_epoch sys"
  shows "\<exists>sys' t' m'. post_write (sys\<lparr>global_epoch := e + 1\<rparr>) (prepared t) (next_box m) e (snd (version_node_new v e m))
      = Inr (1, sys', t', m') \<and> boxes m' (next_box m) = None \<and> scc sys' = scc sys \<and> run_ok (n + 1) (sys', t', m')"
proof -
  let ?sys = "sys\<lparr>global_epoch := e + 1\<rparr>" and ?m = "snd (version_node_new v e m)"
  obtain k sys' t' m' where r: "strategy_retire PacerDiscrete ?sys (prepared t) (next_box m) e ?m = Inr (k, sys', t', m')"
    "run_ok (n + 1) (sys', t', m')"
    "quiet sys \<longrightarrow> k = min (strategy_budget PacerDiscrete ?sys (prepared t)) (length (limbo_bag t) + 1)"
    using run_write [OF assms(1,2), of PacerDiscrete v, folded e_def] by blast
  have k: "k = 1" using r(3) assms(3-5) by simp
  note p = prepare_ok(1,2) [OF assms(1,2), of v, folded e_def] prepare_ok(3) [OF assms(1,2)]
  obtain k2 sys2 t2 m2 where f: "strategy_retire PacerDiscrete ?sys (prepared t) (next_box m) e ?m = Inr (k2, sys2, t2, m2)"
    "retire_effect PacerDiscrete ?sys (prepared t) (next_box m) e ?m k2 sys2 t2 m2"
    using strategy_retire_effect [of ?sys "prepared t" ?m e "next_box m" PacerDiscrete] p by auto
  have "k2 = 1" "sys2 = sys'" "m2 = m'" using f(1) r(1) k by simp_all
  with f(2) have "m' = free_all (take 1 (limbo_push (limbo_bag t) e (next_box m))) ?m" "scc sys' = scc sys"
    by (simp_all add: retire_effect_def)
  moreover from this(1) have "boxes m' (next_box m) = None"
    using assms(4) by (simp add: limbo_push_def free_all_def)
  ultimately show ?thesis using r(1,2) k by simp
qed

text \<open>C31: A coalesced snapshot may be given a timestamp whose nodes are gone. Between a released snapshot
  and a later call in the same window nothing keeps the window's timestamp announced, so a node of
  that timestamp can be retired and freed, and the later call still returns the timestamp.\<close>

theorem coalesced_snapshot_misses_nodes:
  fixes v :: 'v
  assumes "now_ns < SCC_MIN_WINDOW_NS"
  shows "\<exists>sys1 t1 sys2 p sys3 t2 m1 sys4 t3 m2 sys5 t4.
    take_snapshot (fst one_thread) (snd one_thread) 0 lat = Some (Inr (1, sys1, t1)) \<and>
    release_snapshot_for sys1 t1 = Inr sys2 \<and>
    write_op_prepare sys2 t1 v empty_memory = (p, 1, sys3, t2, m1) \<and>
    post_write sys3 t2 p 1 m1 = Inr (1, sys4, t3, m2) \<and> boxes m2 p = None \<and>
    take_snapshot sys4 t3 now_ns lat' = Some (Inr (1, sys5, t4))"
proof -
  obtain sys1 t1 sys2 where s: "take_snapshot (fst one_thread) (snd one_thread) 0 lat = Some (Inr (1, sys1, t1))"
    "release_snapshot_for sys1 t1 = Inr sys2" "run_ok 1 (sys2, t1, empty_memory :: 'v memory)" "quiet sys2"
    "global_epoch sys2 = 1" "limbo_bag t1 = []" "gc_mode t1 = AggressiveEbr" "current_ts (scc sys2) = 1"
    "coalesces (scc sys2) now_ns"
    using first_read_released [where 'v = 'v, of lat] assms by blast
  obtain sys4 t3 m2 where w: "post_write (sys2\<lparr>global_epoch := 1 + 1\<rparr>) (prepared t1) (next_box (empty_memory :: 'v memory)) 1
      (snd (version_node_new v 1 empty_memory)) = Inr (1, sys4, t3, m2)"
    "boxes m2 (next_box (empty_memory :: 'v memory)) = None" "scc sys4 = scc sys2" "run_ok (1 + 1) (sys4, t3, m2)"
    using quiet_write_frees [OF s(3) _ s(4,6,7), of v] unfolding s(5) by auto
  have "worker_ok sys4 t3 m2" using w(4) by (simp add: run_ok_def)
  then obtain sys5 t4 where "take_snapshot sys4 t3 now_ns lat' = Some (Inr (1, sys5, t4))"
    using take_snapshot_effect [of sys4 t3 m2 now_ns lat'] s(8,9) w(3) by auto
  moreover have "write_op_prepare sys2 t1 v empty_memory = (next_box (empty_memory :: 'v memory), 1,
      sys2\<lparr>global_epoch := 1 + 1\<rparr>, prepared t1, snd (version_node_new v 1 empty_memory))"
    by (simp only: prepare_unfold s(5))
  ultimately show ?thesis using s(1,2) w(1,2) by blast
qed

theorem coalesced_snapshot_misses_nodes_witness:
  "\<exists>sys3 t2 p (m1 :: nat memory) sys4 t3 m2 sys5 t4. post_write sys3 t2 p 1 m1 = Inr (1, sys4, t3, m2) \<and>
     boxes m2 p = None \<and> take_snapshot sys4 t3 50000 9 = Some (Inr (1, sys5, t4))"
proof -
  have "(50000 :: u64) < SCC_MIN_WINDOW_NS" by (simp add: SCC_MIN_WINDOW_NS_def)
  from coalesced_snapshot_misses_nodes [OF this, of 7 "0 :: nat" 9] show ?thesis by blast
qed

end
