(* ===== verification/Workload.thy ===== *)
theory Workload
  imports Strategies
begin

text \<open>
  What the synthetic benchmark of \<open>src/src/lib.rs\<close> runs besides the collector: the two generators of
  pseudo-random numbers and the operation mix (\<open>Workload\<close>, \<open>lcg_extra\<close>), the simulated allocator
  (\<open>AllocatorPressure\<close>) and the figures it reports (\<open>BenchResult\<close>). Spinning for a simulated time
  has no effect on the state and is left out; a measured duration is an argument.
\<close>

section \<open>Random operations\<close>

record workload =
  key_range :: u64
  insert_fraction :: f64

definition workload_standard :: workload where
  "workload_standard = \<lparr>key_range = 20000000, insert_fraction = f64_lit (50 / 100)\<rparr>"

unbundle bit_operations_syntax

definition next_op :: "workload \<Rightarrow> u64 \<Rightarrow> ((u64 \<times> bool) \<times> u64) res" where
  "next_op wl rng =
     (let rng' = rng * 6364136223846793005 + 1442695040888963407 in
      if key_range wl = 0 then Inl DivisionByZero
      else
        let key = drop_bit 33 rng' mod key_range wl;
            ins = (drop_bit 17 rng' AND 0xFF < f64_to_u64 (insert_fraction wl * f64_lit 256))
        in Inr ((key, ins), rng'))"

definition lcg_extra :: "u64 \<Rightarrow> u64 \<times> u64" where
  "lcg_extra rng = (let rng' = rng * 2862933555777941757 + 3037000493 in (rng', rng'))"

section \<open>The simulated allocator\<close>

record allocator_pressure =
  concurrent_freers :: u64
  total_free_ns :: u64

definition allocator_pressure_new :: allocator_pressure where
  "allocator_pressure_new = \<lparr>concurrent_freers = 0, total_free_ns = 0\<rparr>"

definition burst_ns :: "u64 \<Rightarrow> nat \<Rightarrow> u64" where
  "burst_ns concurrent n =
     (let rivals = f64_of_u64 (saturating_sub concurrent 1);
          per_node_ns = SIM_BASE_FREE_NS + SIM_CONTENDED_FREE_NS * rivals
      in f64_to_u64 (per_node_ns * f64_of_nat n))"

definition simulate_free_burst :: "allocator_pressure \<Rightarrow> nat \<Rightarrow> allocator_pressure" where
  "simulate_free_burst pr n =
     (if n = 0 then pr
      else
        let concurrent = concurrent_freers pr + 1;
            pr1 = pr\<lparr>concurrent_freers := concurrent\<rparr>;
            total_ns = burst_ns concurrent n;
            pr2 = (if 0 < total_ns then pr1\<lparr>total_free_ns := total_free_ns pr1 + total_ns\<rparr> else pr1)
        in pr2\<lparr>concurrent_freers := concurrent_freers pr2 - 1\<rparr>)"

section \<open>The figures of a run\<close>

record bench_result =
  r_strategy :: strategy
  r_threads :: nat
  duration_secs :: f64
  total_ops :: u64
  throughput_mops :: f64
  peak_limbo_len :: nat
  pct_time_in_free :: f64
  p99_snapshot_ns :: u64

text \<open>\<open>secs\<close> is the value of \<open>duration.as_secs_f64()\<close>.\<close>

definition bench_result_new ::
  "strategy \<Rightarrow> nat \<Rightarrow> f64 \<Rightarrow> u64 \<Rightarrow> nat \<Rightarrow> u64 \<Rightarrow> u64 \<Rightarrow> bench_result" where
  "bench_result_new strategy threads secs ops peak free_ns p99 =
     (let pct = (if 0 < secs
          then f64_lit 100 * (f64_of_u64 free_ns / f64_lit 1000000000) / (secs * f64_of_nat (max threads 1))
          else f64_lit 0)
      in \<lparr>r_strategy = strategy, r_threads = threads, duration_secs = secs, total_ops = ops,
          throughput_mops = f64_of_u64 ops / secs / f64_lit 1000000, peak_limbo_len = peak,
          pct_time_in_free = pct, p99_snapshot_ns = p99\<rparr>)"

section \<open>The generators\<close>

lemma lcg_injective:
  fixes a b c x y :: u64
  assumes "b * a = 1" "x * a + c = y * a + c"
  shows "x = y"
proof -
  have "b * (x * a) = b * (y * a)" using assms(2) by simp
  then have "x * (b * a) = y * (b * a)" by (simp only: mult.left_commute mult.commute mult.assoc)
  then show ?thesis by (simp add: assms(1))
qed

text \<open>Both generators are permutations of the 64-bit states: no two states have the same successor, so
  a run of the benchmark never falls into a cycle it did not start on.\<close>

theorem generators_are_injective:
  "inj (\<lambda>rng. snd (lcg_extra rng)) \<and>
   (\<forall>wl rng rng' o1 o2 s. next_op wl rng = Inr (o1, s) \<and> next_op wl rng' = Inr (o2, s) \<longrightarrow> rng = rng')"
proof -
  have inv: "13877824140714322085 * (6364136223846793005 :: u64) = 1"
    "16133697096952638549 * (2862933555777941757 :: u64) = 1" by simp_all
  have "inj (\<lambda>rng. snd (lcg_extra rng))"
    by (rule injI) (rule lcg_injective [OF inv(2)], simp add: lcg_extra_def Let_def)
  moreover have "rng = rng'" if "next_op wl rng = Inr (o1, s)" "next_op wl rng' = Inr (o2, s)"
    for wl rng rng' o1 o2 s
    using that by (intro lcg_injective [OF inv(1), of rng 1442695040888963407])
      (auto simp: next_op_def Let_def split: if_splits)
  ultimately show ?thesis by blast
qed

theorem generators_are_injective_witness:
  "snd (lcg_extra 1) \<noteq> snd (lcg_extra 2)"
  using generators_are_injective by (auto dest: injD [of _ 1 2])

text \<open>An operation exists exactly when the key range is not empty, and its key lies in the range.\<close>

theorem next_op_key_in_range:
  "(case next_op wl rng of
      Inl e \<Rightarrow> key_range wl = 0 \<and> e = DivisionByZero
    | Inr ((key, ins), rng') \<Rightarrow> key < key_range wl)"
  by (auto simp: next_op_def Let_def word_mod_less_divisor word_gt_0)

text \<open>The standard mix compares a byte with 128.\<close>

lemma standard_threshold: "f64_to_u64 (insert_fraction workload_standard * f64_lit 256) = 128"
proof -
  have "f64_lit (50 / 100) = Fin (1 / 2)" "f64_lit 256 = Fin 256"
    using f64_of_rat_lit [of "50 / 100" 53 "2 ^ 52"] f64_of_rat_lit [of 256 44 "2 ^ 52"]
    by (simp_all add: rne_int_def Let_def)
  moreover have "f64_of_rat 128 = Fin 128"
    using f64_of_rat_lit [of 128 45 "2 ^ 52"] by (simp add: rne_int_def Let_def)
  ultimately show ?thesis using f64_to_u64_of_nat [of 128] by (simp add: workload_standard_def)
qed

section \<open>The cost model\<close>

lemma f64_of_nat_small: "n \<le> 2 ^ 53 \<Longrightarrow> f64_of_nat n = Fin (of_nat n)"
proof -
  assume n: "n \<le> 2 ^ 53"
  have "(of_nat n :: rat) \<le> of_nat (2 ^ 53)" using n by (simp only: of_nat_le_iff)
  also have "of_nat (2 ^ 53) \<le> (2 ^ 65 :: rat)" by simp
  finally have "f64_of_rat (of_nat n) = Fin (rne (of_nat n))" by (intro modest_no_overflow) simp
  then show ?thesis using n by (simp add: f64_of_nat_def rne_grid on_grid_of_nat)
qed

lemma f64_small_arith:
  "a + b \<le> 2 ^ 53 \<Longrightarrow> Fin (of_nat a) + Fin (of_nat b) = Fin (of_nat (a + b))"
  "a * b \<le> 2 ^ 53 \<Longrightarrow> Fin (of_nat a) * Fin (of_nat b) = Fin (of_nat (a * b))"
  using f64_of_nat_small [of "a + b"] f64_of_nat_small [of "a * b"]
  by (simp_all add: f64_of_nat_def)

lemma burst_ns_exact:
  assumes "unat c = Suc r" "(20 + 150 * r) * n \<le> 2 ^ 53" "0 < n"
  shows "burst_ns c n = of_nat ((20 + 150 * r) * n)"
proof -
  have "20 + 150 * r \<le> (20 + 150 * r) * n" "n \<le> (20 + 150 * r) * n"
    using assms(3) mult_le_mono2 [of 1 n "20 + 150 * r"] mult_le_mono1 [of 1 "20 + 150 * r" n] by simp_all
  then have r: "20 + 150 * r \<le> 2 ^ 53" "n \<le> 2 ^ 53"
    using assms(2) by (meson order.trans)+
  then have r3: "150 * r \<le> 2 ^ 53" by linarith
  have "unat (saturating_sub c 1) = r" using assms(1) by (simp add: unat_saturating_sub)
  then have riv: "f64_of_u64 (saturating_sub c 1) = Fin (of_nat r)"
    using r(1) f64_of_u64_small [of "saturating_sub c 1"] by (simp add: rat_of_u64_def)
  have k: "SIM_BASE_FREE_NS = Fin (of_nat 20)" "SIM_CONTENDED_FREE_NS = Fin (of_nat 150)"
    by (simp_all add: lit_sim)
  have "burst_ns c n = f64_to_u64 (Fin (of_nat ((20 + 150 * r) * n)))"
    unfolding burst_ns_def Let_def riv k f64_of_nat_small [OF r(2)] f64_small_arith(2) [OF r3]
      f64_small_arith(1) [OF r(1)] f64_small_arith(2) [OF assms(2)] ..
  also have "\<dots> = of_nat ((20 + 150 * r) * n)"
    by (rule f64_to_u64_of_nat, rule order.strict_trans1 [OF assms(2)]) simp
  finally show ?thesis .
qed

text \<open>A burst costs what the model says, exactly, while the total stays below \<open>2 ^ 53\<close>: 20 ns for every
  node and 150 ns more for every other thread freeing at the same time; and it leaves the number of
  threads that are freeing as it was.\<close>

theorem free_burst_cost:
  assumes "unat (concurrent_freers pr) = rivals" "rivals < 2 ^ 62" "(20 + 150 * rivals) * n \<le> 2 ^ 53"
  shows "total_free_ns (simulate_free_burst pr n) = total_free_ns pr + of_nat ((20 + 150 * rivals) * n) \<and>
    concurrent_freers (simulate_free_burst pr n) = concurrent_freers pr"
proof (cases "n = 0")
  case False
  have "unat (concurrent_freers pr + 1) = Suc rivals"
    using assms(1,2) by (simp add: unat_word_ariths)
  then have "burst_ns (concurrent_freers pr + 1) n = of_nat ((20 + 150 * rivals) * n)"
    using assms(3) False by (intro burst_ns_exact) simp_all
  then show ?thesis using False by (auto simp: simulate_free_burst_def Let_def word_gt_0)
qed (simp add: simulate_free_burst_def)

theorem free_burst_cost_witness:
  "total_free_ns (simulate_free_burst (allocator_pressure_new\<lparr>concurrent_freers := 3\<rparr>) 8) = 3760"
  using free_burst_cost [of "allocator_pressure_new\<lparr>concurrent_freers := 3\<rparr>" 3 8]
  by (simp add: allocator_pressure_new_def)

end
