(* ===== verification/Bench_Synth.thy ===== *)
theory Bench_Synth
  imports Backlog Workload
begin

text \<open>
  \<open>run_bench_synthetic\<close> of \<open>src/src/lib.rs\<close>: threads that register, then each run a loop of random
  operations against the shared system until a deadline, and the figures reported at the end. The
  threads interleave at the granularity of one loop iteration; which thread runs next, and what its
  clock shows, is a schedule. The measured duration is an argument.
\<close>

section \<open>State\<close>

record bench_thread =
  b_tls :: thread_local_state
  b_rng :: u64
  b_local :: u64

record bench_state =
  b_sys :: pacer_system
  b_mem :: "u64 memory"
  b_pressure :: allocator_pressure
  b_peak :: u64
  b_threads :: "bench_thread list"

section \<open>One iteration\<close>

text \<open>The operation an iteration draws: a snapshot with the probability of the snapshot fraction, else
  a write of the random key.\<close>

definition bench_op :: "f64 \<Rightarrow> u64 \<Rightarrow> u64 \<Rightarrow> u64 \<Rightarrow> (u64 worker_op \<times> u64) res" where
  "bench_op snap_fraction now_ns lat rng =
     bind_res (next_op workload_standard rng) (\<lambda>((key, ins), rng1).
       let (r, rng2) = lcg_extra rng1;
           do_snap = (r AND 0xFFFF < f64_to_u64 (snap_fraction * f64_lit 65536))
       in Inr (if do_snap then Read now_ns lat else Write key, rng2))"

definition bench_iter ::
  "strategy \<Rightarrow> f64 \<Rightarrow> nat \<Rightarrow> u64 \<Rightarrow> u64 \<Rightarrow> bench_state \<Rightarrow> bench_state res option" where
  "bench_iter S snap_fraction i now_ns lat b =
     (let th = b_threads b ! i in
      bind_run (Some (bench_op snap_fraction now_ns lat (b_rng th))) (\<lambda>(x, rng').
        bind_run (worker_step S x (b_sys b, b_tls th, b_mem b)) (\<lambda>(freed, sys', t', m').
          let pr' = (case x of Write _ \<Rightarrow> simulate_free_burst (b_pressure b) freed
                     | Read _ _ \<Rightarrow> b_pressure b);
              th' = \<lparr>b_tls = t', b_rng = rng', b_local = b_local th + 1\<rparr>;
              l = of_nat (limbo_len (limbo_bag t'));
              peak' = (if b_peak b < l then max (b_peak b) l else b_peak b)
          in Some (Inr (\<lparr>b_sys = sys', b_mem = m', b_pressure = pr', b_peak = peak',
                         b_threads = (b_threads b)[i := th']\<rparr>)))))"

text \<open>The schedule: which thread iterates, the clock it reads, and the time its snapshot takes.\<close>

fun bench_loop ::
  "strategy \<Rightarrow> f64 \<Rightarrow> (nat \<times> u64 \<times> u64) list \<Rightarrow> bench_state \<Rightarrow> bench_state res option" where
  "bench_loop S snap_fraction [] b = Some (Inr b)"
| "bench_loop S snap_fraction ((i, now_ns, lat) # sched) b =
     bind_run (bench_iter S snap_fraction i now_ns lat b) (bench_loop S snap_fraction sched)"

section \<open>The whole run\<close>

fun spawn_threads :: "nat \<Rightarrow> nat \<Rightarrow> pacer_system \<Rightarrow> (pacer_system \<times> bench_thread list) res" where
  "spawn_threads tidx 0 sys = Inr (sys, [])"
| "spawn_threads tidx (Suc n) sys =
     (let (sys1, r) = register_thread sys in
      bind_res r (\<lambda>i.
        let th = \<lparr>b_tls = thread_local_state_new i, b_rng = of_nat tidx XOR 0xdeadbeefcafebabe, b_local = 0\<rparr>
        in bind_res (spawn_threads (Suc tidx) n sys1) (\<lambda>(sys2, ths). Inr (sys2, th # ths))))"

definition run_bench_synthetic ::
  "strategy \<Rightarrow> nat \<Rightarrow> f64 \<Rightarrow> f64 \<Rightarrow> (nat \<times> u64 \<times> u64) list \<Rightarrow> bench_result res option" where
  "run_bench_synthetic S num_threads snap_fraction secs sched =
     bind_run (Some (spawn_threads 0 num_threads pacer_system_new)) (\<lambda>(sys, ths).
       bind_run (bench_loop S snap_fraction sched
           \<lparr>b_sys = sys, b_mem = empty_memory, b_pressure = allocator_pressure_new, b_peak = 0, b_threads = ths\<rparr>)
         (\<lambda>b. Some (Inr (bench_result_new S num_threads secs (sum_list (map b_local (b_threads b)))
              (unat (b_peak b)) (total_free_ns (b_pressure b)) (latency_ns (scc (b_sys b)))))))"

section \<open>The threads do not disturb each other\<close>

text \<open>The bags of the threads.\<close>

definition bags_of :: "bench_thread list \<Rightarrow> limbo_bag list" where
  "bags_of ths = map (\<lambda>th. limbo_bag (b_tls th)) ths"

definition threads_ok :: "strategy \<Rightarrow> nat \<Rightarrow> bench_state \<Rightarrow> bool" where
  "threads_ok S n b \<longleftrightarrow> quiet (b_sys b) \<and> apart (bags_of (b_threads b)) \<and>
     (\<forall>th \<in> set (b_threads b). run_ok n (b_sys b, b_tls th, b_mem b) \<and> settled S (b_tls th))"

text \<open>A step of one worker, as seen by the others.\<close>

lemma worker_step_frame:
  assumes "run_ok n (sys, t, m)" "n < 2 ^ 62" "quiet sys" "settled S t"
  shows "\<exists>k sys' t' m'. worker_step S x (sys, t, m) = Some (Inr (k, sys', t', m')) \<and>
    run_ok (n + 1) (sys', t', m') \<and> quiet sys' \<and> settled S t' \<and>
    set (owned_addrs (limbo_bag t')) \<subseteq> insert (next_box m) (set (owned_addrs (limbo_bag t))) \<and>
    (\<forall>q. bag_ok q m \<and> set (owned_addrs q) \<inter> set (owned_addrs (limbo_bag t)) = {} \<longrightarrow> bag_ok q m') \<and>
    registered (announce_tbl sys') = registered (announce_tbl sys)"
proof -
  obtain k sys' t' m' where st: "worker_step S x (sys, t, m) = Some (Inr (k, sys', t', m'))"
    "run_ok (n + 1) (sys', t', m')"
    and own: "set (owned_addrs (limbo_bag t')) \<subseteq> insert (next_box m) (set (owned_addrs (limbo_bag t)))"
    and keep: "\<And>q. bag_ok q m \<Longrightarrow> set (owned_addrs q) \<inter> set (owned_addrs (limbo_bag t)) = {} \<Longrightarrow> bag_ok q m'"
    and reg: "registered (announce_tbl sys') = registered (announce_tbl sys)"
  proof (cases x)
    case (Read now lat)
    obtain sys' where rd: "worker_step S (Read now lat) (sys, t, m)
        = Some (Inr (0, sys', t\<lparr>win_snaps := win_snaps t + 1\<rparr>, m))"
      "run_ok (n + 1) (sys', t\<lparr>win_snaps := win_snaps t + 1\<rparr>, m)"
      "registered (announce_tbl sys') = registered (announce_tbl sys)"
      using run_read [OF assms(1,2), of S now lat] by blast
    show ?thesis
      by (rule that [of 0 sys' "t\<lparr>win_snaps := win_snaps t + 1\<rparr>" m]) (use rd Read in auto)
  next
    case (Write v)
    let ?X = "limbo_push (limbo_bag t) (global_epoch sys) (next_box m)"
    obtain k sys' t' m' where w: "worker_step S (Write v) (sys, t, m) = Some (Inr (k, sys', t', m'))"
      "run_ok (n + 1) (sys', t', m')" "announce_tbl sys' = announce_tbl sys" "limbo_bag t' = drop k ?X"
      "m' = free_all (take k ?X) (snd (version_node_new v (global_epoch sys) m))"
      using run_write [OF assms(1,2), of S v] by blast
    have mem: "memory_ok m" using assms(1) by (simp add: run_ok_def worker_ok_def)
    have X: "set (owned_addrs ?X) = insert (next_box m) (set (owned_addrs (limbo_bag t)))"
      by (auto simp: limbo_push_def)
    have sub: "set (owned_addrs (take k ?X)) \<subseteq> set (owned_addrs ?X)"
      "set (owned_addrs (drop k ?X)) \<subseteq> set (owned_addrs ?X)"
      by (metis Un_upper1 Un_upper2 append_take_drop_id owned_addrs_append set_append)+
    have kp: "bag_ok q m'" if "bag_ok q m" "set (owned_addrs q) \<inter> set (owned_addrs (limbo_bag t)) = {}" for q
    proof -
      have "next_box m \<notin> set (owned_addrs q)"
        using that(1) mem by (auto simp: bag_ok_def memory_ok_def)
      then have "set (owned_addrs q) \<inter> set (owned_addrs (take k ?X)) = {}"
        using that(2) sub(1) X by auto
      then show ?thesis
        using that(1) by (auto simp: w(5) bag_ok_def free_all_def version_node_new_def restrict_map_def split: if_splits)
    qed
    have ow: "set (owned_addrs (limbo_bag t')) \<subseteq> insert (next_box m) (set (owned_addrs (limbo_bag t)))"
      using sub(2) X by (simp add: w(4))
    show ?thesis by (rule that [OF w(1) [folded Write] w(2) ow kp]) (simp_all add: w(3))
  qed
  have "quiet sys' \<and> settled S t'"
    by (rule settled_step [OF assms(1,2) conjI [OF assms(3,4)] st(1)])
  then show ?thesis using st own keep reg by blast
qed

section \<open>The invariant over an iteration\<close>

lemma run_ok_mono:
  assumes "run_ok n (sys, t, m)" "n \<le> n'"
  shows "run_ok n' (sys, t, m)"
  using assms by (force simp: run_ok_def)

text \<open>What another worker's step leaves of a thread's invariant.\<close>

lemma run_ok_other:
  assumes "run_ok n (sys, t, m)" "run_ok (n + 1) (sys', t2, m')" "bag_ok (limbo_bag t) m'"
    and "registered (announce_tbl sys') = registered (announce_tbl sys)"
  shows "run_ok (n + 1) (sys', t, m')"
  using assms by (force simp: run_ok_def worker_ok_def)

lemma nth_bags [simp]: "i < length ths \<Longrightarrow> bags_of ths ! i = limbo_bag (b_tls (ths ! i))"
  by (simp add: bags_of_def)

lemma bench_op_total: "\<exists>x rng'. bench_op f now lat rng = Inr (x, rng')"
  by (simp add: bench_op_def next_op_def workload_standard_def lcg_extra_def Let_def)

text \<open>Replacing the thread that moved keeps the invariant, if the move kept the bags of the others.\<close>

lemma threads_ok_update:
  assumes inv: "threads_ok S n b" and i: "i < length (b_threads b)"
    and st: "run_ok (n + 1) (sys', b_tls th', m')" "quiet sys'" "settled S (b_tls th')"
      "set (owned_addrs (limbo_bag (b_tls th')))
        \<subseteq> insert (next_box (b_mem b)) (set (owned_addrs (limbo_bag (b_tls (b_threads b ! i)))))"
      "\<And>q. bag_ok q (b_mem b) \<Longrightarrow>
        set (owned_addrs q) \<inter> set (owned_addrs (limbo_bag (b_tls (b_threads b ! i)))) = {} \<Longrightarrow> bag_ok q m'"
      "registered (announce_tbl sys') = registered (announce_tbl (b_sys b))"
    and b': "b_sys b' = sys'" "b_mem b' = m'" "b_threads b' = (b_threads b)[i := th']"
  shows "threads_ok S (n + 1) b'"
proof -
  have ap: "apart (bags_of (b_threads b))"
    and all: "\<And>j. j < length (b_threads b) \<Longrightarrow>
      run_ok n (b_sys b, b_tls (b_threads b ! j), b_mem b) \<and> settled S (b_tls (b_threads b ! j))"
    using inv by (auto simp: threads_ok_def)
  have disj: "set (owned_addrs (limbo_bag (b_tls (b_threads b ! j)))) \<inter>
      set (owned_addrs (limbo_bag (b_tls (b_threads b ! i)))) = {}"
    if "j < length (b_threads b)" "j \<noteq> i" for j
    using ap that i by (auto simp: apart_def bags_of_def)
  have bag: "bag_ok (limbo_bag (b_tls (b_threads b ! j))) (b_mem b)" "memory_ok (b_mem b)"
    if "j < length (b_threads b)" for j
    using all [OF that] by (auto simp: run_ok_def worker_ok_def)
  have new: "next_box (b_mem b) \<notin> set (owned_addrs (limbo_bag (b_tls (b_threads b ! j))))"
    if "j < length (b_threads b)" for j
    using bag [OF that] by (auto simp: bag_ok_def memory_ok_def)
  have "set (owned_addrs (limbo_bag (b_tls (b_threads b ! j)))) \<inter> set (owned_addrs (limbo_bag (b_tls th'))) = {}"
    if "j < length (b_threads b)" "j \<noteq> i" for j
    using st(4) disj [OF that] new [OF that(1)] by blast
  then have "apart ((bags_of (b_threads b))[i := limbo_bag (b_tls th')])"
    by (intro apart_update ap) (simp add: bags_of_def)
  then have "apart (bags_of ((b_threads b)[i := th']))" by (simp add: bags_of_def map_update)
  moreover have "run_ok (n + 1) (sys', b_tls th2, m') \<and> settled S (b_tls th2)"
    if "th2 \<in> set ((b_threads b)[i := th'])" for th2
  proof -
    from that obtain j where j: "j < length (b_threads b)" "th2 = (b_threads b)[i := th'] ! j"
      by (auto simp: in_set_conv_nth)
    have "run_ok (n + 1) (sys', b_tls (b_threads b ! j), m')" if "j \<noteq> i"
      using run_ok_other [OF conjunct1 [OF all [OF j(1)]] st(1) st(5) [OF bag(1) [OF j(1)] disj [OF j(1) that]] st(6)] .
    then show ?thesis using all [OF j(1)] st(1,3) j by (cases "j = i") simp_all
  qed
  ultimately show ?thesis using st(2) by (simp add: threads_ok_def b')
qed

lemma bench_iter_ok:
  assumes inv: "threads_ok S n b" and n: "n < 2 ^ 62" and i: "i < length (b_threads b)"
  shows "\<exists>b' t'. bench_iter S f i now lat b = Some (Inr b') \<and> threads_ok S (n + 1) b' \<and>
    length (b_threads b') = length (b_threads b) \<and>
    settled S t' \<and> b_peak b' = max (b_peak b) (of_nat (limbo_len (limbo_bag t'))) \<and>
    (\<exists>rng'. b_threads b' = (b_threads b)[i := \<lparr>b_tls = t', b_rng = rng', b_local = b_local (b_threads b ! i) + 1\<rparr>])"
proof -
  define th where "th = b_threads b ! i"
  have thi: "th \<in> set (b_threads b)" using i by (simp add: th_def)
  have q: "quiet (b_sys b)" and all: "\<And>th. th \<in> set (b_threads b) \<Longrightarrow> run_ok n (b_sys b, b_tls th, b_mem b) \<and> settled S (b_tls th)"
    using inv by (auto simp: threads_ok_def)
  obtain x rng' where x: "bench_op f now lat (b_rng th) = Inr (x, rng')" using bench_op_total by blast
  obtain k sys' t' m' where st: "worker_step S x (b_sys b, b_tls th, b_mem b) = Some (Inr (k, sys', t', m'))"
    "run_ok (n + 1) (sys', t', m')" "quiet sys'" "settled S t'"
    "set (owned_addrs (limbo_bag t')) \<subseteq> insert (next_box (b_mem b)) (set (owned_addrs (limbo_bag (b_tls th))))"
    "\<And>q. bag_ok q (b_mem b) \<Longrightarrow> set (owned_addrs q) \<inter> set (owned_addrs (limbo_bag (b_tls th))) = {} \<Longrightarrow> bag_ok q m'"
    "registered (announce_tbl sys') = registered (announce_tbl (b_sys b))"
    using worker_step_frame [OF conjunct1 [OF all [OF thi]] n q conjunct2 [OF all [OF thi]], of x] by blast
  define th' where "th' = \<lparr>b_tls = t', b_rng = rng', b_local = b_local th + 1\<rparr>"
  define l :: u64 where "l = of_nat (limbo_len (limbo_bag t'))"
  define b' where "b' = \<lparr>b_sys = sys', b_mem = m',
    b_pressure = (case x of Write _ \<Rightarrow> simulate_free_burst (b_pressure b) k | Read _ _ \<Rightarrow> b_pressure b),
    b_peak = (if b_peak b < l then max (b_peak b) l else b_peak b), b_threads = (b_threads b)[i := th']\<rparr>"
  have step: "bench_iter S f i now lat b = Some (Inr b')"
    by (simp add: bench_iter_def th_def [symmetric] x st(1) b'_def th'_def l_def Let_def)
  have "threads_ok S (n + 1) b'"
    by (rule threads_ok_update [OF inv i, of sys' th' m'])
      (use st in \<open>simp_all add: th'_def b'_def flip: th_def\<close>)
  moreover have "b_peak b' = max (b_peak b) l" by (auto simp: b'_def max_def)
  ultimately show ?thesis
    using step st(4) i by (intro exI [of _ b'] exI [of _ t']) (auto simp: b'_def l_def th'_def th_def)
qed

section \<open>The run\<close>

fun peak_bound :: "strategy \<Rightarrow> nat" where
  "peak_bound PacerDiscrete = 7"
| "peak_bound BatchEbr = 255"
| "peak_bound _ = 0"

lemma settled_bound: "settled S t \<Longrightarrow> limbo_len (limbo_bag t) \<le> peak_bound S"
  using mod_less_divisor [of 8 "unat (op_counter t)"] mod_less_divisor [of 256 "unat (op_counter t)"]
  by (cases S) (auto simp: settled_def limbo_len_def)

lemma peak_update:
  assumes "unat (p :: u64) \<le> c" "l \<le> c" "c < 256"
  shows "unat (max p (of_nat l)) \<le> c"
  using assms by (auto simp: max_def unat_of_nat)

lemma bench_loop_ok:
  assumes "threads_ok S n b" "n + length sched \<le> 2 ^ 62" "unat (b_peak b) \<le> peak_bound S"
    and "\<forall>(i, now, lat) \<in> set sched. i < length (b_threads b)"
  shows "\<exists>b'. bench_loop S f sched b = Some (Inr b') \<and> unat (b_peak b') \<le> peak_bound S \<and>
    sum_list (map b_local (b_threads b')) = sum_list (map b_local (b_threads b)) + of_nat (length sched)"
  using assms
proof (induction sched arbitrary: n b)
  case Nil
  then show ?case by simp
next
  case (Cons e sched)
  obtain i now lat where e: "e = (i, now, lat)" by (cases e)
  have i: "i < length (b_threads b)" "n < 2 ^ 62" using Cons.prems(2,4) e by auto
  obtain b1 t' rng' where b1: "bench_iter S f i now lat b = Some (Inr b1)" "threads_ok S (n + 1) b1"
    "length (b_threads b1) = length (b_threads b)" "settled S t'"
    "b_peak b1 = max (b_peak b) (of_nat (limbo_len (limbo_bag t')))"
    "b_threads b1 = (b_threads b)[i := \<lparr>b_tls = t', b_rng = rng', b_local = b_local (b_threads b ! i) + 1\<rparr>]"
    using bench_iter_ok [OF Cons.prems(1) i(2,1), of f now lat] by blast
  have pk: "unat (b_peak b1) \<le> peak_bound S"
    unfolding b1(5) by (rule peak_update [OF Cons.prems(3) settled_bound [OF b1(4)]]) (cases S; simp)
  have le: "n + 1 + length sched \<le> 2 ^ 62" using Cons.prems(2) by simp
  have idx: "\<forall>(i, now, lat) \<in> set sched. i < length (b_threads b1)" using Cons.prems(4) b1(3) by auto
  have "map b_local (b_threads b1) = (map b_local (b_threads b))[i := map b_local (b_threads b) ! i + 1]"
    using i(1) by (simp add: b1(6) map_update)
  then have sum: "sum_list (map b_local (b_threads b1)) = sum_list (map b_local (b_threads b)) + 1"
    using i(1) by (simp add: sum_list_update_word)
  from Cons.IH [OF b1(2) le pk idx] show ?case using b1(1) by (auto simp: e sum add.assoc)
qed

lemma spawn_threads_ok:
  assumes "table_ok (announce_tbl sys)" "unat (active_count (announce_tbl sys)) + n \<le> MAX_THREADS"
  shows "\<exists>tbl ths. spawn_threads k n sys = Inr (sys\<lparr>announce_tbl := tbl\<rparr>, ths) \<and> table_ok tbl \<and>
    slots tbl = slots (announce_tbl sys) \<and> registered (announce_tbl sys) \<subseteq> registered tbl \<and> length ths = n \<and>
    (\<forall>th \<in> set ths. b_local th = 0 \<and> (\<exists>i \<in> registered tbl. b_tls th = thread_local_state_new i))"
  using assms
proof (induction n arbitrary: k sys)
  case 0
  have "sys\<lparr>announce_tbl := announce_tbl sys\<rparr> = sys" by simp
  with 0 show ?case by (intro exI [of _ "announce_tbl sys"]) simp
next
  case (Suc n)
  let ?c = "unat (active_count (announce_tbl sys))"
  have lt: "?c < MAX_THREADS" using Suc.prems(2) by simp
  obtain t1 where t1: "register (announce_tbl sys) = (t1, Inr ?c)" "table_ok t1"
    "slots t1 = slots (announce_tbl sys)" "registered t1 = insert ?c (registered (announce_tbl sys))"
    using register_ok [OF Suc.prems(1) lt] by blast
  have cnt: "unat (active_count t1) + n \<le> MAX_THREADS"
  proof -
    have "card (registered t1) = Suc ?c" unfolding t1(4) by (simp add: registered_def)
    then have "unat (active_count t1) = Suc ?c" by (simp add: registered_def)
    with Suc.prems(2) show ?thesis by simp
  qed
  define sys1 where "sys1 = sys\<lparr>announce_tbl := t1\<rparr>"
  have "table_ok (announce_tbl sys1)" "unat (active_count (announce_tbl sys1)) + n \<le> MAX_THREADS"
    using t1(2) cnt by (simp_all add: sys1_def)
  from Suc.IH [OF this, of "Suc k"] obtain tbl ths where r:
    "spawn_threads (Suc k) n sys1 = Inr (sys1\<lparr>announce_tbl := tbl\<rparr>, ths)" "table_ok tbl"
    "slots tbl = slots t1" "registered t1 \<subseteq> registered tbl" "length ths = n"
    "\<forall>th \<in> set ths. b_local th = 0 \<and> (\<exists>i \<in> registered tbl. b_tls th = thread_local_state_new i)"
    by (auto simp: sys1_def)
  have "?c \<in> registered tbl" using r(4) t1(4) by auto
  then show ?case using r t1 by (auto simp: register_thread_def sys1_def)
qed

lemma spawn_threads_inv:
  assumes "n \<le> MAX_THREADS"
  shows "\<exists>sys ths. spawn_threads 0 n pacer_system_new = Inr (sys, ths) \<and> length ths = n \<and>
    sum_list (map b_local ths) = 0 \<and>
    threads_ok S 0 \<lparr>b_sys = sys, b_mem = empty_memory, b_pressure = allocator_pressure_new, b_peak = 0, b_threads = ths\<rparr>"
proof -
  have "table_ok (announce_tbl pacer_system_new)" "unat (active_count (announce_tbl pacer_system_new)) + n \<le> MAX_THREADS"
    using assms by (simp_all add: pacer_system_new_def) (simp add: announcement_table_new_def)
  from spawn_threads_ok [OF this, of 0] obtain tbl ths where r:
    "spawn_threads 0 n pacer_system_new = Inr (pacer_system_new\<lparr>announce_tbl := tbl\<rparr>, ths)" "table_ok tbl"
    "slots tbl = slots announcement_table_new" "length ths = n"
    "\<forall>th \<in> set ths. b_local th = 0 \<and> (\<exists>i \<in> registered tbl. b_tls th = thread_local_state_new i)"
    by (auto simp: pacer_system_new_def)
  let ?sys = "pacer_system_new\<lparr>announce_tbl := tbl\<rparr>"
  have "announced tbl i = announced announcement_table_new i" for i
    unfolding announced_def r(3) ..
  then have q: "quiet ?sys" by (simp add: quiet_iff)
  have "run_ok 0 (?sys, b_tls th, empty_memory) \<and> settled S (b_tls th) \<and> limbo_bag (b_tls th) = []"
    if "th \<in> set ths" for th
  proof -
    from r(5) that obtain i where i: "i \<in> registered tbl" "b_tls th = thread_local_state_new i" by blast
    show ?thesis
      using i(1) r(2) unfolding i(2)
      by (cases S) (simp_all add: run_ok_def worker_ok_def settled_def thread_local_state_new_def limbo_bag_new_def
          memory_ok_def empty_memory_def, simp_all add: pacer_system_new_def)
  qed
  moreover from this have "limbo_bag (b_tls (ths ! i)) = []" if "i < length ths" for i
    using that nth_mem by blast
  then have "apart (bags_of ths)" by (simp add: apart_def bags_of_def)
  moreover have "map b_local ths = map (\<lambda>_. 0) ths" using r(5) by simp
  then have "sum_list (map b_local ths) = 0" by (simp only: sum_list_0)
  ultimately show ?thesis using r(1,4) q by (auto simp: threads_ok_def)
qed

lemma bench_run_ok:
  assumes "num_threads \<le> MAX_THREADS" "length sched \<le> 2 ^ 62" "\<forall>(i, now, lat) \<in> set sched. i < num_threads"
  shows "\<exists>res. run_bench_synthetic S num_threads snap_fraction secs sched = Some (Inr res) \<and>
    peak_limbo_len res \<le> peak_bound S \<and>
    total_ops res = of_nat (length sched)"
proof -
  obtain sys ths where sp: "spawn_threads 0 num_threads pacer_system_new = Inr (sys, ths)" "length ths = num_threads"
    "sum_list (map b_local ths) = 0"
    "threads_ok S 0 \<lparr>b_sys = sys, b_mem = empty_memory, b_pressure = allocator_pressure_new, b_peak = 0, b_threads = ths\<rparr>"
    using spawn_threads_inv [OF assms(1)] by blast
  have "0 + length sched \<le> 2 ^ 62" using assms(2) by simp
  from bench_loop_ok [OF sp(4) this, of snap_fraction] assms(3) sp(2) obtain b where
    "bench_loop S snap_fraction sched \<lparr>b_sys = sys, b_mem = empty_memory, b_pressure = allocator_pressure_new,
       b_peak = 0, b_threads = ths\<rparr> = Some (Inr b)"
    "unat (b_peak b) \<le> peak_bound S" "sum_list (map b_local (b_threads b)) = of_nat (length sched)"
    using sp(3) by auto
  then show ?thesis using sp(1) by (simp add: run_bench_synthetic_def bench_result_new_def Let_def)
qed

section \<open>Properties\<close>



end
