(* ===== verification/Scc_Steps.thy ===== *)
theory Scc_Steps
  imports Scc
begin

text \<open>
  The snapshot coalescing coordinator under interleaving. Every atomic access of
  \<open>Scc::take_snapshot\<close> is one step of a thread, at the control points of the code; any number of
  threads call it, in any order, while the epoch advances and latencies are recorded. Memory is
  sequentially consistent; what the weaker orderings of the code allow beyond that is not
  modelled. The theory shows that at most one thread writes a window at a time, that what a call
  returns is a timestamp the epoch has held, that windows never move back, that every call can be
  completed from every reachable state, and that a thread running alone computes the sequential
  function of the theory \<open>Scc\<close>. It also exhibits the execution that mixes two windows.
\<close>

section \<open>Control points\<close>

text \<open>The arguments are what the thread holds in registers: \<open>now_ns\<close>, the generation it read, and the
  values loaded since.\<close>

datatype scc_pc =
    Idle
  | Enter u64
  | Load_Gen u64
  | Load_Ts u64 u64
  | Load_Open u64 u64 u64
  | Load_W u64 u64 u64 u64
  | Count_Hit u64
  | Load_Epoch u64 u64
  | Claim u64 u64 u64
  | Load_Total u64 u64 u64
  | Load_Hits u64 u64 u64 u64
  | Load_P99 u64 u64 u64 f64
  | Store_W u64 u64 u64 u64
  | Store_Ts u64 u64 u64
  | Store_Open u64 u64 u64
  | Publish u64 u64
  | Done u64

fun scc_thread_step :: "scc \<Rightarrow> u64 \<Rightarrow> scc_pc \<Rightarrow> scc \<times> scc_pc" where
  "scc_thread_step s epoch Idle = (s, Idle)"
| "scc_thread_step s epoch (Enter now) = (s\<lparr>total_count := total_count s + 1\<rparr>, Load_Gen now)"
| "scc_thread_step s epoch (Load_Gen now) =
     (let gen = window_gen s in (s, if gen mod 2 = 1 then Load_Gen now else Load_Ts now gen))"
| "scc_thread_step s epoch (Load_Ts now gen) = (s, Load_Open now gen (current_ts s))"
| "scc_thread_step s epoch (Load_Open now gen ts) = (s, Load_W now gen ts (window_open_at s))"
| "scc_thread_step s epoch (Load_W now gen ts opened_at) =
     (let w = adaptive_w_ns s in
      (s, if gen \<noteq> 0 \<and> saturating_sub now opened_at < w then Count_Hit ts else Load_Epoch now gen))"
| "scc_thread_step s epoch (Count_Hit ts) = (s\<lparr>hit_count := hit_count s + 1\<rparr>, Done ts)"
| "scc_thread_step s epoch (Load_Epoch now gen) = (s, Claim now gen epoch)"
| "scc_thread_step s epoch (Claim now gen new_ts) =
     (if window_gen s = gen then (s\<lparr>window_gen := gen + 1\<rparr>, Load_Total now gen new_ts)
      else (s, Load_Gen now))"
| "scc_thread_step s epoch (Load_Total now gen new_ts) =
     (let t = total_count s in
      (s, if t = 0 then Load_P99 now gen new_ts 0 else Load_Hits now gen new_ts t))"
| "scc_thread_step s epoch (Load_Hits now gen new_ts t) =
     (s, Load_P99 now gen new_ts (f64_of_u64 (hit_count s) / f64_of_u64 t))"
| "scc_thread_step s epoch (Load_P99 now gen new_ts hit) =
     (s, Store_W now gen new_ts (compute_w hit (p99_ns s)))"
| "scc_thread_step s epoch (Store_W now gen new_ts w) =
     (s\<lparr>adaptive_w_ns := w\<rparr>, Store_Ts now gen new_ts)"
| "scc_thread_step s epoch (Store_Ts now gen new_ts) =
     (s\<lparr>current_ts := new_ts\<rparr>, Store_Open now gen new_ts)"
| "scc_thread_step s epoch (Store_Open now gen new_ts) =
     (s\<lparr>window_open_at := now\<rparr>, Publish gen new_ts)"
| "scc_thread_step s epoch (Publish gen new_ts) = (s\<lparr>window_gen := gen + 2\<rparr>, Done new_ts)"
| "scc_thread_step s epoch (Done ts) = (s, Done ts)"

section \<open>The interleaved system\<close>

record scc_world =
  w_scc :: scc
  w_epoch :: u64
  w_pc :: "nat \<Rightarrow> scc_pc"

definition scc_world_new :: scc_world where
  "scc_world_new = \<lparr>w_scc = scc_new, w_epoch = 1, w_pc = (\<lambda>_. Idle)\<rparr>"

text \<open>A thread calls, runs one access, or returns; a writer elsewhere advances the epoch, short of
  its wrapping; a latency estimate is stored.\<close>

inductive scc_world_step :: "scc_world \<Rightarrow> scc_world \<Rightarrow> bool" where
  call: "w_pc w i = Idle \<Longrightarrow> scc_world_step w (w\<lparr>w_pc := (w_pc w)(i := Enter now)\<rparr>)"
| run: "scc_thread_step (w_scc w) (w_epoch w) (w_pc w i) = (s', pc') \<Longrightarrow>
    scc_world_step w (w\<lparr>w_scc := s', w_pc := (w_pc w)(i := pc')\<rparr>)"
| ret: "w_pc w i = Done ts \<Longrightarrow> scc_world_step w (w\<lparr>w_pc := (w_pc w)(i := Idle)\<rparr>)"
| tick: "w_epoch w \<noteq> u64_max \<Longrightarrow> scc_world_step w (w\<lparr>w_epoch := w_epoch w + 1\<rparr>)"
| latency: "scc_world_step w (w\<lparr>w_scc := (w_scc w)\<lparr>p99_ns := v\<rparr>\<rparr>)"

inductive_cases scc_world_stepE: "scc_world_step w w'"

text \<open>Reachable states, while fewer than \<open>2 ^ 62\<close> windows have been opened, so that the generation
  does not come round.\<close>

inductive scc_reach :: "scc_world \<Rightarrow> bool" where
  start: "scc_reach scc_world_new"
| step: "scc_reach w \<Longrightarrow> scc_world_step w w' \<Longrightarrow> unat (window_gen (w_scc w')) < 2 ^ 63 \<Longrightarrow> scc_reach w'"

section \<open>The invariant\<close>

fun claimed :: "scc_pc \<Rightarrow> bool" where
  "claimed (Load_Total _ _ _) = True"
| "claimed (Load_Hits _ _ _ _) = True"
| "claimed (Load_P99 _ _ _ _) = True"
| "claimed (Store_W _ _ _ _) = True"
| "claimed (Store_Ts _ _ _) = True"
| "claimed (Store_Open _ _ _) = True"
| "claimed (Publish _ _) = True"
| "claimed _ = False"

definition valid_ts :: "u64 \<Rightarrow> u64 \<Rightarrow> bool" where
  "valid_ts epoch ts \<longleftrightarrow> ts \<noteq> 0 \<and> ts \<le> epoch"

text \<open>A thread that holds the generation \<open>g\<close> it read, and one that has claimed it.\<close>

definition holds_gen :: "scc \<Rightarrow> u64 \<Rightarrow> bool" where
  "holds_gen s g \<longleftrightarrow> even g \<and> g \<le> window_gen s \<and> (g \<noteq> 0 \<longrightarrow> current_ts s \<noteq> 0)"

definition writes_gen :: "scc \<Rightarrow> u64 \<Rightarrow> bool" where
  "writes_gen s g \<longleftrightarrow> even g \<and> window_gen s = g + 1"

fun pc_inv :: "scc \<Rightarrow> u64 \<Rightarrow> scc_pc \<Rightarrow> bool" where
  "pc_inv s e (Load_Ts now g) \<longleftrightarrow> holds_gen s g"
| "pc_inv s e (Load_Open now g ts) \<longleftrightarrow> holds_gen s g \<and> (g \<noteq> 0 \<longrightarrow> valid_ts e ts)"
| "pc_inv s e (Load_W now g ts opened_at) \<longleftrightarrow> holds_gen s g \<and> (g \<noteq> 0 \<longrightarrow> valid_ts e ts)"
| "pc_inv s e (Count_Hit ts) \<longleftrightarrow> valid_ts e ts"
| "pc_inv s e (Load_Epoch now g) \<longleftrightarrow> holds_gen s g"
| "pc_inv s e (Claim now g new_ts) \<longleftrightarrow>
     holds_gen s g \<and> valid_ts e new_ts \<and> (window_gen s = g \<longrightarrow> current_ts s \<le> new_ts)"
| "pc_inv s e (Load_Total now g new_ts) \<longleftrightarrow> writes_gen s g \<and> valid_ts e new_ts \<and> current_ts s \<le> new_ts"
| "pc_inv s e (Load_Hits now g new_ts t) \<longleftrightarrow> writes_gen s g \<and> valid_ts e new_ts \<and> current_ts s \<le> new_ts"
| "pc_inv s e (Load_P99 now g new_ts h) \<longleftrightarrow> writes_gen s g \<and> valid_ts e new_ts \<and> current_ts s \<le> new_ts"
| "pc_inv s e (Store_W now g new_ts w) \<longleftrightarrow> writes_gen s g \<and> valid_ts e new_ts \<and> current_ts s \<le> new_ts"
| "pc_inv s e (Store_Ts now g new_ts) \<longleftrightarrow> writes_gen s g \<and> valid_ts e new_ts \<and> current_ts s \<le> new_ts"
| "pc_inv s e (Store_Open now g new_ts) \<longleftrightarrow> writes_gen s g \<and> valid_ts e new_ts \<and> current_ts s = new_ts"
| "pc_inv s e (Publish g new_ts) \<longleftrightarrow> writes_gen s g \<and> valid_ts e new_ts \<and> current_ts s = new_ts"
| "pc_inv s e (Done ts) \<longleftrightarrow> valid_ts e ts"
| "pc_inv s e _ \<longleftrightarrow> True"

definition scc_inv :: "scc \<Rightarrow> u64 \<Rightarrow> bool" where
  "scc_inv s e \<longleftrightarrow> e \<noteq> 0 \<and> current_ts s \<le> e \<and> unat (window_gen s) < 2 ^ 63 \<and>
     (even (window_gen s) \<and> window_gen s \<noteq> 0 \<longrightarrow> current_ts s \<noteq> 0)"

definition parts_inv :: "scc \<Rightarrow> u64 \<Rightarrow> (nat \<Rightarrow> scc_pc) \<Rightarrow> bool" where
  "parts_inv s e pcs \<longleftrightarrow> scc_inv s e \<and> (\<forall>i. pc_inv s e (pcs i)) \<and>
     (\<forall>i j. claimed (pcs i) \<longrightarrow> claimed (pcs j) \<longrightarrow> i = j) \<and>
     (odd (window_gen s) \<longrightarrow> (\<exists>i. claimed (pcs i)))"

definition world_inv :: "scc_world \<Rightarrow> bool" where
  "world_inv w \<longleftrightarrow> parts_inv (w_scc w) (w_epoch w) (w_pc w)"

section \<open>What a step does to the other threads\<close>

lemma odd_iff_mod: "(g :: u64) mod 2 = 1 \<longleftrightarrow> odd g"
  by (simp add: odd_iff_mod_2_eq_one)

lemma claimed_odd: "pc_inv s e pc \<Longrightarrow> claimed pc \<Longrightarrow> odd (window_gen s)"
  by (cases pc) (auto simp: writes_gen_def)

lemma pc_inv_cong:
  "window_gen s' = window_gen s \<Longrightarrow> current_ts s' = current_ts s \<Longrightarrow> pc_inv s' e pc = pc_inv s e pc"
  by (cases pc) (simp_all add: holds_gen_def writes_gen_def)

lemma pc_inv_epoch: "pc_inv s e pc \<Longrightarrow> e \<le> e' \<Longrightarrow> pc_inv s e' pc"
  by (cases pc) (auto simp: valid_ts_def)

text \<open>The generation moves up, or the timestamp of the window is stored while the generation is odd: a
  thread that has claimed nothing keeps its invariant.\<close>

lemma pc_inv_gen_up:
  assumes "pc_inv s e pc" "\<not> claimed pc" "window_gen s < window_gen s'" "current_ts s' = current_ts s"
  shows "pc_inv s' e pc"
  using assms by (cases pc) (auto simp: holds_gen_def)

lemma pc_inv_ts_stored:
  assumes "pc_inv s e pc" "\<not> claimed pc" "window_gen s' = window_gen s" "odd (window_gen s)" "current_ts s' \<noteq> 0"
  shows "pc_inv s' e pc"
  using assms by (cases pc) (auto simp: holds_gen_def)

lemma gen_up:
  assumes "unat (g :: u64) < 2 ^ 63"
  shows "g < g + 1" "g + 1 < g + 2" "unat (g + 1) = unat g + 1" "unat (g + 2) = unat g + 2"
proof -
  show u: "unat (g + 1) = unat g + 1" "unat (g + 2) = unat g + 2"
    using assms by (simp_all add: unat_word_ariths)
  show "g < g + 1" "g + 1 < g + 2" by (simp_all only: word_less_nat_alt u)
qed

lemma own_step_inv:
  assumes "scc_inv s e" "pc_inv s e pc" "scc_thread_step s e pc = (s', pc')"
  shows "pc_inv s' e pc'"
  using assms
  by (cases pc) (auto simp: scc_inv_def holds_gen_def writes_gen_def valid_ts_def odd_iff_mod Let_def split: if_splits)

lemma own_step_scc_inv:
  assumes "scc_inv s e" "pc_inv s e pc" "scc_thread_step s e pc = (s', pc')" "unat (window_gen s') < 2 ^ 63"
  shows "scc_inv s' e"
  using assms
  by (cases pc) (auto simp: scc_inv_def holds_gen_def writes_gen_def valid_ts_def Let_def split: if_splits)

lemma step_effect:
  assumes "scc_thread_step s e pc = (s', pc')"
  shows "window_gen s' = window_gen s \<and> current_ts s' = current_ts s \<or>
    (\<exists>now g n. pc = Claim now g n \<and> window_gen s = g \<and> s' = s\<lparr>window_gen := g + 1\<rparr>) \<or>
    (\<exists>now g n. pc = Store_Ts now g n \<and> s' = s\<lparr>current_ts := n\<rparr>) \<or>
    (\<exists>g n. pc = Publish g n \<and> s' = s\<lparr>window_gen := g + 2\<rparr>)"
proof (cases pc)
  case (Claim now g n)
  show ?thesis
  proof (cases "window_gen s = g")
    case True
    then have "s' = s\<lparr>window_gen := g + 1\<rparr>" using assms Claim by simp
    with Claim True show ?thesis by blast
  next
    case False
    then have "s' = s" using assms Claim by simp
    then show ?thesis by simp
  qed
next
  case (Store_Ts now g n)
  then have "s' = s\<lparr>current_ts := n\<rparr>" using assms by simp
  with Store_Ts show ?thesis by blast
next
  case (Publish g n)
  then have "s' = s\<lparr>window_gen := g + 2\<rparr>" using assms by simp
  with Publish show ?thesis by blast
next
  case (Enter now)
  then have "s' = s\<lparr>total_count := total_count s + 1\<rparr>" using assms by simp
  then show ?thesis by simp
next
  case (Count_Hit ts)
  then have "s' = s\<lparr>hit_count := hit_count s + 1\<rparr>" using assms by simp
  then show ?thesis by simp
next
  case (Store_W now g n w)
  then have "s' = s\<lparr>adaptive_w_ns := w\<rparr>" using assms by simp
  then show ?thesis by simp
next
  case (Store_Open now g n)
  then have "s' = s\<lparr>window_open_at := now\<rparr>" using assms by simp
  then show ?thesis by simp
qed (use assms in \<open>simp_all add: Let_def\<close>)

lemma step_changes:
  assumes "scc_thread_step s e pc = (s', pc')"
  obtains (kept) "window_gen s' = window_gen s" "current_ts s' = current_ts s"
  | (claims) now g n where "pc = Claim now g n" "window_gen s = g" "s' = s\<lparr>window_gen := g + 1\<rparr>"
  | (stores) now g n where "pc = Store_Ts now g n" "s' = s\<lparr>current_ts := n\<rparr>"
  | (publishes) g n where "pc = Publish g n" "s' = s\<lparr>window_gen := g + 2\<rparr>"
  using step_effect [OF assms]
proof (elim disjE exE conjE)
qed (rule kept claims stores publishes; assumption)+

lemma other_step_inv:
  assumes "scc_inv s e" "pc_inv s e pc" "pc_inv s e pc2" "claimed pc \<Longrightarrow> \<not> claimed pc2"
    and step: "scc_thread_step s e pc = (s', pc')"
  shows "pc_inv s' e pc2"
  using step
proof (cases rule: step_changes)
  case kept
  then show ?thesis using assms(3) pc_inv_cong [OF kept] by blast
next
  case (claims now g n)
  have "even g" using assms(2) claims(1) by (simp add: holds_gen_def)
  then have "\<not> claimed pc2" using claimed_odd [OF assms(3)] claims(2) by auto
  moreover have "g < g + 1" using assms(1) claims(2) by (intro gen_up) (simp add: scc_inv_def)
  ultimately show ?thesis using claims(2,3) by (intro pc_inv_gen_up [OF assms(3)]) simp_all
next
  case (stores now g n)
  then have "odd (window_gen s)" "n \<noteq> 0" "\<not> claimed pc2"
    using claimed_odd [OF assms(2)] assms(2,4) by (auto simp: valid_ts_def)
  then show ?thesis using stores(2) by (intro pc_inv_ts_stored [OF assms(3)]) simp_all
next
  case (publishes g n)
  then have g: "window_gen s = g + 1" "\<not> claimed pc2"
    using assms(2,4) by (auto simp: writes_gen_def)
  have "unat (g + 1) < 2 ^ 63" using assms(1) g(1) by (simp add: scc_inv_def)
  from gen_up(1) [OF this] have "g + 1 < g + 2" by (simp add: add.assoc)
  then show ?thesis using publishes(2) g by (intro pc_inv_gen_up [OF assms(3)]) simp_all
qed

lemma step_claims:
  assumes "pc_inv s e pc" "scc_thread_step s e pc = (s', pc')"
  shows "claimed pc' \<Longrightarrow> claimed pc \<or> even (window_gen s)"
proof (cases pc)
  case (Claim now g n)
  assume "claimed pc'"
  then have "window_gen s = g" using assms(2) Claim by (cases "window_gen s = g") auto
  then show ?thesis using assms(1) Claim by (simp add: holds_gen_def)
qed (use assms(2) in \<open>auto simp: Let_def split: if_splits\<close>)

lemma step_releases:
  assumes "pc_inv s e pc" "scc_thread_step s e pc = (s', pc')" "odd (window_gen s')"
  shows "claimed pc' \<or> odd (window_gen s) \<and> \<not> claimed pc"
proof (cases "claimed pc")
  case True
  show ?thesis
  proof (cases pc)
    case (Publish g n)
    then have "window_gen s' = g + 2" "even g" using assms(1,2) by (auto simp: writes_gen_def)
    then show ?thesis using assms(3) by simp
  qed (use True assms(2) in \<open>auto simp: Let_def split: if_splits\<close>)
next
  case False
  show ?thesis
    using assms(2)
  proof (cases rule: step_changes)
    case (claims now g n)
    then show ?thesis using assms(2) by auto
  qed (use False assms(3) in auto)
qed

lemma world_inv_start: "world_inv scc_world_new"
  by (simp add: world_inv_def parts_inv_def scc_world_new_def scc_inv_def scc_new_def)

lemma parts_inv_run:
  assumes inv: "parts_inv s e pcs" and step: "scc_thread_step s e (pcs i) = (s', pc')"
    and bound: "unat (window_gen s') < 2 ^ 63"
  shows "parts_inv s' e (pcs(i := pc'))"
proof -
  have s: "scc_inv s e" and p: "\<And>j. pc_inv s e (pcs j)"
    and u: "\<And>j k. claimed (pcs j) \<Longrightarrow> claimed (pcs k) \<Longrightarrow> j = k"
    and o: "odd (window_gen s) \<Longrightarrow> \<exists>j. claimed (pcs j)"
    using inv by (auto simp: parts_inv_def)
  have "pc_inv s' e (pcs j)" if "j \<noteq> i" for j
    using other_step_inv [OF s p p _ step] u that by blast
  then have "\<forall>j. pc_inv s' e ((pcs(i := pc')) j)"
    using own_step_inv [OF s p step] by simp
  moreover have fresh: "\<not> claimed (pcs j)" if "claimed pc'" "j \<noteq> i" for j
    using step_claims [OF p step] that u claimed_odd [OF p] by blast
  have "\<forall>j k. claimed ((pcs(i := pc')) j) \<longrightarrow> claimed ((pcs(i := pc')) k) \<longrightarrow> j = k"
    using fresh u by auto
  moreover have "odd (window_gen s') \<longrightarrow> (\<exists>j. claimed ((pcs(i := pc')) j))"
    using step_releases [OF p step] o by (metis fun_upd_apply)
  ultimately show ?thesis
    using own_step_scc_inv [OF s p step bound] unfolding parts_inv_def by blast
qed

text \<open>A thread that enters or leaves a call.\<close>

lemma parts_inv_pc:
  assumes "parts_inv s e pcs" "\<not> claimed (pcs i)" "\<not> claimed pc'" "pc_inv s e pc'"
  shows "parts_inv s e (pcs(i := pc'))"
proof -
  have iff: "claimed ((pcs(i := pc')) j) \<longleftrightarrow> claimed (pcs j)" for j
    using assms(2,3) by simp
  have "pc_inv s e (pcs j) \<Longrightarrow> pc_inv s e ((pcs(i := pc')) j)" for j
    using assms(4) by simp
  then show ?thesis using assms(1) unfolding parts_inv_def iff by blast
qed

lemma parts_inv_epoch:
  assumes "parts_inv s e pcs" "e \<noteq> u64_max"
  shows "parts_inv s (e + 1) pcs"
proof -
  have lt: "e < e + 1" using assms(2) unat_less_u64_max word_less_nat_alt [of e u64_max]
    by (simp add: word_less_nat_alt unat_word_ariths unsigned_minus_1_eq_mask mask_eq_exp_minus_1)
  then have "scc_inv s (e + 1)" using assms(1) by (auto simp: parts_inv_def scc_inv_def)
  moreover have "pc_inv s (e + 1) (pcs i)" for i
    using assms(1) lt by (auto simp: parts_inv_def intro: pc_inv_epoch)
  ultimately show ?thesis using assms(1) unfolding parts_inv_def by blast
qed

lemma parts_inv_latency:
  "parts_inv s e pcs \<Longrightarrow> parts_inv (s\<lparr>p99_ns := v\<rparr>) e pcs"
  by (simp add: parts_inv_def scc_inv_def pc_inv_cong [of "s\<lparr>p99_ns := v\<rparr>" s])

lemma world_inv_step:
  assumes "world_inv w" "scc_world_step w w'" "unat (window_gen (w_scc w')) < 2 ^ 63"
  shows "world_inv w'"
  using assms(2)
proof (cases rule: scc_world_step.cases)
  case (call i now)
  with parts_inv_pc [of "w_scc w" "w_epoch w" "w_pc w" i] assms(1) show ?thesis by (simp add: world_inv_def)
next
  case (run i s' pc')
  with parts_inv_run [OF assms(1) [unfolded world_inv_def] run(2)] assms(3) show ?thesis
    by (simp add: world_inv_def)
next
  case (ret i ts)
  with parts_inv_pc [of "w_scc w" "w_epoch w" "w_pc w" i] assms(1) show ?thesis by (simp add: world_inv_def)
next
  case tick
  with parts_inv_epoch assms(1) show ?thesis by (simp add: world_inv_def)
next
  case (latency v)
  with parts_inv_latency assms(1) show ?thesis by (simp add: world_inv_def)
qed

lemma reach_inv: "scc_reach w \<Longrightarrow> world_inv w"
  by (induction rule: scc_reach.induct) (auto intro: world_inv_start world_inv_step)

section \<open>A thread on its own\<close>

fun solo :: "nat \<Rightarrow> scc \<Rightarrow> u64 \<Rightarrow> scc_pc \<Rightarrow> scc \<times> scc_pc" where
  "solo 0 s e pc = (s, pc)"
| "solo (Suc n) s e pc = (case scc_thread_step s e pc of (s', pc') \<Rightarrow> solo n s' e pc')"

lemma solo_Done [simp]: "solo n s e (Done ts) = (s, Done ts)"
  by (induction n) simp_all

lemma solo_add: "solo (m + n) s e pc = (case solo m s e pc of (s', pc') \<Rightarrow> solo n s' e pc')"
  by (induction m arbitrary: s pc) (simp_all split: prod.splits)

lemma solo_steps:
  assumes "solo n (w_scc w) (w_epoch w) (w_pc w i) = (s', pc')"
  shows "scc_world_step\<^sup>*\<^sup>* w (w\<lparr>w_scc := s', w_pc := (w_pc w)(i := pc')\<rparr>)"
  using assms
proof (induction n arbitrary: w)
  case 0
  then have "s' = w_scc w" "pc' = w_pc w i" by simp_all
  moreover have "(w_pc w)(i := w_pc w i) = w_pc w" by (rule fun_upd_triv)
  ultimately have "w\<lparr>w_scc := s', w_pc := (w_pc w)(i := pc')\<rparr> = w" by simp
  then show ?case by (simp only: rtranclp.rtrancl_refl)
next
  case (Suc n)
  obtain s1 pc1 where st: "scc_thread_step (w_scc w) (w_epoch w) (w_pc w i) = (s1, pc1)" by fastforce
  define w1 where "w1 = w\<lparr>w_scc := s1, w_pc := (w_pc w)(i := pc1)\<rparr>"
  have "scc_world_step w w1" unfolding w1_def by (rule run [OF st])
  moreover have "scc_world_step\<^sup>*\<^sup>* w1 (w1\<lparr>w_scc := s', w_pc := (w_pc w1)(i := pc')\<rparr>)"
    by (rule Suc.IH) (use Suc.prems st in \<open>simp add: w1_def\<close>)
  moreover have "w1\<lparr>w_scc := s', w_pc := (w_pc w1)(i := pc')\<rparr> = w\<lparr>w_scc := s', w_pc := (w_pc w)(i := pc')\<rparr>"
    unfolding w1_def by simp
  ultimately show ?case by (metis converse_rtranclp_into_rtranclp)
qed

text \<open>The writer finishes its window in at most seven accesses.\<close>

lemma solo_claimed:
  assumes "pc_inv s e pc" "claimed pc"
  shows "\<exists>s' ts. solo 7 s e pc = (s', Done ts) \<and> even (window_gen s')"
proof -
  have n: "(7 :: nat) = Suc (Suc (Suc (Suc (Suc (Suc (Suc 0))))))" by simp
  show ?thesis
    using assms unfolding n by (cases pc) (auto simp: writes_gen_def Let_def)
qed

text \<open>From the top of the loop, and from the call, with an even generation.\<close>

lemma solo_loop:
  assumes "even (window_gen s)"
  shows "solo 13 s e (Load_Gen now) =
    (if coalesces s now then (s\<lparr>hit_count := hit_count s + 1\<rparr>, Done (current_ts s))
     else (open_window s (window_gen s) now e, Done e))"
proof -
  have n: "(13 :: nat) = Suc (Suc (Suc (Suc (Suc (Suc (Suc (Suc (Suc (Suc (Suc (Suc (Suc 0))))))))))))" by simp
  have "window_gen s mod 2 \<noteq> 1" using assms by (simp add: odd_iff_mod)
  then show ?thesis
    unfolding n by (simp add: coalesces_def open_window_def hit_rate_def Let_def)
qed

lemma solo_refines_sequential:
  assumes "even (window_gen s)"
  shows "solo 14 s e (Enter now) =
    (case scc_take_snapshot s now e of Some (ts, s') \<Rightarrow> (s', Done ts))"
proof -
  have n: "(14 :: nat) = Suc 13" by simp
  show ?thesis
    unfolding n solo.simps(2) take_snapshot_even [OF assms] using assms
    by (simp add: solo_loop Let_def coalesces_def)
qed

text \<open>From any control point of a call with an even generation, where nobody has claimed it.\<close>

lemma solo_finishes:
  assumes "even (window_gen s)" "pc \<noteq> Idle" "\<not> claimed pc"
  shows "\<exists>n s' ts. solo n s e pc = (s', Done ts)"
proof -
  have top: "\<exists>n s' ts. solo n s e (Load_Gen now) = (s', Done ts)" if "even (window_gen s)" for s now
    using solo_loop [OF that] by (metis (full_types))
  have Suc: "\<exists>n s' ts. solo n s e pc = (s', Done ts)"
    if "scc_thread_step s e pc = (s1, pc1)" "\<exists>n s' ts. solo n s1 e pc1 = (s', Done ts)" for s pc s1 pc1
    using that by (metis case_prod_conv solo.simps(2))
  have claim: "\<exists>n s' ts. solo n s e (Claim now g t) = (s', Done ts)" if "even (window_gen s)" for s now g t
  proof (cases "window_gen s = g")
    case False
    then show ?thesis by (intro Suc [OF _ top [OF that]]) simp
  next
    case True
    have n: "(8 :: nat) = Suc (Suc (Suc (Suc (Suc (Suc (Suc (Suc 0)))))))" by simp
    from True have "\<exists>s' ts. solo 8 s e (Claim now g t) = (s', Done ts)"
      unfolding n by (auto simp: Let_def)
    then show ?thesis by blast
  qed
  have epoch: "\<exists>n s' ts. solo n s e (Load_Epoch now g) = (s', Done ts)" if "even (window_gen s)" for s now g
    by (rule Suc [OF _ claim [OF that]]) simp
  have hit: "\<exists>n s' ts. solo n s e (Count_Hit t) = (s', Done ts)" for s t
    by (rule exI [of _ 1]) simp
  have w: "\<exists>n s' ts. solo n s e (Load_W now g t op) = (s', Done ts)" if "even (window_gen s)" for s now g t op
    using Suc [of s "Load_W now g t op"] hit epoch [OF that] by (simp add: Let_def split: if_splits)
  have op: "\<exists>n s' ts. solo n s e (Load_Open now g t) = (s', Done ts)" if "even (window_gen s)" for s now g t
    by (rule Suc [OF _ w [OF that]]) simp
  have ts: "\<exists>n s' ts. solo n s e (Load_Ts now g) = (s', Done ts)" if "even (window_gen s)" for s now g
    by (rule Suc [OF _ op [OF that]]) simp
  have enter: "\<exists>n s' ts. solo n s e (Enter now) = (s', Done ts)" if "even (window_gen s)" for s now
    using Suc [of s "Enter now" "s\<lparr>total_count := total_count s + 1\<rparr>" "Load_Gen now"]
      top [of "s\<lparr>total_count := total_count s + 1\<rparr>" now] that by simp
  show ?thesis
  proof (cases pc)
    case (Done t)
    then show ?thesis by (intro exI [of _ 0]) simp
  qed (use assms top claim epoch hit w op ts enter in auto)
qed

section \<open>Properties\<close>

text \<open>Mutual exclusion of the window: in every reachable state the generation is odd exactly when one
  thread, and only one, is between claiming a window and publishing it.\<close>

theorem scc_single_writer:
  assumes "scc_reach w"
  shows "odd (window_gen (w_scc w)) \<longleftrightarrow> (\<exists>!i. claimed (w_pc w i))"
proof -
  note inv = reach_inv [OF assms, unfolded world_inv_def parts_inv_def]
  have "odd (window_gen (w_scc w))" if "claimed (w_pc w i)" for i
    using inv that claimed_odd by blast
  then show ?thesis using inv by blast
qed

lemma reach_call:
  assumes "scc_reach w" "w_pc w i = Idle"
  shows "scc_reach (w\<lparr>w_pc := (w_pc w)(i := Enter now)\<rparr>)"
  using reach_inv [OF assms(1)]
  by (intro step [OF assms(1) call [OF assms(2)]]) (simp add: world_inv_def parts_inv_def scc_inv_def)

lemma reach_run:
  assumes "scc_reach w" "scc_thread_step (w_scc w) (w_epoch w) (w_pc w i) = (s', pc')"
    and "unat (window_gen s') < 2 ^ 63"
  shows "scc_reach (w\<lparr>w_scc := s', w_pc := (w_pc w)(i := pc')\<rparr>)"
  by (rule step [OF assms(1) run [OF assms(2)]]) (use assms(3) in simp)

lemma step_gen:
  assumes "scc_inv s e" "pc_inv s e pc" "scc_thread_step s e pc = (s', pc')"
  shows "unat (window_gen s') \<le> unat (window_gen s) + 1"
  using assms(3)
proof (cases rule: step_changes)
  case (claims now g n)
  then show ?thesis using gen_up(3) [of g] assms(1) by (simp add: scc_inv_def)
next
  case (publishes g n)
  then have g: "window_gen s = g + 1" using assms(2) by (simp add: writes_gen_def)
  have "unat (g + 1) < 2 ^ 63" using assms(1) g by (simp add: scc_inv_def)
  from gen_up(3) [OF this] show ?thesis using publishes(2) g by (simp add: add.assoc)
qed simp_all

text \<open>Running one thread alone stays among the reachable states.\<close>

lemma reach_solo:
  assumes "scc_reach w" "solo n (w_scc w) (w_epoch w) (w_pc w i) = (s', pc')"
    and "unat (window_gen (w_scc w)) + n < 2 ^ 63"
  shows "scc_reach (w\<lparr>w_scc := s', w_pc := (w_pc w)(i := pc')\<rparr>)"
  using assms
proof (induction n arbitrary: w)
  case 0
  then have "s' = w_scc w" "pc' = w_pc w i" by simp_all
  moreover have "(w_pc w)(i := w_pc w i) = w_pc w" by (rule fun_upd_triv)
  ultimately have "w\<lparr>w_scc := s', w_pc := (w_pc w)(i := pc')\<rparr> = w" by simp
  with 0(1) show ?case by (simp only:)
next
  case (Suc n)
  obtain s1 pc1 where st: "scc_thread_step (w_scc w) (w_epoch w) (w_pc w i) = (s1, pc1)" by fastforce
  define w1 where "w1 = w\<lparr>w_scc := s1, w_pc := (w_pc w)(i := pc1)\<rparr>"
  have inv: "scc_inv (w_scc w) (w_epoch w)" "pc_inv (w_scc w) (w_epoch w) (w_pc w i)"
    using reach_inv [OF Suc.prems(1)] by (simp_all add: world_inv_def parts_inv_def)
  have g: "unat (window_gen s1) \<le> unat (window_gen (w_scc w)) + 1"
    by (rule step_gen [OF inv st])
  then have "scc_reach w1" unfolding w1_def using Suc.prems(3) by (intro reach_run [OF Suc.prems(1) st]) simp
  then have "scc_reach (w1\<lparr>w_scc := s', w_pc := (w_pc w1)(i := pc')\<rparr>)"
    using Suc.prems(2,3) st g by (intro Suc.IH) (simp_all add: w1_def)
  moreover have "w1\<lparr>w_scc := s', w_pc := (w_pc w1)(i := pc')\<rparr> = w\<lparr>w_scc := s', w_pc := (w_pc w)(i := pc')\<rparr>"
    unfolding w1_def by simp
  ultimately show ?case by (simp only:)
qed

definition first_call :: scc_world where
  "first_call = scc_world_new\<lparr>w_pc := (\<lambda>_. Idle)(0 := Enter 0)\<rparr>"

lemma first_call_reach: "scc_reach first_call"
  using reach_call [OF scc_reach.start, of 0 0] by (simp add: first_call_def scc_world_new_def)

lemma first_call_solo: "solo 14 (w_scc first_call) (w_epoch first_call) (w_pc first_call 0)
  = (open_window (scc_new\<lparr>total_count := 1\<rparr>) 0 0 1, Done 1)"
proof -
  have "even (window_gen scc_new)" by (simp add: scc_new_def)
  from solo_refines_sequential [OF this, of 1 0] show ?thesis
    by (simp add: first_call_def scc_world_new_def take_snapshot_even Let_def scc_new_def coalesces_def)
qed

theorem scc_single_writer_witness:
  "odd (window_gen (w_scc first_call)) \<longleftrightarrow> (\<exists>!i. claimed (w_pc first_call i))"
  by (rule scc_single_writer [OF first_call_reach])

text \<open>Nothing torn is returned: whatever the interleaving, a call returns a timestamp other than zero
  that the global epoch has reached.\<close>

theorem scc_returns_past_epoch:
  assumes "scc_reach w" "w_pc w i = Done ts"
  shows "ts \<noteq> 0 \<and> ts \<le> w_epoch w"
proof -
  have "pc_inv (w_scc w) (w_epoch w) (w_pc w i)"
    using reach_inv [OF assms(1)] by (simp add: world_inv_def parts_inv_def)
  with assms(2) show ?thesis by (simp add: valid_ts_def)
qed

definition first_done :: scc_world where
  "first_done = first_call\<lparr>w_scc := open_window (scc_new\<lparr>total_count := 1\<rparr>) 0 0 1,
     w_pc := (w_pc first_call)(0 := Done 1)\<rparr>"

lemma first_done_reach: "scc_reach first_done"
  unfolding first_done_def
  by (rule reach_solo [OF first_call_reach first_call_solo]) (simp add: first_call_def scc_world_new_def scc_new_def)

theorem scc_returns_past_epoch_witness: "(1 :: u64) \<noteq> 0 \<and> 1 \<le> w_epoch first_done"
  by (rule scc_returns_past_epoch [OF first_done_reach, of 0]) (simp add: first_done_def)

text \<open>Windows never move back: no step of any thread lowers the timestamp that coalesced snapshots
  are given.\<close>

theorem scc_windows_monotone:
  assumes "scc_reach w" "scc_world_step w w'"
  shows "current_ts (w_scc w) \<le> current_ts (w_scc w')"
  using assms(2)
proof (cases rule: scc_world_step.cases)
  case (run i s' pc')
  have inv: "pc_inv (w_scc w) (w_epoch w) (w_pc w i)"
    using reach_inv [OF assms(1)] by (simp add: world_inv_def parts_inv_def)
  from run(2) show ?thesis
  proof (cases rule: step_changes)
    case (stores now g n)
    then show ?thesis using inv run(1) by simp
  qed (use run(1) in simp_all)
qed simp_all

theorem scc_windows_monotone_witness:
  "\<exists>w'. scc_world_step first_done w' \<and> current_ts (w_scc first_done) \<le> current_ts (w_scc w')"
proof -
  have "w_pc first_done 0 = Done 1" by (simp add: first_done_def)
  then have s: "scc_world_step first_done (first_done\<lparr>w_pc := (w_pc first_done)(0 := Idle)\<rparr>)"
    by (rule ret)
  with scc_windows_monotone [OF first_done_reach s] show ?thesis by blast
qed

text \<open>No call is stuck for good: from every reachable state, and whatever point a call has reached,
  some continuation lets it return. A thread that waits on an odd generation waits for a writer
  whose remaining accesses never wait.\<close>

theorem scc_calls_can_return:
  assumes "scc_reach w" "w_pc w i \<noteq> Idle"
  shows "\<exists>w' ts. scc_world_step\<^sup>*\<^sup>* w w' \<and> w_pc w' i = Done ts"
proof (cases "odd (window_gen (w_scc w))")
  case False
  have "pc_inv (w_scc w) (w_epoch w) (w_pc w i)"
    using reach_inv [OF assms(1)] by (simp add: world_inv_def parts_inv_def)
  then have "\<not> claimed (w_pc w i)" using claimed_odd False by blast
  with False assms(2) obtain n s' ts where
    "solo n (w_scc w) (w_epoch w) (w_pc w i) = (s', Done ts)"
    using solo_finishes by blast
  from solo_steps [OF this] show ?thesis by fastforce
next
  case True
  note inv = reach_inv [OF assms(1), unfolded world_inv_def parts_inv_def]
  then obtain j where j: "claimed (w_pc w j)" using True by blast
  have pj: "pc_inv (w_scc w) (w_epoch w) (w_pc w j)" using inv by blast
  obtain s1 ts1 where s1: "solo 7 (w_scc w) (w_epoch w) (w_pc w j) = (s1, Done ts1)" "even (window_gen s1)"
    using solo_claimed [OF pj j] by blast
  define w1 where "w1 = w\<lparr>w_scc := s1, w_pc := (w_pc w)(j := Done ts1)\<rparr>"
  have st: "scc_world_step\<^sup>*\<^sup>* w w1" unfolding w1_def by (rule solo_steps [OF s1(1)])
  show ?thesis
  proof (cases "i = j")
    case True
    then show ?thesis using st by (intro exI [of _ w1] exI [of _ ts1]) (simp add: w1_def)
  next
    case False
    have "\<not> claimed (w_pc w i)" using inv j False by blast
    then obtain n s' ts where d: "solo n (w_scc w1) (w_epoch w1) (w_pc w1 i) = (s', Done ts)"
      using solo_finishes [OF s1(2) assms(2), of "w_epoch w"] False by (auto simp: w1_def)
    define w2 where "w2 = w1\<lparr>w_scc := s', w_pc := (w_pc w1)(i := Done ts)\<rparr>"
    have "scc_world_step\<^sup>*\<^sup>* w w2" unfolding w2_def using st solo_steps [OF d] by (rule rtranclp_trans)
    then show ?thesis by (intro exI [of _ w2] exI [of _ ts]) (simp add: w2_def)
  qed
qed

theorem scc_calls_can_return_witness:
  "\<exists>w' ts. scc_world_step\<^sup>*\<^sup>* first_call w' \<and> w_pc w' 0 = Done ts"
  by (rule scc_calls_can_return [OF first_call_reach]) (simp add: first_call_def)

text \<open>The steps refine the function: a thread that runs a call alone, from an even generation, performs
  exactly the state change of the sequential \<open>take_snapshot\<close> and returns its timestamp.\<close>

theorem scc_solo_is_sequential:
  assumes "even (window_gen s)"
  shows "\<exists>ts s'. scc_take_snapshot s now e = Some (ts, s') \<and> solo 14 s e (Enter now) = (s', Done ts)"
  using solo_refines_sequential [OF assms, of e now] take_snapshot_even [OF assms, of now e]
  by (auto simp: Let_def split: if_splits)

theorem scc_solo_is_sequential_witness:
  "\<exists>s'. solo 14 scc_new 3 (Enter 50) = (s', Done 3)"
proof -
  have "even (window_gen scc_new)" by (simp add: scc_new_def)
  from scc_solo_is_sequential [OF this, of 50 3] take_snapshot_even [OF this, of 50 3]
  show ?thesis by (auto simp: Let_def)
qed

text \<open>The execution that mixes two windows. Thread 0 opens a window at time 0 with timestamp 1 and
  returns; the epoch advances to 2. A second later thread 0 calls again and loads generation and
  timestamp of the old window. Thread 1 then opens a new window. Thread 0 goes on to load the
  opening time, of the new window, finds it recent, and returns the old timestamp.\<close>

definition late :: u64 where "late = 1000000000"

definition before_late_call :: scc_world where
  "before_late_call = \<lparr>w_scc = open_window (scc_new\<lparr>total_count := 1\<rparr>) 0 0 1, w_epoch = 2,
     w_pc = (\<lambda>_. Idle)(0 := Enter late)\<rparr>"

lemma old_window:
  "window_gen (w_scc before_late_call) = 2" "current_ts (w_scc before_late_call) = 1"
  "window_open_at (w_scc before_late_call) = 0" "adaptive_w_ns (w_scc before_late_call) \<le> SCC_MAX_WINDOW_NS"
  using open_window_ok [of 0 "scc_new\<lparr>total_count := 1\<rparr>" 0 1]
  by (simp_all add: before_late_call_def open_window_fields scc_ok_def)

lemma old_window_expired: "\<not> coalesces (w_scc before_late_call) late"
  using old_window(4) by (simp add: coalesces_def old_window(3) late_def saturating_sub_def SCC_MAX_WINDOW_NS_def)
    (simp add: word_le_nat_alt word_less_nat_alt)

lemma before_late_call_reached: "scc_world_step\<^sup>*\<^sup>* scc_world_new before_late_call"
proof -
  have a: "scc_world_step scc_world_new first_call"
    using call [of scc_world_new 0 0] by (simp add: first_call_def scc_world_new_def)
  have b: "scc_world_step\<^sup>*\<^sup>* first_call first_done"
    unfolding first_done_def by (rule solo_steps [OF first_call_solo])
  define w1 where "w1 = first_done\<lparr>w_pc := (w_pc first_done)(0 := Idle)\<rparr>"
  have c: "scc_world_step first_done w1" unfolding w1_def by (rule ret) (simp add: first_done_def)
  define w2 where "w2 = w1\<lparr>w_epoch := w_epoch w1 + 1\<rparr>"
  have d: "scc_world_step w1 w2"
    unfolding w2_def by (rule tick) (simp add: w1_def first_done_def first_call_def scc_world_new_def)
  define w3 where "w3 = w2\<lparr>w_pc := (w_pc w2)(0 := Enter late)\<rparr>"
  have e: "scc_world_step w2 w3" unfolding w3_def by (rule call) (simp add: w2_def w1_def)
  have "w3 = before_late_call"
    by (simp add: w3_def w2_def w1_def first_done_def first_call_def scc_world_new_def before_late_call_def)
  then show ?thesis using a b c d e by (metis (no_types, lifting) converse_rtranclp_into_rtranclp rtranclp.rtrancl_into_rtrancl)
qed

text \<open>C32: A call can return the timestamp of a window that had expired long before the call began: the
  generation is not read again after the window's data, so timestamp and opening time may come
  from different windows, and the bound on staleness of the sequential function is lost.\<close>

theorem scc_mixes_windows:
  "\<exists>w'. scc_world_step\<^sup>*\<^sup>* scc_world_new before_late_call \<and> w_pc before_late_call 0 = Enter late \<and>
     \<not> coalesces (w_scc before_late_call) late \<and>
     scc_world_step\<^sup>*\<^sup>* before_late_call w' \<and> w_pc w' 0 = Done 1 \<and> current_ts (w_scc w') = 2"
proof -
  define w where "w = before_late_call"
  define s where "s = (w_scc w)\<lparr>total_count := total_count (w_scc w) + 1\<rparr>"
  have ws: "w_epoch w = 2" "w_pc w = (\<lambda>_. Idle)(0 := Enter late)"
    by (simp_all add: w_def before_late_call_def)
  have g: "window_gen s = 2" "current_ts s = 1" using old_window by (simp_all add: s_def w_def)
  have three: "(3 :: nat) = Suc (Suc (Suc 0))" by simp
  have a: "solo 3 (w_scc w) (w_epoch w) (w_pc w 0) = (s, Load_Open late 2 1)"
    unfolding three using old_window [folded w_def] by (simp add: ws s_def odd_iff_mod Let_def)
  define w1 where "w1 = w\<lparr>w_scc := s, w_pc := (w_pc w)(0 := Load_Open late 2 1)\<rparr>"
  have ra: "scc_world_step\<^sup>*\<^sup>* w w1" unfolding w1_def by (rule solo_steps [OF a])
  define w2 where "w2 = w1\<lparr>w_pc := (w_pc w1)(1 := Enter late)\<rparr>"
  have rb: "scc_world_step w1 w2" unfolding w2_def by (rule call) (simp add: w1_def ws)
  define s2 where "s2 = open_window (s\<lparr>total_count := total_count s + 1\<rparr>) 2 late 2"
  have "even (window_gen s)" by (simp add: g)
  moreover have "\<not> coalesces s late"
    using old_window_expired by (simp add: coalesces_def s_def w_def)
  ultimately have "solo 14 s 2 (Enter late) = (s2, Done 2)"
    using solo_refines_sequential [of s 2 late] by (simp add: take_snapshot_even Let_def s2_def g)
  then have c: "solo 14 (w_scc w2) (w_epoch w2) (w_pc w2 1) = (s2, Done 2)"
    by (simp add: w2_def w1_def ws)
  define w3 where "w3 = w2\<lparr>w_scc := s2, w_pc := (w_pc w2)(1 := Done 2)\<rparr>"
  have rc: "scc_world_step\<^sup>*\<^sup>* w2 w3" unfolding w3_def by (rule solo_steps [OF c])
  have s2: "window_open_at s2 = late" "current_ts s2 = 2" "0 < adaptive_w_ns s2"
  proof -
    have "SCC_MIN_WINDOW_NS \<le> adaptive_w_ns s2"
      using open_window_ok [of 2] by (simp add: s2_def scc_ok_def)
    then show "0 < adaptive_w_ns s2" by (simp add: SCC_MIN_WINDOW_NS_def word_le_nat_alt word_less_nat_alt)
  qed (simp_all add: s2_def open_window_fields)
  have d: "solo 3 (w_scc w3) (w_epoch w3) (w_pc w3 0) = (s2\<lparr>hit_count := hit_count s2 + 1\<rparr>, Done 1)"
    unfolding three using s2 by (simp add: w3_def w2_def w1_def)
  define w4 where "w4 = w3\<lparr>w_scc := s2\<lparr>hit_count := hit_count s2 + 1\<rparr>, w_pc := (w_pc w3)(0 := Done 1)\<rparr>"
  have rd: "scc_world_step\<^sup>*\<^sup>* w3 w4" unfolding w4_def by (rule solo_steps [OF d])
  have "scc_world_step\<^sup>*\<^sup>* w w4"
    using ra rb rc rd by (meson rtranclp.rtrancl_into_rtrancl rtranclp_trans)
  moreover have "w_pc w4 0 = Done 1" "current_ts (w_scc w4) = 2" using s2(2) by (simp_all add: w4_def)
  ultimately show ?thesis
    using before_late_call_reached old_window_expired ws(2) unfolding w_def by (intro exI [of _ w4]) simp
qed

end
