(* ===== verification/Epoch_Steps.thy ===== *)
theory Epoch_Steps
  imports Pacer_State
begin

text \<open>
  The global epoch under interleaving. Two operations of \<open>src/src/lib.rs\<close> move it:
  \<open>try_advance_epoch\<close>, a load followed by a compare-exchange, and the \<open>fetch_add\<close> of
  \<open>write_op_prepare\<close>, which also draws the timestamp of a write. Every access is one step of a
  thread; a schedule lists the steps of all threads in any order. The theory shows that no update
  is lost, that no two writes draw the same timestamp, and when a compare-exchange fails.
\<close>

section \<open>Threads\<close>

datatype epoch_pc =
    Resting
  | Load_Cur
  | Exchange u64
  | Fetch_Add
  | Advance_Done bool
  | Stamp_Done u64

text \<open>The epoch and the control point of a thread before and after its next access.\<close>

fun epoch_thread_step :: "u64 \<Rightarrow> epoch_pc \<Rightarrow> u64 \<times> epoch_pc" where
  "epoch_thread_step e Load_Cur = (e, Exchange e)"
| "epoch_thread_step e (Exchange cur) =
     (if e = cur then (cur + 1, Advance_Done True) else (e, Advance_Done False))"
| "epoch_thread_step e Fetch_Add = (e + 1, Stamp_Done e)"
| "epoch_thread_step e pc = (e, pc)"

section \<open>Schedules\<close>

text \<open>The last two fields record what has happened: the number of successful advances, and the
  timestamps drawn, the latest first.\<close>

record epoch_world =
  e_val :: u64
  e_pc :: "nat \<Rightarrow> epoch_pc"
  e_oks :: nat
  e_stamps :: "u64 list"

datatype epoch_action = Call_Advance nat | Call_Stamp nat | Access nat | Return nat

fun action_thread :: "epoch_action \<Rightarrow> nat" where
  "action_thread (Call_Advance i) = i"
| "action_thread (Call_Stamp i) = i"
| "action_thread (Access i) = i"
| "action_thread (Return i) = i"

text \<open>An action that is not enabled does nothing.\<close>

fun log_access :: "epoch_pc \<Rightarrow> epoch_pc \<Rightarrow> epoch_world \<Rightarrow> epoch_world" where
  "log_access (Exchange cur) (Advance_Done True) w = w\<lparr>e_oks := e_oks w + 1\<rparr>"
| "log_access Fetch_Add (Stamp_Done ts) w = w\<lparr>e_stamps := ts # e_stamps w\<rparr>"
| "log_access _ _ w = w"

fun epoch_act :: "epoch_action \<Rightarrow> epoch_world \<Rightarrow> epoch_world" where
  "epoch_act (Call_Advance i) w = (if e_pc w i = Resting then w\<lparr>e_pc := (e_pc w)(i := Load_Cur)\<rparr> else w)"
| "epoch_act (Call_Stamp i) w = (if e_pc w i = Resting then w\<lparr>e_pc := (e_pc w)(i := Fetch_Add)\<rparr> else w)"
| "epoch_act (Access i) w =
     (let (e', pc') = epoch_thread_step (e_val w) (e_pc w i)
      in log_access (e_pc w i) pc' (w\<lparr>e_val := e', e_pc := (e_pc w)(i := pc')\<rparr>))"
| "epoch_act (Return i) w =
     (case e_pc w i of
        Advance_Done b \<Rightarrow> w\<lparr>e_pc := (e_pc w)(i := Resting)\<rparr>
      | Stamp_Done ts \<Rightarrow> w\<lparr>e_pc := (e_pc w)(i := Resting)\<rparr>
      | _ \<Rightarrow> w)"

definition epoch_run :: "epoch_action list \<Rightarrow> epoch_world \<Rightarrow> epoch_world" where
  "epoch_run = fold epoch_act"

definition epoch_world_at :: "u64 \<Rightarrow> epoch_world" where
  "epoch_world_at e = \<lparr>e_val = e, e_pc = (\<lambda>_. Resting), e_oks = 0, e_stamps = []\<rparr>"

text \<open>How often the epoch has moved.\<close>

definition moves :: "epoch_world \<Rightarrow> nat" where
  "moves w = e_oks w + length (e_stamps w)"

lemma epoch_run_simps [simp]:
  "epoch_run [] w = w"
  "epoch_run (a # as) w = epoch_run as (epoch_act a w)"
  by (simp_all add: epoch_run_def)

section \<open>One action\<close>

text \<open>An action leaves the epoch and the record alone, or moves the epoch by one and is recorded.\<close>

lemma epoch_act_effect:
  obtains (stays) "e_val (epoch_act a w) = e_val w" "e_oks (epoch_act a w) = e_oks w"
      "e_stamps (epoch_act a w) = e_stamps w"
  | (advances) "e_val (epoch_act a w) = e_val w + 1" "e_oks (epoch_act a w) = e_oks w + 1"
      "e_stamps (epoch_act a w) = e_stamps w"
  | (stamps) "e_val (epoch_act a w) = e_val w + 1" "e_oks (epoch_act a w) = e_oks w"
      "e_stamps (epoch_act a w) = e_val w # e_stamps w"
proof (cases a)
  case (Access i)
  show ?thesis
  proof (cases "e_pc w i")
    case (Exchange cur)
    with Access show ?thesis by (cases "e_val w = cur") (auto intro: stays advances)
  qed (use Access in \<open>auto intro: stays stamps\<close>)
next
  case (Return i)
  then show ?thesis by (cases "e_pc w i") (auto intro: stays)
qed (auto intro: stays)

lemma epoch_act_other: "action_thread a \<noteq> i \<Longrightarrow> e_pc (epoch_act a w) i = e_pc w i"
proof (cases a)
  case (Access j)
  moreover assume "action_thread a \<noteq> i"
  ultimately show ?thesis by (cases "e_pc w j") auto
next
  case (Return j)
  moreover assume "action_thread a \<noteq> i"
  ultimately show ?thesis by (cases "e_pc w j") auto
qed auto

lemma moves_mono_act: "moves w \<le> moves (epoch_act a w)"
  by (cases rule: epoch_act_effect [of a w]) (simp_all add: moves_def)

lemma moves_mono: "moves w \<le> moves (epoch_run as w)"
  by (induction as arbitrary: w) (auto intro: order.trans moves_mono_act)

lemma epoch_run_val: "e_val (epoch_run as w) = e_val w + of_nat (moves (epoch_run as w) - moves w)"
proof (induction as arbitrary: w)
  case (Cons a as)
  let ?w = "epoch_act a w"
  have m: "moves ?w \<le> moves (epoch_run as ?w)" by (rule moves_mono)
  show ?case
  proof (cases rule: epoch_act_effect [of a w])
    case stays
    then have "moves ?w = moves w" by (simp add: moves_def)
    with Cons [of ?w] stays show ?thesis by simp
  next
    case advances
    then have "moves ?w = Suc (moves w)" by (simp add: moves_def)
    with m have "moves (epoch_run as ?w) - moves w = Suc (moves (epoch_run as ?w) - moves ?w)" by simp
    with Cons [of ?w] advances show ?thesis by simp
  next
    case stamps
    then have "moves ?w = Suc (moves w)" by (simp add: moves_def)
    with m have "moves (epoch_run as ?w) - moves w = Suc (moves (epoch_run as ?w) - moves ?w)" by simp
    with Cons [of ?w] stamps show ?thesis by simp
  qed
qed simp

text \<open>The timestamps drawn so far lie below the epoch, in the order they were drawn.\<close>

definition stamps_ok :: "u64 \<Rightarrow> epoch_world \<Rightarrow> bool" where
  "stamps_ok e0 w \<longleftrightarrow> sorted_wrt (>) (e_stamps w) \<and> (\<forall>ts \<in> set (e_stamps w). e0 \<le> ts \<and> ts < e_val w) \<and>
     e0 \<le> e_val w"

lemma stamps_ok_act:
  assumes "stamps_ok e0 w" "e_val w < u64_max"
  shows "stamps_ok e0 (epoch_act a w)"
proof -
  have "unat (e_val w) + 1 < 2 ^ 64" using assms(2) unat_u64_less [of u64_max] by (simp add: word_less_nat_alt)
  then have up: "e_val w < e_val w + 1" by (simp add: word_less_nat_alt unat_word_ariths)
  show ?thesis
  proof (cases rule: epoch_act_effect [of a w])
    case stays
    with assms(1) show ?thesis by (simp add: stamps_ok_def)
  next
    case advances
    with assms(1) up show ?thesis by (auto simp: stamps_ok_def intro: less_trans order.trans less_imp_le)
  next
    case stamps
    with assms(1) up show ?thesis by (auto simp: stamps_ok_def intro: less_trans order.trans less_imp_le)
  qed
qed

lemma epoch_val_bound:
  assumes "unat (e_val w) + (moves (epoch_run as w) - moves w) < 2 ^ 64"
  shows "unat (e_val (epoch_run as w)) = unat (e_val w) + (moves (epoch_run as w) - moves w)"
  using assms by (simp add: epoch_run_val [of as w] unat_word_ariths unat_of_nat take_bit_eq_mod)

lemma stamps_ok_run:
  assumes "stamps_ok e0 w" "unat (e_val w) + (moves (epoch_run as w) - moves w) < 2 ^ 64 - 1"
  shows "stamps_ok e0 (epoch_run as w)"
  using assms
proof (induction as arbitrary: w)
  case (Cons a as)
  let ?w = "epoch_act a w"
  have "unat (e_val w) < 2 ^ 64 - 1" using Cons.prems(2) by simp
  then have "e_val w < u64_max" by (simp add: word_less_nat_alt unsigned_minus_1_eq_mask mask_eq_exp_minus_1)
  from stamps_ok_act [OF Cons.prems(1) this] have s: "stamps_ok e0 ?w" .
  have m: "moves w \<le> moves ?w" "moves ?w \<le> moves (epoch_run as ?w)" by (rule moves_mono_act moves_mono)+
  then have "unat (e_val (epoch_run [a] w)) = unat (e_val w) + (moves (epoch_run [a] w) - moves w)"
    using Cons.prems(2) by (intro epoch_val_bound) simp
  with m Cons.prems(2) have "unat (e_val ?w) + (moves (epoch_run as ?w) - moves ?w) < 2 ^ 64 - 1" by simp
  from Cons.IH [OF s this] show ?case by simp
qed simp

section \<open>Properties\<close>

text \<open>No update is lost. However the accesses of any number of threads interleave, the epoch is its
  initial value plus the number of advances that reported success plus the number of timestamps
  drawn, modulo the width of the counter.\<close>

theorem epoch_moves_account:
  "e_val (epoch_run as (epoch_world_at e0)) =
     e0 + of_nat (e_oks (epoch_run as (epoch_world_at e0)) + length (e_stamps (epoch_run as (epoch_world_at e0))))"
  using epoch_run_val [of as "epoch_world_at e0"] by (simp add: moves_def epoch_world_at_def)

text \<open>Timestamps are unique and ordered. As long as the counter does not wrap, every write draws a
  timestamp strictly above all drawn before it, whatever advances come between.\<close>

theorem write_stamps_increase:
  assumes "w = epoch_run as (epoch_world_at e0)"
    and "unat e0 + e_oks w + length (e_stamps w) < 2 ^ 64 - 1"
  shows "sorted_wrt (<) (rev (e_stamps w)) \<and> (\<forall>ts \<in> set (e_stamps w). e0 \<le> ts \<and> ts < e_val w)"
proof -
  have "stamps_ok e0 w"
    unfolding assms(1)
  proof (rule stamps_ok_run)
    show "stamps_ok e0 (epoch_world_at e0)" by (simp add: stamps_ok_def epoch_world_at_def)
    show "unat (e_val (epoch_world_at e0)) + (moves (epoch_run as (epoch_world_at e0)) - moves (epoch_world_at e0))
        < 2 ^ 64 - 1"
      using assms by (simp add: moves_def epoch_world_at_def)
  qed
  then show ?thesis by (auto simp: stamps_ok_def sorted_wrt_rev)
qed

theorem write_stamps_increase_witness:
  "rev (e_stamps (epoch_run [Call_Stamp 0, Call_Advance 1, Access 1, Access 0, Access 1, Call_Stamp 2, Access 2]
     (epoch_world_at 5))) = [5, 6] \<and> sorted_wrt (<) [5, 6 :: u64]"
proof -
  let ?w = "epoch_run [Call_Stamp 0, Call_Advance 1, Access 1, Access 0, Access 1, Call_Stamp 2, Access 2]
    (epoch_world_at 5)"
  have s: "e_stamps ?w = [6, 5]" "e_oks ?w = 0" by (simp_all add: epoch_world_at_def)
  from write_stamps_increase [of ?w _ 5, OF refl] show ?thesis unfolding s by simp
qed

text \<open>A compare-exchange fails exactly when it was overtaken: between the load and the exchange of a
  thread, while the others act in any way, the exchange will succeed if and only if the epoch has
  not moved. The bound excludes that it moved once around.\<close>

theorem advance_fails_iff_overtaken:
  assumes "e_pc w i = Exchange (e_val w)" "\<forall>a \<in> set as. action_thread a \<noteq> i"
    and "w' = epoch_run as w" "moves w' < moves w + 2 ^ 64"
  shows "e_pc (epoch_act (Access i) w') i = Advance_Done (moves w' = moves w)"
proof -
  have pc: "e_pc w' i = Exchange (e_val w)"
    using assms(2) assms(1) unfolding assms(3)
    by (induction as arbitrary: w rule: rev_induct) (simp_all add: epoch_run_def epoch_act_other)
  have "e_val w' = e_val w \<longleftrightarrow> moves w' = moves w"
  proof -
    have "moves w \<le> moves w'" using moves_mono assms(3) by simp
    moreover have "e_val w' = e_val w \<longleftrightarrow> of_nat (moves w' - moves w) = (0 :: u64)"
      using epoch_run_val [of as w] assms(3) by simp
    moreover have "of_nat (moves w' - moves w) = (0 :: u64) \<longleftrightarrow> moves w' - moves w = 0"
    proof
      assume "of_nat (moves w' - moves w) = (0 :: u64)"
      then have "unat (of_nat (moves w' - moves w) :: u64) = 0" by simp
      then show "moves w' - moves w = 0" using assms(4) by (simp add: unat_of_nat take_bit_eq_mod)
    qed simp
    ultimately show ?thesis by simp
  qed
  then show ?thesis using pc by simp
qed

theorem advance_fails_iff_overtaken_witness:
  "e_pc (epoch_run [Call_Advance 0, Access 0, Call_Stamp 1, Access 1, Access 0] (epoch_world_at 5)) 0
     = Advance_Done False"
  using advance_fails_iff_overtaken [of "epoch_run [Call_Advance 0, Access 0] (epoch_world_at 5)" 0
      "[Call_Stamp 1, Access 1]" "epoch_run [Call_Advance 0, Access 0, Call_Stamp 1, Access 1] (epoch_world_at 5)"]
  by (simp add: epoch_world_at_def moves_def)

text \<open>A thread that runs alone does what \<open>try_advance_epoch\<close> does in one piece.\<close>

lemma advance_alone:
  assumes "e_pc w i = Resting" "e_val w = global_epoch sys"
  shows "let w' = epoch_run [Call_Advance i, Access i, Access i] w; (ok, sys') = try_advance_epoch sys
    in e_pc w' i = Advance_Done ok \<and> e_val w' = global_epoch sys'"
  using assms by (simp add: try_advance_epoch_alone)

end
