(* ===== verification/Announce_Scan.thy ===== *)
theory Announce_Scan
  imports Announce
begin

text \<open>
  The scan of the announcement table under interleaving. \<open>AnnouncementTable::min_active_ts\<close> of
  \<open>src/src/lib.rs\<close> reads the count and then one slot after the other, while other threads register,
  announce and release. Every access is one step; a schedule lists the steps of all threads in any
  order. The theory shows what a scan still guarantees: a snapshot announced before the scan began and
  held until it ended bounds the result, and the result is never a value nobody announced. It also
  gives the sequential function as the scan of a thread that runs alone.
\<close>

section \<open>The scan, access by access\<close>

datatype scan_pc =
    Scan_Idle
  | Read_Count
  | Read_Slot nat nat u64
  | Scan_Done "u64 res"

text \<open>A thread about to read slot \<open>i\<close> of \<open>n\<close>, with the minimum so far.\<close>

definition next_slot :: "nat \<Rightarrow> nat \<Rightarrow> u64 \<Rightarrow> scan_pc" where
  "next_slot n i m = (if i < n then Read_Slot n i m else Scan_Done (Inr m))"

fun scan_step :: "announcement_table \<Rightarrow> scan_pc \<Rightarrow> scan_pc" where
  "scan_step t Read_Count = next_slot (unat (active_count t)) 0 u64_max"
| "scan_step t (Read_Slot n i m) =
     (if i < length (slots t) then next_slot n (i + 1) (min_update (active_ts (slots t ! i)) m)
      else Scan_Done (Inl IndexOutOfBounds))"
| "scan_step t pc = pc"

section \<open>Schedules\<close>

record scan_world =
  s_tbl :: announcement_table
  s_pc :: "nat \<Rightarrow> scan_pc"

text \<open>The stores of announcing and releasing, and the addition of registering, are single accesses. A store
  out of the table panics before it changes anything.\<close>

datatype scan_action =
    Reg
  | Ann nat u64
  | Rel nat
  | Begin_Scan nat
  | Scan_Access nat
  | End_Scan nat

fun scan_act :: "scan_action \<Rightarrow> scan_world \<Rightarrow> scan_world" where
  "scan_act Reg w = w\<lparr>s_tbl := fst (register (s_tbl w))\<rparr>"
| "scan_act (Ann i ts) w = (case announce (s_tbl w) i ts of Inr t \<Rightarrow> w\<lparr>s_tbl := t\<rparr> | Inl e \<Rightarrow> w)"
| "scan_act (Rel i) w = (case release (s_tbl w) i of Inr t \<Rightarrow> w\<lparr>s_tbl := t\<rparr> | Inl e \<Rightarrow> w)"
| "scan_act (Begin_Scan r) w =
     (if s_pc w r = Scan_Idle then w\<lparr>s_pc := (s_pc w)(r := Read_Count)\<rparr> else w)"
| "scan_act (Scan_Access r) w = w\<lparr>s_pc := (s_pc w)(r := scan_step (s_tbl w) (s_pc w r))\<rparr>"
| "scan_act (End_Scan r) w =
     (case s_pc w r of Scan_Done x \<Rightarrow> w\<lparr>s_pc := (s_pc w)(r := Scan_Idle)\<rparr> | _ \<Rightarrow> w)"

definition scan_run :: "scan_action list \<Rightarrow> scan_world \<Rightarrow> scan_world" where
  "scan_run = fold scan_act"

lemma scan_run_simps [simp]:
  "scan_run [] w = w"
  "scan_run (a # as) w = scan_run as (scan_act a w)"
  by (simp_all add: scan_run_def)

text \<open>What an action stores in a slot, if anything.\<close>

fun stores_slot :: "scan_action \<Rightarrow> (nat \<times> u64) option" where
  "stores_slot (Ann i ts) = Some (i, ts)"
| "stores_slot (Rel i) = Some (i, 0)"
| "stores_slot _ = None"

section \<open>One action\<close>

definition slot_val :: "announcement_table \<Rightarrow> nat \<Rightarrow> u64" where
  "slot_val t i = active_ts (slots t ! i)"

lemma scan_act_slots:
  "length (slots (s_tbl (scan_act a w))) = length (slots (s_tbl w))"
  "i < length (slots (s_tbl w)) \<Longrightarrow>
     slot_val (s_tbl (scan_act a w)) i = (case stores_slot a of Some (j, ts) \<Rightarrow> if j = i then ts
       else slot_val (s_tbl w) i | None \<Rightarrow> slot_val (s_tbl w) i)"
  by (cases a; auto simp: register_def announce_def release_def slot_val_def Let_def nth_list_update
      split: scan_pc.splits)+

lemma scan_act_pc:
  "s_pc (scan_act a w) r = s_pc w r \<or>
   s_pc w r = Scan_Idle \<and> s_pc (scan_act a w) r = Read_Count \<or>
   s_pc (scan_act a w) r = scan_step (s_tbl w) (s_pc w r) \<or>
   s_pc (scan_act a w) r = Scan_Idle"
  by (cases a) (auto split: scan_pc.splits sum.splits)

fun registers :: "scan_action list \<Rightarrow> nat" where
  "registers [] = 0"
| "registers (Reg # as) = Suc (registers as)"
| "registers (_ # as) = registers as"

lemma registers_Cons: "registers (a # as) = registers [a] + registers as"
  by (cases a) simp_all

text \<open>The number of threads is counted in 32 bits.\<close>

lemma count_act:
  assumes "unat (active_count (s_tbl w)) + registers [a] < 2 ^ 32"
  shows "unat (active_count (s_tbl (scan_act a w))) = unat (active_count (s_tbl w)) + registers [a]"
proof (cases a)
  case Reg
  with assms show ?thesis by (simp add: register_def Let_def unat_word_ariths)
qed (auto simp: announce_def release_def split: scan_pc.splits)

section \<open>A held snapshot bounds every later scan\<close>

text \<open>The part of the invariant that concerns one scanning thread: a scan that has passed slot \<open>j\<close> has a
  minimum at or below the timestamp held there.\<close>

fun sees_slot :: "nat \<Rightarrow> u64 \<Rightarrow> scan_pc \<Rightarrow> bool" where
  "sees_slot j ts (Read_Slot n i m) \<longleftrightarrow> j < n \<and> (j < i \<longrightarrow> m \<le> ts)"
| "sees_slot j ts (Scan_Done (Inr m)) \<longleftrightarrow> m \<le> ts"
| "sees_slot j ts _ \<longleftrightarrow> True"

lemma sees_next_slot: "j < n \<Longrightarrow> (j < i \<longrightarrow> m \<le> ts) \<Longrightarrow> sees_slot j ts (next_slot n i m)"
  by (auto simp: next_slot_def)

lemma min_update_le: "min_update ts m \<le> m" "ts \<noteq> 0 \<Longrightarrow> min_update ts m \<le> ts"
  by (auto simp: min_update_def)

lemma min_update_cases: "min_update ts m = m \<or> min_update ts m = ts \<and> ts \<noteq> 0"
  by (auto simp: min_update_def)

lemma scan_step_sees:
  assumes "sees_slot j ts pc" "slot_val t j = ts" "ts \<noteq> 0" "j < unat (active_count t)"
  shows "sees_slot j ts (scan_step t pc)"
proof (cases pc)
  case (Read_Slot n i m)
  show ?thesis
  proof (cases "i < length (slots t)")
    case True
    have "min_update (active_ts (slots t ! i)) m \<le> ts" if "j < i + 1"
      using that assms(1-3) Read_Slot min_update_le order.trans
      by (cases "j = i") (auto simp: slot_val_def intro: order.trans)
    with True assms(1) Read_Slot show ?thesis by (auto intro: sees_next_slot)
  qed (use Read_Slot in simp)
qed (use assms in \<open>auto intro: sees_next_slot\<close>)

definition holds_slot :: "nat \<Rightarrow> u64 \<Rightarrow> scan_world \<Rightarrow> bool" where
  "holds_slot j ts w \<longleftrightarrow> j < length (slots (s_tbl w)) \<and> j < unat (active_count (s_tbl w)) \<and>
     slot_val (s_tbl w) j = ts"

lemma hold_act:
  assumes "holds_slot j ts w" "ts \<noteq> 0" "\<forall>v. stores_slot a \<noteq> Some (j, v)"
    and "unat (active_count (s_tbl w)) + registers [a] < 2 ^ 32" "sees_slot j ts (s_pc w r)"
  shows "holds_slot j ts (scan_act a w)" "sees_slot j ts (s_pc (scan_act a w) r)"
proof -
  show "holds_slot j ts (scan_act a w)"
    using assms(1,3) count_act [OF assms(4)] scan_act_slots [where a = a and w = w]
    by (auto simp: holds_slot_def split: option.splits prod.splits)
  show "sees_slot j ts (s_pc (scan_act a w) r)"
    using scan_act_pc [of a w r] assms(5) scan_step_sees [OF assms(5) _ assms(2), of "s_tbl w"] assms(1)
    by (auto simp: holds_slot_def)
qed

lemma hold_run:
  assumes "holds_slot j ts w" "ts \<noteq> 0" "\<forall>a \<in> set as. \<forall>v. stores_slot a \<noteq> Some (j, v)"
    and "unat (active_count (s_tbl w)) + registers as < 2 ^ 32" "sees_slot j ts (s_pc w r)"
  shows "sees_slot j ts (s_pc (scan_run as w) r)"
  using assms
proof (induction as arbitrary: w)
  case (Cons a as)
  have c: "unat (active_count (s_tbl w)) + registers [a] < 2 ^ 32"
    using Cons.prems(4) registers_Cons [of a as] by simp
  have "\<forall>v. stores_slot a \<noteq> Some (j, v)" using Cons.prems(3) by simp
  note h = hold_act [OF Cons.prems(1,2) this c Cons.prems(5)]
  have "unat (active_count (s_tbl (scan_act a w))) + registers as < 2 ^ 32"
    using Cons.prems(4) registers_Cons [of a as] count_act [OF c] by simp
  from Cons.IH [OF h(1) Cons.prems(2) _ this h(2)] Cons.prems(3) show ?case by simp
qed simp

section \<open>No value out of thin air\<close>

fun draws_from :: "u64 set \<Rightarrow> scan_pc \<Rightarrow> bool" where
  "draws_from V (Read_Slot n i m) \<longleftrightarrow> m \<in> V"
| "draws_from V (Scan_Done (Inr m)) \<longleftrightarrow> m \<in> V"
| "draws_from V _ \<longleftrightarrow> True"

text \<open>All that is in the slots or is yet to be stored in one.\<close>

definition slot_values :: "announcement_table \<Rightarrow> u64 set" where
  "slot_values t = {v. v \<noteq> 0 \<and> (\<exists>i < length (slots t). v = slot_val t i)}"

definition stored_values :: "scan_action list \<Rightarrow> u64 set" where
  "stored_values as = {v. v \<noteq> 0 \<and> (\<exists>a \<in> set as. \<exists>i. stores_slot a = Some (i, v))}"

lemma draws_next_slot [simp]: "draws_from V (next_slot n i m) \<longleftrightarrow> m \<in> V"
  by (simp add: next_slot_def)

lemma scan_step_draws:
  assumes "draws_from V pc" "slot_values t \<subseteq> V" "u64_max \<in> V"
  shows "draws_from V (scan_step t pc)"
proof (cases pc)
  case (Read_Slot n i m)
  have "min_update (active_ts (slots t ! i)) m \<in> V" if "i < length (slots t)"
    using min_update_cases [of "active_ts (slots t ! i)" m] assms(1,2) that Read_Slot
    by (auto simp: slot_values_def slot_val_def)
  with Read_Slot show ?thesis by simp
qed (use assms in simp_all)

lemma draws_run:
  assumes "slot_values (s_tbl w) \<subseteq> V" "stored_values as \<subseteq> V" "u64_max \<in> V" "draws_from V (s_pc w r)"
  shows "draws_from V (s_pc (scan_run as w) r)"
  using assms
proof (induction as arbitrary: w)
  case (Cons a as)
  have "slot_values (s_tbl (scan_act a w)) \<subseteq> V"
    using Cons.prems(1,2) scan_act_slots [where a = a and w = w]
    by (auto simp: slot_values_def stored_values_def split: option.splits prod.splits if_splits) force+
  moreover have "draws_from V (s_pc (scan_act a w) r)"
    using scan_act_pc [of a w r] Cons.prems(4) scan_step_draws [OF Cons.prems(4,1,3)] by auto
  moreover have "stored_values as \<subseteq> V" using Cons.prems(2) by (auto simp: stored_values_def)
  ultimately show ?case using Cons.IH Cons.prems(3) by simp
qed simp

section \<open>A scan that runs alone\<close>

lemma scan_done_stays: "(scan_step t ^^ k) (Scan_Done x) = Scan_Done x"
  by (induction k) simp_all

lemma scan_slots_alone:
  "i \<le> n \<Longrightarrow> (scan_step t ^^ (n - i)) (next_slot n i m) = Scan_Done (scan_slots (slots t) [i..<n] m)"
proof (induction "n - i" arbitrary: i m)
  case 0
  then show ?case by (simp add: next_slot_def)
next
  case (Suc d)
  then have i: "i < n" "n - i = Suc d" "d = n - (i + 1)" by simp_all
  have "(scan_step t ^^ (n - i)) (next_slot n i m) = (scan_step t ^^ d) (scan_step t (Read_Slot n i m))"
    using i by (simp add: next_slot_def funpow_Suc_right del: funpow.simps)
  also have "\<dots> = Scan_Done (scan_slots (slots t) [i..<n] m)"
    using Suc(1) [of "i + 1"] i by (simp add: upt_conv_Cons scan_done_stays)
  finally show ?case .
qed

section \<open>Properties\<close>

text \<open>C22: A snapshot that is held bounds every scan. If a registered thread holds a timestamp when another
  thread's scan begins, and its slot is not written until the scan ends, the scan returns at most
  that timestamp, whatever the rest do meanwhile: other threads may register, announce, release
  and scan between any two of its accesses.\<close>

theorem held_snapshot_bounds_scan:
  assumes "slot_val (s_tbl w) j = ts" "ts \<noteq> 0" "j < MAX_THREADS" "length (slots (s_tbl w)) = MAX_THREADS"
    and "j < unat (active_count (s_tbl w))" "unat (active_count (s_tbl w)) + length as < 2 ^ 32"
    and "\<forall>a \<in> set as. \<forall>v. stores_slot a \<noteq> Some (j, v)"
    and "s_pc w r \<in> {Scan_Idle, Read_Count}" "s_pc (scan_run as w) r = Scan_Done (Inr m)"
  shows "m \<le> ts"
proof -
  have "registers as \<le> length as" by (induction as rule: registers.induct) auto
  moreover have "sees_slot j ts (s_pc w r)" "holds_slot j ts w"
    using assms(1,3-5,8) by (auto simp: holds_slot_def)
  ultimately have "sees_slot j ts (s_pc (scan_run as w) r)"
    using assms(2,6,7) by (intro hold_run) simp_all
  with assms(9) show ?thesis by simp
qed

definition scan_world_at :: "announcement_table \<Rightarrow> scan_world" where
  "scan_world_at t = \<lparr>s_tbl = t, s_pc = (\<lambda>_. Scan_Idle)\<rparr>"

theorem held_snapshot_bounds_scan_witness:
  "s_pc (scan_run [Begin_Scan 7, Rel 1, Scan_Access 7, Scan_Access 7, Reg, Ann 2 3, Scan_Access 7] (scan_world_at two_readers)) 7
     = Scan_Done (Inr 9) \<and> (9 :: u64) \<le> 9"
proof -
  let ?as = "[Begin_Scan 7, Rel 1, Scan_Access 7, Scan_Access 7, Reg, Ann 2 3, Scan_Access 7]"
  have d: "s_pc (scan_run ?as (scan_world_at two_readers)) 7 = Scan_Done (Inr 9)"
    by (simp add: scan_world_at_def two_readers_def announcement_table_new_def release_def announce_def
        register_def Let_def next_slot_def min_update_def MAX_THREADS_def)
  have "length (slots two_readers) = MAX_THREADS" "slot_val two_readers 0 = 9" "unat (active_count two_readers) = 2"
    by (simp_all add: two_readers_def announcement_table_new_def slot_val_def MAX_THREADS_def)
  from held_snapshot_bounds_scan [of "scan_world_at two_readers" 0 9 ?as 7 9] this d show ?thesis
    by (simp add: scan_world_at_def MAX_THREADS_def)
qed

text \<open>A scan is never torn. Whatever is announced and released while it runs, it returns
  \<open>u64::MAX\<close> or a timestamp some thread had announced before or announced during the scan.\<close>

theorem scan_never_torn:
  assumes "s_pc w r \<in> {Scan_Idle, Read_Count}" "s_pc (scan_run as w) r = Scan_Done (Inr m)"
  shows "m \<in> {u64_max} \<union> slot_values (s_tbl w) \<union> stored_values as"
proof -
  have "draws_from ({u64_max} \<union> slot_values (s_tbl w) \<union> stored_values as) (s_pc (scan_run as w) r)"
    using assms(1) by (intro draws_run) auto
  with assms(2) show ?thesis by simp
qed

theorem scan_never_torn_witness:
  "\<exists>m. s_pc (scan_run [Begin_Scan 7, Scan_Access 7, Ann 0 5, Scan_Access 7, Rel 1, Scan_Access 7] (scan_world_at two_readers)) 7
     = Scan_Done (Inr m) \<and> m \<in> {u64_max} \<union> slot_values two_readers \<union> {5}"
proof -
  let ?as = "[Begin_Scan 7, Scan_Access 7, Ann 0 5, Scan_Access 7, Rel 1, Scan_Access 7]"
  have d: "s_pc (scan_run ?as (scan_world_at two_readers)) 7 = Scan_Done (Inr 5)"
    by (simp add: scan_world_at_def two_readers_def announcement_table_new_def release_def announce_def
        next_slot_def min_update_def MAX_THREADS_def)
  have "stored_values ?as = {5}" by (auto simp: stored_values_def)
  with scan_never_torn [of "scan_world_at two_readers" 7 ?as 5] d show ?thesis
    by (simp add: scan_world_at_def)
qed

text \<open>A thread that scans without interruption computes the sequential \<open>min_active_ts\<close>, panics included,
  in one access for the count and one for each registered thread.\<close>

theorem scan_alone_is_sequential:
  "(scan_step t ^^ (unat (active_count t) + 1)) Read_Count = Scan_Done (min_active_ts t)"
  using scan_slots_alone [of 0 "unat (active_count t)" t u64_max]
  by (simp add: funpow_Suc_right min_active_ts_def del: funpow.simps)

end
