(* ===== verification/Interleaved.thy ===== *)
theory Interleaved
  imports Backlog
begin

text \<open>
  Several threads that share one collector and may stop between the halves of an operation: a reader
  between the choice of its timestamp and its announcement (\<open>take_snapshot\<close>), or while it reads; a writer
  between \<open>write_op_prepare\<close> and the retirement of its node. A thread may do both at once. The
  theorems say that every schedule runs without failure and keeps account of every box, that an announced
  snapshot protects the nodes born since, and that one not yet announced does not.
\<close>

section \<open>Taking a snapshot in two halves\<close>

definition snapshot_acquire ::
  "pacer_system \<Rightarrow> thread_local_state \<Rightarrow> u64 \<Rightarrow> u64 \<Rightarrow> (u64 \<times> pacer_system \<times> thread_local_state) option" where
  "snapshot_acquire sys t now_ns elapsed_ns =
     (let t1 = t\<lparr>win_snaps := win_snaps t + 1\<rparr> in
      case scc_take_snapshot (scc sys) now_ns (global_epoch sys) of
        None \<Rightarrow> None
      | Some (ts, s1) \<Rightarrow> Some (ts, sys\<lparr>scc := record_latency_ns s1 elapsed_ns\<rparr>, t1))"

lemma take_snapshot_halves:
  "take_snapshot sys t now_ns elapsed_ns =
     map_option (\<lambda>(ts, sys1, t1). bind_res (announce_snapshot sys1 (tid t1) ts) (\<lambda>sys2. Inr (ts, sys2, t1)))
       (snapshot_acquire sys t now_ns elapsed_ns)"
  by (simp add: take_snapshot_def snapshot_acquire_def Let_def split: option.split)

section \<open>Threads\<close>

datatype reader = Not_Reading | Unannounced u64 | Reading u64

record fine_thread =
  th_t :: thread_local_state
  th_reader :: reader
  th_node :: "(addr \<times> u64) option"

record 'v fine_world =
  w_sys :: pacer_system
  w_mem :: "'v memory"
  w_threads :: "fine_thread list"

text \<open>The value is what a write stores; a thread takes one snapshot and prepares one node at a time.\<close>

datatype 'v fine_op = Acquire u64 u64 | Announce_It | Release_It | Prepare 'v | Retire_It

fun fine_step ::
  "strategy \<Rightarrow> 'v fine_op \<Rightarrow> pacer_system \<times> fine_thread \<times> 'v memory
    \<Rightarrow> (pacer_system \<times> fine_thread \<times> 'v memory) res option" where
  "fine_step S (Acquire now_ns lat) (sys, th, m) =
     (case th_reader th of
        Not_Reading \<Rightarrow>
          (case snapshot_acquire sys (th_t th) now_ns lat of
             None \<Rightarrow> None
           | Some (ts, sys', t') \<Rightarrow> Some (Inr (sys', th\<lparr>th_t := t', th_reader := Unannounced ts\<rparr>, m)))
      | _ \<Rightarrow> Some (Inr (sys, th, m)))"
| "fine_step S Announce_It (sys, th, m) =
     Some (case th_reader th of
       Unannounced ts \<Rightarrow>
         bind_res (announce_snapshot sys (tid (th_t th)) ts) (\<lambda>sys'. Inr (sys', th\<lparr>th_reader := Reading ts\<rparr>, m))
     | _ \<Rightarrow> Inr (sys, th, m))"
| "fine_step S Release_It (sys, th, m) =
     Some (case th_reader th of
       Reading ts \<Rightarrow>
         bind_res (release_snapshot_for sys (th_t th)) (\<lambda>sys'. Inr (sys', th\<lparr>th_reader := Not_Reading\<rparr>, m))
     | _ \<Rightarrow> Inr (sys, th, m))"
| "fine_step S (Prepare v) (sys, th, m) =
     Some (case th_node th of
       None \<Rightarrow> (let (p, ts, sys', t', m') = write_op_prepare sys (th_t th) v m
                in Inr (sys', th\<lparr>th_t := t', th_node := Some (p, ts)\<rparr>, m'))
     | Some x \<Rightarrow> Inr (sys, th, m))"
| "fine_step S Retire_It (sys, th, m) =
     Some (case th_node th of
       Some (p, ts) \<Rightarrow> bind_res (strategy_retire S sys (th_t th) p ts m) (\<lambda>(n, sys', t', m').
         Inr (sys', th\<lparr>th_t := t', th_node := None\<rparr>, m'))
     | None \<Rightarrow> Inr (sys, th, m))"

definition fine_act :: "strategy \<Rightarrow> nat \<times> 'v fine_op \<Rightarrow> 'v fine_world \<Rightarrow> 'v fine_world res option" where
  "fine_act S x w = (case x of (i, a) \<Rightarrow>
     bind_run (fine_step S a (w_sys w, w_threads w ! i, w_mem w)) (\<lambda>(sys', th', m').
       Some (Inr \<lparr>w_sys = sys', w_mem = m', w_threads = (w_threads w)[i := th']\<rparr>)))"

fun fine_run :: "strategy \<Rightarrow> (nat \<times> 'v fine_op) list \<Rightarrow> 'v fine_world \<Rightarrow> 'v fine_world res option" where
  "fine_run S [] w = Some (Inr w)"
| "fine_run S (a # as) w = bind_run (fine_act S a w) (fine_run S as)"

section \<open>The invariant\<close>

text \<open>The nodes a thread is responsible for: its bag, then the node it is about to retire.\<close>

definition held :: "fine_thread \<Rightarrow> limbo_bag" where
  "held th = limbo_bag (th_t th) @ (case th_node th of None \<Rightarrow> [] | Some (p, ts) \<Rightarrow> [(ts, Owned p)])"

definition shared_ok :: "nat \<Rightarrow> pacer_system \<Rightarrow> 'v memory \<Rightarrow> bool" where
  "shared_ok n sys m \<longleftrightarrow> table_ok (announce_tbl sys) \<and> scc_ok (scc sys) \<and> memory_ok m \<and>
     0 < unat (global_epoch sys) \<and> unat (global_epoch sys) \<le> 2 * n + 1 \<and>
     (window_gen (scc sys) \<noteq> 0 \<longrightarrow> 0 < unat (current_ts (scc sys)) \<and> current_ts (scc sys) \<le> global_epoch sys)"

text \<open>The entries of a bag carry the birth timestamps of their nodes.\<close>

definition births_ok :: "limbo_bag \<Rightarrow> 'v memory \<Rightarrow> bool" where
  "births_ok q m \<longleftrightarrow> (\<forall>ts p. (ts, Owned p) \<in> set q \<longrightarrow> map_option birth_ts (boxes m p) = Some ts)"

fun reader_ok :: "pacer_system \<Rightarrow> nat \<Rightarrow> reader \<Rightarrow> bool" where
  "reader_ok sys i Not_Reading \<longleftrightarrow> True"
| "reader_ok sys i (Unannounced ts) \<longleftrightarrow> ts \<noteq> 0"
| "reader_ok sys i (Reading ts) \<longleftrightarrow> announced (announce_tbl sys) i = Some ts"

definition thread_ok :: "nat \<Rightarrow> pacer_system \<Rightarrow> 'v memory \<Rightarrow> fine_thread \<Rightarrow> bool" where
  "thread_ok n sys m th \<longleftrightarrow> tid (th_t th) \<in> registered (announce_tbl sys) \<and> spi_ok (spi_ema (th_t th)) \<and>
     unat (win_writes (th_t th)) + unat (win_snaps (th_t th)) \<le> n \<and>
     bag_ok (held th) m \<and> births_ok (held th) m \<and> reader_ok sys (tid (th_t th)) (th_reader th)"

text \<open>No thread shares its slot or its nodes, and every live box is some thread's.\<close>

definition fine_ok :: "nat \<Rightarrow> 'v fine_world \<Rightarrow> bool" where
  "fine_ok n w \<longleftrightarrow> shared_ok n (w_sys w) (w_mem w) \<and> (\<forall>th \<in> set (w_threads w). thread_ok n (w_sys w) (w_mem w) th) \<and>
     distinct (map (\<lambda>th. tid (th_t th)) (w_threads w)) \<and> apart (map held (w_threads w)) \<and>
     dom (boxes (w_mem w)) = (\<Union>th \<in> set (w_threads w). set (owned_addrs (held th)))"

text \<open>What a step of thread \<open>th\<close> leaves alone.\<close>

definition others_kept ::
  "pacer_system \<Rightarrow> 'v memory \<Rightarrow> fine_thread \<Rightarrow> pacer_system \<Rightarrow> 'v memory \<Rightarrow> fine_thread \<Rightarrow> bool" where
  "others_kept sys m th sys' m' th' \<longleftrightarrow> tid (th_t th') = tid (th_t th) \<and>
     registered (announce_tbl sys') = registered (announce_tbl sys) \<and>
     (\<forall>j. j \<noteq> tid (th_t th) \<longrightarrow> announced (announce_tbl sys') j = announced (announce_tbl sys) j) \<and>
     (\<forall>p \<in> dom (boxes m) - set (owned_addrs (held th)). boxes m' p = boxes m p) \<and>
     set (owned_addrs (held th')) \<subseteq> set (owned_addrs (held th)) \<union> - dom (boxes m) \<and>
     dom (boxes m') \<subseteq> dom (boxes m) - set (owned_addrs (held th)) \<union> set (owned_addrs (held th'))"

lemma others_thread_ok:
  assumes "thread_ok n sys m th2" "others_kept sys m th sys' m' th'" "tid (th_t th2) \<noteq> tid (th_t th)"
    and "set (owned_addrs (held th2)) \<inter> set (owned_addrs (held th)) = {}"
  shows "thread_ok (n + 1) sys' m' th2"
proof -
  have o: "p \<in> set (owned_addrs (held th2)) \<Longrightarrow> boxes m' p = boxes m p" for p
    using assms by (auto simp: thread_ok_def others_kept_def bag_ok_def)
  have "(ts, Owned p) \<in> set q \<Longrightarrow> p \<in> set (owned_addrs q)" for ts p q
    by (force simp: owned_addrs_def List.map_filter_def)
  then have "bag_ok (held th2) m'" "births_ok (held th2) m'"
    using assms(1) o by (auto simp: thread_ok_def bag_ok_def births_ok_def dom_def subset_iff)
  moreover have "reader_ok sys' (tid (th_t th2)) (th_reader th2)"
    using assms(1-3) by (cases "th_reader th2") (auto simp: thread_ok_def others_kept_def)
  ultimately show ?thesis using assms(1,2) by (simp add: thread_ok_def others_kept_def)
qed

lemma fine_update:
  assumes "fine_ok n w" "i < length (w_threads w)" "shared_ok (n + 1) sys' m'" "thread_ok (n + 1) sys' m' th'"
    and "others_kept (w_sys w) (w_mem w) (w_threads w ! i) sys' m' th'"
  shows "fine_ok (n + 1) \<lparr>w_sys = sys', w_mem = m', w_threads = (w_threads w)[i := th']\<rparr>"
proof -
  let ?ths = "w_threads w" and ?th = "w_threads w ! i"
  have tids: "distinct (map (\<lambda>th. tid (th_t th)) ?ths)" and ap: "apart (map held ?ths)"
    and d: "dom (boxes (w_mem w)) = (\<Union>th \<in> set ?ths. set (owned_addrs (held th)))"
    and all: "\<And>th. th \<in> set ?ths \<Longrightarrow> thread_ok n (w_sys w) (w_mem w) th"
    using assms(1) by (simp_all add: fine_ok_def)
  have other: "thread_ok (n + 1) sys' m' (?ths ! j)" "set (owned_addrs (held (?ths ! j))) \<inter> set (owned_addrs (held th')) = {}"
    if j: "j < length ?ths" "j \<noteq> i" for j
  proof -
    have x: "set (owned_addrs (held (?ths ! j))) \<inter> set (owned_addrs (held ?th)) = {}"
      using ap j assms(2) by (simp add: apart_def)
    show "thread_ok (n + 1) sys' m' (?ths ! j)"
      using others_thread_ok [OF all [OF nth_mem [OF j(1)]] assms(5)] x tids j assms(2)
      by (simp add: distinct_conv_nth)
    have "set (owned_addrs (held (?ths ! j))) \<subseteq> dom (boxes (w_mem w))"
      unfolding d using nth_mem [OF j(1)] by blast
    with x assms(5) show "set (owned_addrs (held (?ths ! j))) \<inter> set (owned_addrs (held th')) = {}"
      by (auto simp: others_kept_def)
  qed
  have "thread_ok (n + 1) sys' m' th" if th: "th \<in> set (?ths[i := th'])" for th
  proof -
    obtain j where "j < length ?ths" "th = (?ths[i := th']) ! j" using th by (auto simp: in_set_conv_nth)
    then show ?thesis using other(1) [of j] assms(4) by (cases "j = i") simp_all
  qed
  moreover have "map (\<lambda>th. tid (th_t th)) (?ths[i := th']) = map (\<lambda>th. tid (th_t th)) ?ths"
    using assms(2,5) by (simp add: map_update others_kept_def list_update_same_conv)
  moreover have "apart (map held (?ths[i := th']))"
    unfolding map_update using other(2) by (intro apart_update ap) simp
  moreover have "dom (boxes m') = (\<Union>th \<in> set (?ths[i := th']). set (owned_addrs (held th)))"
  proof
    show "(\<Union>th \<in> set (?ths[i := th']). set (owned_addrs (held th))) \<subseteq> dom (boxes m')"
      using calculation(1) by (auto simp: thread_ok_def bag_ok_def)
    show "dom (boxes m') \<subseteq> (\<Union>th \<in> set (?ths[i := th']). set (owned_addrs (held th)))"
    proof
      fix p assume p: "p \<in> dom (boxes m')"
      have "th' \<in> set (?ths[i := th'])" using assms(2) by (simp add: set_update_memI)
      moreover have "\<exists>j < length ?ths. j \<noteq> i \<and> p \<in> set (owned_addrs (held (?ths ! j)))"
        if "p \<notin> set (owned_addrs (held th'))"
      proof -
        have "p \<in> dom (boxes (w_mem w))" "p \<notin> set (owned_addrs (held ?th))"
          using p that assms(5) by (auto simp: others_kept_def)
        then obtain th where "th \<in> set ?ths" "p \<in> set (owned_addrs (held th))" unfolding d by blast
        with \<open>p \<notin> set (owned_addrs (held ?th))\<close> show ?thesis by (metis in_set_conv_nth)
      qed
      then have "p \<notin> set (owned_addrs (held th')) \<Longrightarrow> \<exists>th \<in> set (?ths[i := th']). p \<in> set (owned_addrs (held th))"
        by (metis length_list_update nth_list_update_neq nth_mem)
      ultimately show "p \<in> (\<Union>th \<in> set (?ths[i := th']). set (owned_addrs (held th)))" by blast
    qed
  qed
  ultimately show ?thesis using assms(3) tids by (simp add: fine_ok_def)
qed

section \<open>Each half keeps it\<close>

lemma snapshot_acquire_ok:
  assumes "shared_ok n sys m"
  obtains ts sys' where "snapshot_acquire sys t now_ns lat = Some (ts, sys', t\<lparr>win_snaps := win_snaps t + 1\<rparr>)"
    "shared_ok (n + 1) sys' m" "announce_tbl sys' = announce_tbl sys" "global_epoch sys' = global_epoch sys"
    "ts \<noteq> 0" "ts \<le> global_epoch sys"
proof -
  have s: "scc_ok (scc sys)" "0 < unat (global_epoch sys)"
    "window_gen (scc sys) \<noteq> 0 \<longrightarrow> 0 < unat (current_ts (scc sys)) \<and> current_ts (scc sys) \<le> global_epoch sys"
    using assms by (simp_all add: shared_ok_def)
  obtain ts s1 where r: "scc_take_snapshot (scc sys) now_ns (global_epoch sys) = Some (ts, s1)" "scc_ok s1"
    "ts = (if coalesces (scc sys) now_ns then current_ts (scc sys) else global_epoch sys)"
    using take_snapshot_ok [OF s(1)] by blast
  have ts: "0 < unat ts" "ts \<le> global_epoch sys" using r(3) s by (auto simp: coalesces_def)
  have "current_ts s1 = ts"
    using r(1,3) s(1) by (auto simp: scc_ok_def take_snapshot_even Let_def open_window_fields split: if_splits)
  then have "shared_ok (n + 1) (sys\<lparr>scc := record_latency_ns s1 lat\<rparr>) m"
    using assms r(2) ts by (simp add: shared_ok_def) (simp add: record_latency_ns_def)
  moreover have "ts \<noteq> 0" using ts(1) by auto
  ultimately show thesis
    using ts(2) r(1) by (intro that [of ts "sys\<lparr>scc := record_latency_ns s1 lat\<rparr>"]) (simp_all add: snapshot_acquire_def)
qed

text \<open>The effect of a step: the thread's part of the invariant, and the frame.\<close>

definition good_step ::
  "nat \<Rightarrow> pacer_system \<Rightarrow> 'v memory \<Rightarrow> fine_thread \<Rightarrow> pacer_system \<times> fine_thread \<times> 'v memory \<Rightarrow> bool" where
  "good_step n sys m th = (\<lambda>(sys', th', m').
     shared_ok (n + 1) sys' m' \<and> thread_ok (n + 1) sys' m' th' \<and> others_kept sys m th sys' m' th')"

lemma shared_ok_mono: "shared_ok n sys m \<Longrightarrow> n \<le> n' \<Longrightarrow> shared_ok n' sys m"
  by (auto simp: shared_ok_def)

lemma others_kept_refl [simp]: "others_kept sys m th sys m th"
  by (auto simp: others_kept_def)

lemma thread_ok_mono: "thread_ok n sys m th \<Longrightarrow> n \<le> n' \<Longrightarrow> thread_ok n' sys m th"
  by (auto simp: thread_ok_def)

lemma good_step_idle: "shared_ok n sys m \<Longrightarrow> thread_ok n sys m th \<Longrightarrow> good_step n sys m th (sys, th, m)"
  by (simp add: good_step_def shared_ok_mono thread_ok_mono)

lemma held_simps:
  "held (th\<lparr>th_reader := r\<rparr>) = held th"
  "limbo_bag t = limbo_bag (th_t th) \<Longrightarrow> held (th\<lparr>th_t := t, th_reader := r\<rparr>) = held th"
  "limbo_bag t = limbo_bag (th_t th) \<Longrightarrow> held (th\<lparr>th_t := t\<rparr>) = held th"
  "held (th\<lparr>th_t := t, th_node := None\<rparr>) = limbo_bag t"
  "held (th\<lparr>th_t := t, th_node := Some (p, ts)\<rparr>) = limbo_push (limbo_bag t) ts p"
  "th_node th = None \<Longrightarrow> held th = limbo_bag (th_t th)"
  "th_node th = Some (p, ts) \<Longrightarrow> held th = limbo_push (limbo_bag (th_t th)) ts p"
  by (simp_all add: held_def limbo_push_def)

lemma others_kept_same_memory:
  assumes "tid (th_t th') = tid (th_t th)" "owned_addrs (held th') = owned_addrs (held th)"
    "registered (announce_tbl sys') = registered (announce_tbl sys)"
    "\<forall>j. j \<noteq> tid (th_t th) \<longrightarrow> announced (announce_tbl sys') j = announced (announce_tbl sys) j"
  shows "others_kept sys m th sys' m th'"
  using assms by (auto simp: others_kept_def)

lemma acquire_step:
  assumes "shared_ok n sys m" "thread_ok n sys m th" "n < 2 ^ 62"
  shows "\<exists>x. fine_step S (Acquire now_ns lat) (sys, th, m) = Some (Inr x) \<and> good_step n sys m th x"
proof (cases "th_reader th")
  case Not_Reading
  let ?t = "(th_t th)\<lparr>win_snaps := win_snaps (th_t th) + 1\<rparr>"
  obtain ts sys' where r: "snapshot_acquire sys (th_t th) now_ns lat = Some (ts, sys', ?t)"
    "shared_ok (n + 1) sys' m" "announce_tbl sys' = announce_tbl sys" "ts \<noteq> 0"
    using snapshot_acquire_ok [OF assms(1)] by metis
  have "unat (win_snaps (th_t th) + 1) = unat (win_snaps (th_t th)) + 1"
    using assms(2,3) by (intro unat_add_1 [of _ n]) (auto simp: thread_ok_def)
  then have "thread_ok (n + 1) sys' m (th\<lparr>th_t := ?t, th_reader := Unannounced ts\<rparr>)"
    using assms(2) r by (simp add: thread_ok_def held_simps)
  moreover have "others_kept sys m th sys' m (th\<lparr>th_t := ?t, th_reader := Unannounced ts\<rparr>)"
    using r(3) by (intro others_kept_same_memory) (simp_all add: held_simps)
  ultimately show ?thesis using r Not_Reading by (simp add: good_step_def)
qed (use good_step_idle [OF assms(1,2)] in simp_all)

lemma announce_step:
  assumes "shared_ok n sys m" "thread_ok n sys m th"
  shows "\<exists>x. fine_step S Announce_It (sys, th, m) = Some (Inr x) \<and> good_step n sys m th x"
proof (cases "th_reader th")
  case (Unannounced ts)
  have w: "table_ok (announce_tbl sys)" "tid (th_t th) \<in> registered (announce_tbl sys)" "ts \<noteq> 0"
    using assms Unannounced by (simp_all add: shared_ok_def thread_ok_def)
  obtain tbl where tbl: "announce (announce_tbl sys) (tid (th_t th)) ts = Inr tbl" "table_ok tbl"
    "registered tbl = registered (announce_tbl sys)"
    "announced tbl = (announced (announce_tbl sys))(tid (th_t th) := Some ts)"
    using announcements.ann_law [OF w(1,2), of ts] w(3) by auto
  then have "others_kept sys m th (sys\<lparr>announce_tbl := tbl\<rparr>) m (th\<lparr>th_reader := Reading ts\<rparr>)"
    by (intro others_kept_same_memory) (simp_all add: held_simps)
  with tbl show ?thesis
    using assms Unannounced
    by (simp add: announce_snapshot_def good_step_def shared_ok_def thread_ok_def held_simps)
qed (use good_step_idle [OF assms] in simp_all)

lemma release_step:
  assumes "shared_ok n sys m" "thread_ok n sys m th"
  shows "\<exists>x. fine_step S Release_It (sys, th, m) = Some (Inr x) \<and> good_step n sys m th x"
proof (cases "th_reader th")
  case (Reading ts)
  have w: "table_ok (announce_tbl sys)" "tid (th_t th) \<in> registered (announce_tbl sys)"
    using assms by (simp_all add: shared_ok_def thread_ok_def)
  obtain tbl where tbl: "release (announce_tbl sys) (tid (th_t th)) = Inr tbl" "table_ok tbl"
    "registered tbl = registered (announce_tbl sys)"
    "announced tbl = (announced (announce_tbl sys))(tid (th_t th) := None)"
    using announcements.rel_law [OF w] by auto
  then have "others_kept sys m th (sys\<lparr>announce_tbl := tbl\<rparr>) m (th\<lparr>th_reader := Not_Reading\<rparr>)"
    by (intro others_kept_same_memory) (simp_all add: held_simps)
  with tbl show ?thesis
    using assms Reading
    by (simp add: release_snapshot_for_def release_snapshot_def good_step_def shared_ok_def thread_ok_def held_simps)
qed (use good_step_idle [OF assms] in simp_all)

lemma prepare_step:
  fixes m :: "'v memory"
  assumes "shared_ok n sys m" "thread_ok n sys m th" "n < 2 ^ 62"
  shows "\<exists>x. fine_step S (Prepare v) (sys, th, m) = Some (Inr x) \<and> good_step n sys m th x"
proof (cases "th_node th")
  case None
  let ?e = "global_epoch sys" and ?p = "next_box m"
  let ?sys = "sys\<lparr>global_epoch := global_epoch sys + 1\<rparr>"
  let ?th = "th\<lparr>th_t := prepared (th_t th), th_node := Some (next_box m, global_epoch sys)\<rparr>"
  obtain m1 where v: "version_node_new v ?e m = (?p, m1)" by (simp add: version_node_new_def)
  have h: "held th = limbo_bag (th_t th)" "held ?th = limbo_push (limbo_bag (th_t th)) ?e ?p"
    using None by (simp_all add: held_simps)
  have m: "memory_ok m" "bag_ok (limbo_bag (th_t th)) m" "births_ok (limbo_bag (th_t th)) m"
    using assms(1,2) h(1) by (simp_all add: shared_ok_def thread_ok_def)
  note new = version_node_new_ok [OF m(1,2) v]
  have b: "boxes m1 = (boxes m)(?p \<mapsto> \<lparr>node_value = v, birth_ts = ?e, next_ptr = 0\<rparr>)"
    using v by (auto simp: version_node_new_def)
  have e: "unat (?e + 1) = unat ?e + 1"
    using assms(1,3) by (intro unat_add_1 [of _ "2 * n + 1"]) (auto simp: shared_ok_def)
  then have le: "?e \<le> ?e + 1" by (simp add: word_le_nat_alt)
  have "unat (win_writes (th_t th) + 1) = unat (win_writes (th_t th)) + 1"
    using assms(2,3) by (intro unat_add_1 [of _ n]) (auto simp: thread_ok_def)
  moreover have "bag_ok (held ?th) m1" unfolding h by (rule bag_ok_push [OF new(2,4,5)])
  moreover have "births_ok (held ?th) m1"
    unfolding h using m(3) new(3) by (fastforce simp: births_ok_def limbo_push_def b)
  moreover have "reader_ok ?sys (tid (th_t th)) (th_reader th) = reader_ok sys (tid (th_t th)) (th_reader th)"
    by (cases "th_reader th") simp_all
  ultimately have "thread_ok (n + 1) ?sys m1 ?th"
    using assms(2) by (simp add: thread_ok_def)
  moreover have "shared_ok (n + 1) ?sys m1"
    using assms(1) new(1) e le by (auto simp: shared_ok_def)
  moreover have "others_kept sys m th ?sys m1 ?th"
    unfolding others_kept_def h using new(3) by (auto simp: b limbo_push_def)
  moreover have "m1 = snd (version_node_new v ?e m)" using v by simp
  ultimately show ?thesis using None by (simp add: prepare_unfold good_step_def)
qed (use good_step_idle [OF assms(1,2)] in simp_all)

lemma births_free:
  assumes "bag_ok q m" "births_ok q m"
  shows "births_ok (drop k q) (free_all (take k q) m)"
proof -
  have q: "owned_addrs q = owned_addrs (take k q) @ owned_addrs (drop k q)"
    by (metis append_take_drop_id owned_addrs_append)
  have d: "set (owned_addrs (take k q)) \<inter> set (owned_addrs (drop k q)) = {}"
    using assms(1) unfolding bag_ok_def q distinct_append by simp
  have "(ts, Owned p) \<in> set q' \<Longrightarrow> p \<in> set (owned_addrs q')" for ts p q'
    by (force simp: owned_addrs_def List.map_filter_def)
  then show ?thesis
    using assms(2) d by (auto simp: births_ok_def free_all_def restrict_map_def dest: in_set_dropD)
qed

lemma retire_worker:
  assumes "shared_ok n sys m" "thread_ok n sys m th" "n < 2 ^ 62" "th_node th = Some (p, ts)"
  shows "\<exists>k sys' t' m'. strategy_retire S sys (th_t th) p ts m = Inr (k, sys', t', m') \<and>
    retire_effect S sys (th_t th) p ts m k sys' t' m'"
proof -
  have h: "held th = limbo_push (limbo_bag (th_t th)) ts p" using assms(4) by (rule held_simps)
  have b: "bag_ok (limbo_push (limbo_bag (th_t th)) ts p) m" using assms(2) by (simp add: thread_ok_def h)
  then have "bag_ok (limbo_bag (th_t th)) m" by (simp add: bag_ok_def limbo_push_def)
  then have "worker_ok sys (th_t th) m" using assms(1,2) by (simp add: worker_ok_def shared_ok_def thread_ok_def)
  moreover have "no_window_overflow (th_t th)" using assms(2,3) by (simp add: thread_ok_def no_window_overflow_def)
  ultimately show ?thesis using strategy_retire_effect b by blast
qed

lemma retire_good:
  assumes "shared_ok n sys m" "thread_ok n sys m th" "n < 2 ^ 62" "th_node th = Some (p, ts)"
    and r: "retire_effect S sys (th_t th) p ts m k sys' t' m'"
  shows "good_step n sys m th (sys', th\<lparr>th_t := t', th_node := None\<rparr>, m')"
proof -
  let ?X = "limbo_push (limbo_bag (th_t th)) ts p" and ?th = "th\<lparr>th_t := t', th_node := None\<rparr>"
  have h: "held th = ?X" "held ?th = drop k ?X"
    using assms(4) r by (simp_all add: held_simps retire_effect_def)
  have e: "worker_ok sys' t' m'" "announce_tbl sys' = announce_tbl sys" "scc sys' = scc sys"
    "global_epoch sys' = global_epoch sys \<or> global_epoch sys' = global_epoch sys + 1"
    "m' = free_all (take k ?X) m" "tid t' = tid (th_t th)"
    "unat (win_writes t') + unat (win_snaps t') \<le> unat (win_writes (th_t th)) + unat (win_snaps (th_t th))"
    using r by (auto simp: retire_effect_def)
  have "unat (global_epoch sys + 1) = unat (global_epoch sys) + 1"
    using assms(1,3) by (intro unat_add_1 [of _ "2 * n + 1"]) (auto simp: shared_ok_def)
  then have "shared_ok (n + 1) sys' m'"
    using assms(1) e(1-4) by (auto simp: shared_ok_def worker_ok_def word_le_nat_alt)
  moreover have x: "bag_ok ?X m" "births_ok ?X m" using assms(2) by (simp_all add: thread_ok_def h(1))
  have "bag_ok (drop k ?X) m'" "births_ok (drop k ?X) m'"
    using x bag_ok_split [of "take k ?X" "drop k ?X" m] births_free by (simp_all add: e(5))
  moreover have "reader_ok sys' i rd = reader_ok sys i rd" for i rd
    using e(2) by (cases rd) simp_all
  ultimately have "thread_ok (n + 1) sys' m' ?th"
    using assms(2) e(1,6,7) unfolding thread_ok_def h by (simp add: worker_ok_def e(2))
  moreover have "others_kept sys m th sys' m' ?th"
  proof -
    have "set (owned_addrs ?X) = set (owned_addrs (take k ?X)) \<union> set (owned_addrs (drop k ?X))"
      by (metis append_take_drop_id owned_addrs_append set_append)
    then show ?thesis
      unfolding others_kept_def h using e(2,6) by (auto simp: e(5) free_all_def restrict_map_def split: if_splits)
  qed
  ultimately show ?thesis using \<open>shared_ok (n + 1) sys' m'\<close> by (simp add: good_step_def)
qed

lemma fine_step_ok:
  assumes "shared_ok n sys m" "thread_ok n sys m th" "n < 2 ^ 62"
  shows "\<exists>x. fine_step S a (sys, th, m) = Some (Inr x) \<and> good_step n sys m th x"
proof (cases a)
  case Retire_It
  show ?thesis
  proof (cases "th_node th")
    case (Some x)
    obtain p ts where x: "x = (p, ts)" by (cases x)
    obtain k sys' t' m' where "strategy_retire S sys (th_t th) p ts m = Inr (k, sys', t', m')"
      "retire_effect S sys (th_t th) p ts m k sys' t' m'"
      using retire_worker [OF assms, of p ts S] Some x by auto
    then show ?thesis using retire_good [OF assms] Some x by (simp add: Retire_It)
  qed (use good_step_idle [OF assms(1,2)] in \<open>simp add: Retire_It\<close>)
qed (simp_all only: acquire_step [OF assms] announce_step [OF assms(1,2)] release_step [OF assms(1,2)] prepare_step [OF assms])

section \<open>Schedules\<close>

lemma fine_act_ok:
  assumes "fine_ok n w" "n < 2 ^ 62" "i < length (w_threads w)"
  shows "\<exists>sys' th' m'. fine_step S a (w_sys w, w_threads w ! i, w_mem w) = Some (Inr (sys', th', m')) \<and>
    fine_act S (i, a) w = Some (Inr \<lparr>w_sys = sys', w_mem = m', w_threads = (w_threads w)[i := th']\<rparr>) \<and>
    fine_ok (n + 1) \<lparr>w_sys = sys', w_mem = m', w_threads = (w_threads w)[i := th']\<rparr>"
proof -
  have t: "shared_ok n (w_sys w) (w_mem w)" "thread_ok n (w_sys w) (w_mem w) (w_threads w ! i)"
    using assms(1,3) by (simp_all add: fine_ok_def)
  from fine_step_ok [OF t assms(2), of S a] obtain sys' th' m' where
    x: "fine_step S a (w_sys w, w_threads w ! i, w_mem w) = Some (Inr (sys', th', m'))"
    "good_step n (w_sys w) (w_mem w) (w_threads w ! i) (sys', th', m')"
    by (metis prod_cases3)
  then show ?thesis
    using fine_update [OF assms(1,3), of sys' m' th'] by (simp add: fine_act_def good_step_def)
qed

lemma fine_run_ok:
  assumes "fine_ok n w" "n + length as \<le> 2 ^ 62" "\<forall>(i, a) \<in> set as. i < length (w_threads w)"
  shows "\<exists>w'. fine_run S as w = Some (Inr w') \<and> fine_ok (n + length as) w' \<and> length (w_threads w') = length (w_threads w)"
  using assms
proof (induction as arbitrary: n w)
  case (Cons x as)
  obtain i a where x: "x = (i, a)" by (cases x)
  have i: "i < length (w_threads w)" "n < 2 ^ 62" using Cons.prems(2,3) by (auto simp: x)
  obtain w1 where w1: "fine_act S (i, a) w = Some (Inr w1)" "fine_ok (n + 1) w1" "length (w_threads w1) = length (w_threads w)"
    using fine_act_ok [OF Cons.prems(1) i(2,1), of S a] by auto
  show ?case using Cons.IH [OF w1(2)] Cons.prems(2,3) w1 by (simp add: x)
qed simp

lemma fine_run_append: "fine_run S (xs @ ys) w = bind_run (fine_run S xs w) (fine_run S ys)"
proof (induction xs arbitrary: w)
  case (Cons x xs)
  show ?case
  proof (cases "fine_act S x w")
    case (Some r)
    then show ?thesis by (cases r) (simp_all add: Cons)
  qed simp
qed simp

section \<open>Properties\<close>

text \<open>Threads just registered.\<close>

definition fine_start :: "nat \<Rightarrow> 'v fine_world" where
  "fine_start k =
     \<lparr>w_sys = pacer_system_new\<lparr>announce_tbl := announcement_table_new\<lparr>active_count := of_nat k\<rparr>\<rparr>,
      w_mem = empty_memory,
      w_threads = map (\<lambda>i. \<lparr>th_t = thread_local_state_new i, th_reader = Not_Reading, th_node = None\<rparr>) [0..<k]\<rparr>"

lemma fine_start_ok:
  assumes "k \<le> MAX_THREADS"
  shows "fine_ok 0 (fine_start k)" "length (w_threads (fine_start k)) = k"
proof -
  have "unat (of_nat k :: u32) = k"
    using assms by (simp add: MAX_THREADS_def unat_of_nat take_bit_eq_mod)
  then show "fine_ok 0 (fine_start k)"
    using assms
    by (auto simp: fine_ok_def fine_start_def shared_ok_def thread_ok_def pacer_system_new_def table_ok_def scc_new_def
        announcement_table_new_def memory_ok_def empty_memory_def registered_def thread_local_state_new_def
        limbo_bag_new_def held_def births_ok_def apart_def o_def scc_ok_new [unfolded scc_new_def])
  show "length (w_threads (fine_start k)) = k" by (simp add: fine_start_def)
qed

lemma start_run:
  assumes "k \<le> MAX_THREADS" "length as \<le> 2 ^ 62" "\<forall>(i, a) \<in> set as. i < k"
  shows "\<exists>w :: 'v fine_world. fine_run S as (fine_start k) = Some (Inr w) \<and> fine_ok (length as) w \<and> length (w_threads w) = k"
proof -
  have "fine_ok 0 (fine_start k :: 'v fine_world)" "length (w_threads (fine_start k :: 'v fine_world)) = k"
    using assms(1) by (simp_all add: fine_start_ok)
  from fine_run_ok [OF this(1), of as S] this(2) assms(2,3) show ?thesis by auto
qed

text \<open>Well-formed states do not go wrong. Under any strategy and any schedule of the halves of reads and writes of up to
  256 threads, no step panics, spins for ever, divides by zero or frees a box twice; afterwards every live
  box is in the bag or in the hands of exactly one thread, so that nothing has leaked.\<close>

theorem halves_run_safely:
  assumes "k \<le> MAX_THREADS" "length as \<le> 2 ^ 62" "\<forall>(i, a) \<in> set as. i < k"
  shows "\<exists>w :: 'v fine_world. fine_run S as (fine_start k) = Some (Inr w) \<and> apart (map held (w_threads w)) \<and>
    (\<forall>th \<in> set (w_threads w). bag_ok (held th) (w_mem w) \<and> births_ok (held th) (w_mem w)) \<and>
    dom (boxes (w_mem w)) = (\<Union>th \<in> set (w_threads w). set (owned_addrs (held th)))"
  using start_run [OF assms, where S = S] by (auto simp: fine_ok_def thread_ok_def)

definition gap_schedule :: "(nat \<times> nat fine_op) list" where
  "gap_schedule = [(0, Acquire 100 5), (1, Prepare 7), (1, Retire_It), (0, Announce_It)]"

theorem halves_run_safely_witness:
  "\<exists>w :: nat fine_world. fine_run TokenAf gap_schedule (fine_start 2) = Some (Inr w) \<and> apart (map held (w_threads w))"
proof -
  have "length gap_schedule \<le> 2 ^ 62" "\<forall>(i, a) \<in> set gap_schedule. i < 2" by (simp_all add: gap_schedule_def)
  from halves_run_safely [OF _ this, of TokenAf] show ?thesis by (auto simp: MAX_THREADS_def)
qed

text \<open>Boxes disappear in one kind of step.\<close>

lemma only_retire_frees:
  assumes "fine_step S a (sys, th, m) = Some (Inr (sys', th', m'))" "boxes m p \<noteq> None" "boxes m' p = None"
  shows "\<exists>q ts k t'. a = Retire_It \<and> th_node th = Some (q, ts) \<and> strategy_retire S sys (th_t th) q ts m = Inr (k, sys', t', m')"
proof (cases a)
  case (Prepare v)
  with assms show ?thesis by (auto simp: version_node_new_def prepare_unfold split: option.splits if_splits)
next
  case Retire_It
  with assms show ?thesis by (auto simp: bind_res_Inr_iff split: option.splits)
qed (use assms in \<open>auto simp: bind_res_Inr_iff split: reader.splits option.splits\<close>)

lemma owned_entry: "p \<in> set (owned_addrs q) \<Longrightarrow> \<exists>ts. (ts, Owned p) \<in> set q"
proof (induction q)
  case (Cons x q)
  then show ?case by (cases x; cases "snd x") auto
qed simp

lemma freed_before_readers:
  assumes "fine_ok n w" "n < 2 ^ 62" "i < length (w_threads w)"
    and "fine_step S a (w_sys w, w_threads w ! i, w_mem w) = Some (Inr (sys', th', m'))"
    and "boxes (w_mem w) p = Some node" "boxes m' p = None"
    and "th \<in> set (w_threads w)" "th_reader th = Reading s"
  shows "birth_ts node < s"
proof -
  let ?th = "w_threads w ! i" and ?m = "w_mem w"
  have t: "shared_ok n (w_sys w) ?m" "thread_ok n (w_sys w) ?m ?th" "thread_ok n (w_sys w) ?m th"
    using assms(1,3,7) by (simp_all add: fine_ok_def)
  obtain q ts k t' where r: "th_node ?th = Some (q, ts)" "strategy_retire S (w_sys w) (th_t ?th) q ts ?m = Inr (k, sys', t', m')"
    using only_retire_frees [OF assms(4) _ assms(6)] assms(5) by auto
  then have e: "retire_effect S (w_sys w) (th_t ?th) q ts ?m k sys' t' m'"
    using retire_worker [OF t(1,2) assms(2) r(1), of S] by auto
  let ?X = "limbo_push (limbo_bag (th_t ?th)) ts q"
  have h: "held ?th = ?X" using r(1) by (rule held_simps)
  have "p \<in> set (owned_addrs (take k ?X))"
    using e assms(5,6) by (auto simp: retire_effect_def free_all_def restrict_map_def split: if_splits)
  then obtain b where b: "(b, Owned p) \<in> set (take k ?X)" using owned_entry by blast
  then have "b < safe_ts_of (w_sys w)" using e by (auto simp: retire_effect_def frees_only_older_def)
  moreover have "birth_ts node = b"
    using t(2) in_set_takeD [OF b] assms(5) unfolding thread_ok_def births_ok_def h by fastforce
  moreover have "s \<in> active_timestamps (announce_tbl (w_sys w))"
    using t(3) assms(8) by (auto simp: thread_ok_def active_timestamps_def ran_def restrict_map_def)
  then have "safe_ts_of (w_sys w) \<le> s" using t(1) by (intro safe_ts_of_le) (simp_all add: shared_ok_def)
  ultimately show ?thesis by order
qed

text \<open>An announced snapshot protects its nodes in every interleaving: whatever the threads have done, and
  whatever a thread does next, if the step frees a node then it was born before every snapshot that some
  thread is reading.\<close>

theorem reading_spares_nodes:
  assumes "k \<le> MAX_THREADS" "length as < 2 ^ 62" "\<forall>(i, a) \<in> set as. i < k" "i < k"
  shows "\<exists>w w' :: 'v fine_world. fine_run S as (fine_start k) = Some (Inr w) \<and> fine_act S (i, a) w = Some (Inr w') \<and>
    (\<forall>p node th s. boxes (w_mem w) p = Some node \<longrightarrow> boxes (w_mem w') p = None \<longrightarrow>
       th \<in> set (w_threads w) \<longrightarrow> th_reader th = Reading s \<longrightarrow> birth_ts node < s)"
proof -
  obtain w :: "'v fine_world" where w: "fine_run S as (fine_start k) = Some (Inr w)" "fine_ok (length as) w"
    "length (w_threads w) = k"
    using start_run [OF assms(1) less_imp_le [OF assms(2)] assms(3)] by blast
  have i: "i < length (w_threads w)" using assms(4) w(3) by simp
  obtain sys' th' m' where s: "fine_step S a (w_sys w, w_threads w ! i, w_mem w) = Some (Inr (sys', th', m'))"
    "fine_act S (i, a) w = Some (Inr \<lparr>w_sys = sys', w_mem = m', w_threads = (w_threads w)[i := th']\<rparr>)"
    using fine_act_ok [OF w(2) assms(2) i, of S a] by auto
  show ?thesis
    using w(1) s(2) freed_before_readers [OF w(2) assms(2) i s(1)] by auto
qed

theorem reading_spares_nodes_witness:
  "\<exists>w w' :: nat fine_world. fine_run TokenAf gap_schedule (fine_start 2) = Some (Inr w) \<and>
     fine_act TokenAf (1, Prepare 3) w = Some (Inr w')"
proof -
  have "length gap_schedule < 2 ^ 62" "\<forall>(i, a) \<in> set gap_schedule. i < 2" by (simp_all add: gap_schedule_def)
  from reading_spares_nodes [OF _ this, of 1 TokenAf "Prepare 3"] show ?thesis by (auto simp: MAX_THREADS_def)
qed

text \<open>The four steps of the next theorem, each with what it needs to know of the step before.\<close>

definition same_others :: "nat \<Rightarrow> 'v fine_world \<Rightarrow> 'v fine_world \<Rightarrow> bool" where
  "same_others i w w' \<longleftrightarrow> length (w_threads w') = length (w_threads w) \<and>
     (\<forall>j. j \<noteq> i \<longrightarrow> w_threads w' ! j = w_threads w ! j)"

lemma same_others_update [simp]: "same_others i w \<lparr>w_sys = sys, w_mem = m, w_threads = (w_threads w)[i := th]\<rparr>"
  by (simp add: same_others_def)

lemma acquire_act:
  assumes "fine_ok n w" "n < 2 ^ 62" "i < length (w_threads w)" "th_reader (w_threads w ! i) = Not_Reading"
  shows "\<exists>s w1. fine_act S (i, Acquire now_ns lat) w = Some (Inr w1) \<and> fine_ok (n + 1) w1 \<and> same_others i w w1 \<and>
    th_reader (w_threads w1 ! i) = Unannounced s \<and> s \<le> global_epoch (w_sys w1) \<and>
    quiet (w_sys w1) = quiet (w_sys w)"
proof -
  have "shared_ok n (w_sys w) (w_mem w)" using assms(1) by (simp add: fine_ok_def)
  then obtain s sys' where a: "snapshot_acquire (w_sys w) (th_t (w_threads w ! i)) now_ns lat
      = Some (s, sys', (th_t (w_threads w ! i))\<lparr>win_snaps := win_snaps (th_t (w_threads w ! i)) + 1\<rparr>)"
    "announce_tbl sys' = announce_tbl (w_sys w)" "global_epoch sys' = global_epoch (w_sys w)" "s \<le> global_epoch (w_sys w)"
    using snapshot_acquire_ok [of n "w_sys w" "w_mem w" "th_t (w_threads w ! i)" now_ns lat] by metis
  obtain sys1 th1 m1 where f: "fine_step S (Acquire now_ns lat) (w_sys w, w_threads w ! i, w_mem w) = Some (Inr (sys1, th1, m1))"
    "fine_act S (i, Acquire now_ns lat) w = Some (Inr \<lparr>w_sys = sys1, w_mem = m1, w_threads = (w_threads w)[i := th1]\<rparr>)"
    "fine_ok (n + 1) \<lparr>w_sys = sys1, w_mem = m1, w_threads = (w_threads w)[i := th1]\<rparr>"
    using fine_act_ok [OF assms(1-3), of S "Acquire now_ns lat"] by blast
  have "sys1 = sys'" "th_reader th1 = Unannounced s" using f(1) a(1) assms(4) by auto
  with f(2,3) a assms(3) show ?thesis by (auto simp: quiet_def)
qed

lemma prepare_act:
  assumes "fine_ok n w" "n < 2 ^ 62" "j < length (w_threads w)" "th_node (w_threads w ! j) = None"
  shows "\<exists>p w1. fine_act S (j, Prepare v) w = Some (Inr w1) \<and> fine_ok (n + 1) w1 \<and> same_others j w w1 \<and>
    th_node (w_threads w1 ! j) = Some (p, global_epoch (w_sys w)) \<and>
    boxes (w_mem w1) p = Some \<lparr>node_value = v, birth_ts = global_epoch (w_sys w), next_ptr = 0\<rparr> \<and>
    limbo_bag (th_t (w_threads w1 ! j)) = limbo_bag (th_t (w_threads w ! j)) \<and>
    gc_mode (th_t (w_threads w1 ! j)) = gc_mode (th_t (w_threads w ! j)) \<and> quiet (w_sys w1) = quiet (w_sys w)"
proof -
  obtain sys1 th1 m1 where f: "fine_step S (Prepare v) (w_sys w, w_threads w ! j, w_mem w) = Some (Inr (sys1, th1, m1))"
    "fine_act S (j, Prepare v) w = Some (Inr \<lparr>w_sys = sys1, w_mem = m1, w_threads = (w_threads w)[j := th1]\<rparr>)"
    "fine_ok (n + 1) \<lparr>w_sys = sys1, w_mem = m1, w_threads = (w_threads w)[j := th1]\<rparr>"
    using fine_act_ok [OF assms(1-3), of S "Prepare v"] by blast
  have "sys1 = (w_sys w)\<lparr>global_epoch := global_epoch (w_sys w) + 1\<rparr>"
    "th1 = (w_threads w ! j)\<lparr>th_t := prepared (th_t (w_threads w ! j)), th_node := Some (next_box (w_mem w), global_epoch (w_sys w))\<rparr>"
    "m1 = snd (version_node_new v (global_epoch (w_sys w)) (w_mem w))"
    using f(1) assms(4) by (auto simp: prepare_unfold)
  with f(2,3) assms(3) show ?thesis by (auto simp: version_node_new_def quiet_def)
qed

lemma retire_act:
  assumes "fine_ok n w" "n < 2 ^ 62" "j < length (w_threads w)" "th_node (w_threads w ! j) = Some (p, ts)"
    and "quiet (w_sys w)" "ts < u64_max" "limbo_bag (th_t (w_threads w ! j)) = []"
    and "gc_mode (th_t (w_threads w ! j)) \<noteq> ConservativeHold" "S \<noteq> BatchEbr"
  shows "\<exists>w1. fine_act S (j, Retire_It) w = Some (Inr w1) \<and> fine_ok (n + 1) w1 \<and> same_others j w w1 \<and>
    boxes (w_mem w1) p = None"
proof -
  let ?th = "w_threads w ! j"
  have t: "shared_ok n (w_sys w) (w_mem w)" "thread_ok n (w_sys w) (w_mem w) ?th"
    using assms(1,3) by (simp_all add: fine_ok_def)
  obtain k sys1 t1 m1 where r: "strategy_retire S (w_sys w) (th_t ?th) p ts (w_mem w) = Inr (k, sys1, t1, m1)"
    "retire_effect S (w_sys w) (th_t ?th) p ts (w_mem w) k sys1 t1 m1"
    using retire_worker [OF t assms(2,4)] by metis
  have "safe_ts_of (w_sys w) = u64_max" using assms(5) by (simp add: safe_ts_of_none quiet_def)
  moreover have "0 < strategy_budget S (w_sys w) (th_t ?th)"
    using assms(8,9) by (cases S; cases "gc_mode (th_t ?th)") simp_all
  ultimately have "k = 1" using r(2) assms(6,7) by (simp add: retire_effect_def limbo_push_def)
  then have "boxes m1 p = None" using r(2) assms(7) by (simp add: retire_effect_def limbo_push_def free_all_def)
  then show ?thesis
    using fine_act_ok [OF assms(1-3), of S Retire_It] r(1) assms(4) by auto
qed

lemma announce_act:
  assumes "fine_ok n w" "n < 2 ^ 62" "i < length (w_threads w)" "th_reader (w_threads w ! i) = Unannounced s"
  shows "\<exists>w1. fine_act S (i, Announce_It) w = Some (Inr w1) \<and> th_reader (w_threads w1 ! i) = Reading s \<and> w_mem w1 = w_mem w"
  using fine_act_ok [OF assms(1-3), of S Announce_It] assms(3,4) by (auto simp: bind_res_Inr_iff)

text \<open>Between the choice of a timestamp and its announcement nothing protects it. While no snapshot is announced,
  let a thread choose its timestamp \<open>s\<close>; a node that another thread then creates, and retires before the first announces
  \<open>s\<close>, is born at \<open>s\<close> or later and yet freed at once, by every strategy that drains with each write.\<close>

theorem unannounced_snapshot_loses_node:
  fixes w :: "'v fine_world"
  assumes "fine_ok n w" "n < 2 ^ 61" "i < length (w_threads w)" "j < length (w_threads w)" "i \<noteq> j" "quiet (w_sys w)"
    and "th_reader (w_threads w ! i) = Not_Reading" "th_node (w_threads w ! j) = None"
    and "limbo_bag (th_t (w_threads w ! j)) = []" "gc_mode (th_t (w_threads w ! j)) \<noteq> ConservativeHold" "S \<noteq> BatchEbr"
  shows "\<exists>w2 w4 p node s. fine_run S [(i, Acquire now_ns lat), (j, Prepare v)] w = Some (Inr w2) \<and>
    boxes (w_mem w2) p = Some node \<and> s \<le> birth_ts node \<and>
    fine_run S [(j, Retire_It), (i, Announce_It)] w2 = Some (Inr w4) \<and>
    th_reader (w_threads w4 ! i) = Reading s \<and> boxes (w_mem w4) p = None"
proof -
  have n: "n < 2 ^ 62" "n + 1 < 2 ^ 62" "n + 1 + 1 < 2 ^ 62" "n + 1 + 1 + 1 < 2 ^ 62" using assms(2) by simp_all
  obtain s w1 where w1: "fine_act S (i, Acquire now_ns lat) w = Some (Inr w1)" "fine_ok (n + 1) w1" "same_others i w w1"
    "th_reader (w_threads w1 ! i) = Unannounced s" "s \<le> global_epoch (w_sys w1)" "quiet (w_sys w1)"
    using acquire_act [OF assms(1) n(1) assms(3,7), of S now_ns lat] assms(6) by blast
  have j: "j < length (w_threads w1)" "w_threads w1 ! j = w_threads w ! j"
    using w1(3) assms(4,5) by (simp_all add: same_others_def)
  obtain p w2 where w2: "fine_act S (j, Prepare v) w1 = Some (Inr w2)" "fine_ok (n + 1 + 1) w2" "same_others j w1 w2"
    "th_node (w_threads w2 ! j) = Some (p, global_epoch (w_sys w1))"
    "boxes (w_mem w2) p = Some \<lparr>node_value = v, birth_ts = global_epoch (w_sys w1), next_ptr = 0\<rparr>"
    "limbo_bag (th_t (w_threads w2 ! j)) = []" "gc_mode (th_t (w_threads w2 ! j)) \<noteq> ConservativeHold" "quiet (w_sys w2)"
    using prepare_act [OF w1(2) n(2) j(1), of S v] assms(8-10) w1(6) j(2) by auto
  have "global_epoch (w_sys w1) < u64_max"
    using w1(2) assms(2) by (intro less_u64_max [of _ "n + 2"]) (simp_all add: fine_ok_def shared_ok_def)
  then obtain w3 where w3: "fine_act S (j, Retire_It) w2 = Some (Inr w3)" "fine_ok (n + 1 + 1 + 1) w3" "same_others j w2 w3"
    "boxes (w_mem w3) p = None"
    using retire_act [OF w2(2) n(3) _ w2(4,8) _ w2(6,7) assms(11)] w2(3) j(1) by (auto simp: same_others_def)
  have i: "i < length (w_threads w3)" "th_reader (w_threads w3 ! i) = Unannounced s"
    using w1(3,4) w2(3) w3(3) assms(3,5) by (simp_all add: same_others_def)
  obtain w4 where w4: "fine_act S (i, Announce_It) w3 = Some (Inr w4)" "th_reader (w_threads w4 ! i) = Reading s"
    "w_mem w4 = w_mem w3"
    using announce_act [OF w3(2) n(4) i] by blast
  show ?thesis
    by (rule exI [of _ w2], rule exI [of _ w4], rule exI [of _ p],
        rule exI [of _ "\<lparr>node_value = v, birth_ts = global_epoch (w_sys w1), next_ptr = 0\<rparr>"], rule exI [of _ s])
      (simp add: w1(1,5) w2(1,5) w3(1,4) w4)
qed

theorem unannounced_snapshot_loses_node_witness:
  "\<exists>w2 w4 p node s. fine_run TokenAf [(0, Acquire 100 5), (1, Prepare (7 :: nat))] (fine_start 2) = Some (Inr w2) \<and>
     boxes (w_mem w2) p = Some node \<and> s \<le> birth_ts node \<and>
     fine_run TokenAf [(1, Retire_It), (0, Announce_It)] w2 = Some (Inr w4) \<and>
     th_reader (w_threads w4 ! 0) = Reading s \<and> boxes (w_mem w4) p = None"
proof (rule unannounced_snapshot_loses_node)
  show "fine_ok 0 (fine_start 2)" by (rule fine_start_ok) (simp add: MAX_THREADS_def)
  have "announced (announcement_table_new\<lparr>active_count := c\<rparr>) i = None" for i c
    by (simp add: announced_def announcement_table_new_def announcement_slot_new_def)
  then show "quiet (w_sys (fine_start 2))" by (simp add: quiet_iff fine_start_def pacer_system_new_def)
qed (simp_all add: fine_start_def thread_local_state_new_def limbo_bag_new_def nth_append upt_rec)

definition solo_world :: "'v worker \<Rightarrow> 'v fine_world" where
  "solo_world = (\<lambda>(sys, t, m).
     \<lparr>w_sys = sys, w_mem = m, w_threads = [\<lparr>th_t = t, th_reader = Not_Reading, th_node = None\<rparr>]\<rparr>)"

fun halves :: "'v worker_op \<Rightarrow> (nat \<times> 'v fine_op) list" where
  "halves (Write v) = [(0, Prepare v), (0, Retire_It)]"
| "halves (Read now_ns lat) = [(0, Acquire now_ns lat), (0, Announce_It), (0, Release_It)]"

text \<open>The halves are the operations: when nothing comes between them, the halves of a write, and those of a read,
  have exactly the results of the whole operation of the sequential model, failures and calls that
  never return included.\<close>

theorem halves_make_whole:
  "fine_run S (halves x) (solo_world w) = map_option (map_sum id (\<lambda>(n, w'). solo_world w')) (worker_step S x w)"
proof (cases x)
  case (Write v)
  obtain sys t m where w: "w = (sys, t, m)" by (metis prod_cases3)
  show ?thesis
    by (cases "strategy_retire S (sys\<lparr>global_epoch := global_epoch sys + 1\<rparr>) (prepared t) (next_box m) (global_epoch sys)
        (snd (version_node_new v (global_epoch sys) m))")
      (auto simp: Write w solo_world_def fine_act_def prepare_unfold)
next
  case (Read now_ns lat)
  obtain sys t m where w: "w = (sys, t, m)" by (metis prod_cases3)
  show ?thesis
  proof (cases "snapshot_acquire sys t now_ns lat")
    case None
    then show ?thesis by (simp add: Read w solo_world_def fine_act_def take_snapshot_halves)
  next
    case (Some y)
    obtain ts sys1 t1 where y: "y = (ts, sys1, t1)" by (metis prod_cases3)
    show ?thesis
    proof (cases "announce_snapshot sys1 (tid t1) ts")
      case (Inl e)
      then show ?thesis using Some by (simp add: Read w y solo_world_def fine_act_def take_snapshot_halves)
    next
      case (Inr sys2)
      then show ?thesis
        using Some
        by (cases "release_snapshot_for sys2 t1")
          (simp_all add: Read w y solo_world_def fine_act_def take_snapshot_halves)
    qed
  qed
qed

end
