(* ===== verification/Collector_Steps.thy ===== *)
theory Collector_Steps
  imports Interleaved Scc_Steps Announce_Scan
begin

text \<open>
  The whole collector, access by access. Any number of registered threads read, write and retire under one
  of the four strategies of \<open>src/src/lib.rs\<close>; between any two atomic accesses of a thread any other thread may
  run. An access to an atomic of the shared state is one step, together with the code up to the next access,
  which is local to the thread: its counters, its bag, the nodes it frees. \<open>Scc_Steps\<close> gives the accesses of
  \<open>Scc::take_snapshot\<close> and \<open>Announce_Scan\<close> those of the scan; this theory puts them into \<open>take_snapshot\<close>,
  \<open>write_op_prepare\<close>, \<open>post_write\<close>, \<open>reclaim_discrete\<close> and \<open>reclaim_continuous\<close>.
\<close>

section \<open>Control points\<close>

text \<open>A scan and a drain belong to the write itself, or to the window pass with its batch.\<close>

datatype drain_stage = Tick | Window nat

datatype collector_pc =
    At_Rest
  | In_Scc scc_pc u64
  | Latency_Load u64 u64
  | Latency_Store u64 u64
  | Store_Announce u64
  | Scanning drain_stage scan_pc
  | Draining drain_stage u64
  | Store_Spi u64 u64
  | Store_Delta u64
  | Load_Delta
  | Epoch_Load
  | Epoch_Cas u64

section \<open>The local code between the accesses\<close>

text \<open>The drain of a write, with the timestamp its scan has found.\<close>

fun tick_at :: "strategy \<Rightarrow> u64 \<Rightarrow> thread_local_state \<Rightarrow> 'v memory \<Rightarrow> (nat \<times> thread_local_state \<times> 'v memory) res" where
  "tick_at PacerDiscrete safe_ts t m =
     (case gc_mode t of
        AggressiveEbr \<Rightarrow> drain_bag (t\<lparr>hold_ticks := 0\<rparr>) safe_ts AGGRESSIVE_DRAIN_PER_OP m
      | AmortisedFree \<Rightarrow> drain_bag (t\<lparr>hold_ticks := 0\<rparr>) safe_ts AF_BATCH_K m
      | ConservativeHold \<Rightarrow>
          let t1 = t\<lparr>hold_ticks := hold_ticks t + 1\<rparr> in
          if HOLD_LIMIT \<le> hold_ticks t1
          then drain_bag (t1\<lparr>hold_ticks := 0\<rparr>) safe_ts (unat HOLD_LIMIT) m
          else Inr (0, t1, m))"
| "tick_at PacerContinuous safe_ts t m = drain_bag t safe_ts CONTINUOUS_DRAIN_PER_OP m"
| "tick_at TokenAf safe_ts t m = drain_bag t safe_ts AF_BATCH_K m"
| "tick_at BatchEbr safe_ts t m = drain_bag t safe_ts usize_max m"

text \<open>\<open>resample_spi\<close> up to its two stores: the thread with its new index, and the bits to publish.\<close>

definition resample_local :: "thread_local_state \<Rightarrow> (thread_local_state \<times> u64 \<times> u64) option" where
  "resample_local t =
     (let w = win_writes t; s = win_snaps t; total = w + s in
      if total = 0 then None
      else
        let win_spi = f64_of_u64 s / f64_of_u64 (total + 1);
            prev_ema = spi_ema t;
            t1 = t\<lparr>spi_ema := prev_ema * (1 - SPI_EMA_ALPHA) + win_spi * SPI_EMA_ALPHA\<rparr>
        in Some (t1, f64_to_bits (spi_ema t1), f64_to_bits (spi_ema t1 - prev_ema)))"

text \<open>Whether the pass strides.\<close>

definition stride_pc :: "thread_local_state \<Rightarrow> (thread_local_state \<times> collector_pc) res" where
  "stride_pc t =
     (let stride = compute_epoch_stride (spi_ema t) in
      if stride = 0 then Inl DivisionByZero
      else Inr (t, if op_counter t mod stride = 0 then Epoch_Load else At_Rest))"

text \<open>The window pass up to its first access.\<close>

fun window_pass :: "strategy \<Rightarrow> thread_local_state \<Rightarrow> (thread_local_state \<times> collector_pc) res" where
  "window_pass PacerDiscrete t =
     (let mode = select_gc_mode_with_hysteresis (spi_ema t) (gc_mode t); t1 = t\<lparr>gc_mode := mode\<rparr> in
      case mode of ConservativeHold \<Rightarrow> Inr (t1, At_Rest) | _ \<Rightarrow> stride_pc t1)"
| "window_pass PacerContinuous t = Inr (t, Load_Delta)"
| "window_pass _ t = Inr (t, At_Rest)"

fun has_window_pass :: "strategy \<Rightarrow> bool" where
  "has_window_pass PacerDiscrete = True"
| "has_window_pass PacerContinuous = True"
| "has_window_pass _ = False"

definition tick_done :: "strategy \<Rightarrow> thread_local_state \<Rightarrow> (thread_local_state \<times> collector_pc) res" where
  "tick_done S t =
     (if has_window_pass S \<and> op_counter t mod WINDOW_SIZE = 0
      then (case resample_local t of
              None \<Rightarrow> window_pass S t
            | Some (t1, x, d) \<Rightarrow> Inr (t1, Store_Spi x d))
      else Inr (t, At_Rest))"

section \<open>One access\<close>

text \<open>What a thread has of the shared state, its own state, the memory and its next control point after an access.\<close>

fun collector_access ::
  "strategy \<Rightarrow> collector_pc \<Rightarrow> pacer_system \<times> thread_local_state \<times> 'v memory
    \<Rightarrow> (pacer_system \<times> thread_local_state \<times> 'v memory \<times> collector_pc) res" where
  "collector_access S At_Rest (sys, t, m) = Inr (sys, t, m, At_Rest)"
| "collector_access S (In_Scc pc lat) (sys, t, m) =
     (let (s', pc') = scc_thread_step (scc sys) (global_epoch sys) pc
      in Inr (sys\<lparr>scc := s'\<rparr>, t, m, case pc' of Done ts \<Rightarrow> Latency_Load ts lat | _ \<Rightarrow> In_Scc pc' lat))"
| "collector_access S (Latency_Load ts lat) (sys, t, m) =
     Inr (sys, t, m, Latency_Store ts (p99_ns (record_latency_ns (scc sys) lat)))"
| "collector_access S (Latency_Store ts v) (sys, t, m) =
     Inr (sys\<lparr>scc := (scc sys)\<lparr>p99_ns := v\<rparr>\<rparr>, t, m, Store_Announce ts)"
| "collector_access S (Store_Announce ts) (sys, t, m) =
     bind_res (announce_snapshot sys (tid t) ts) (\<lambda>sys'. Inr (sys', t, m, At_Rest))"
| "collector_access S (Scanning stage pc) (sys, t, m) =
     (case scan_step (announce_tbl sys) pc of
        Scan_Done (Inl e) \<Rightarrow> Inl e
      | Scan_Done (Inr safe_ts) \<Rightarrow> Inr (sys, t, m, Draining stage safe_ts)
      | pc' \<Rightarrow> Inr (sys, t, m, Scanning stage pc'))"
| "collector_access S (Draining Tick safe_ts) (sys, t, m) =
     bind_res (tick_at S safe_ts t m) (\<lambda>(freed, t1, m1).
       bind_res (tick_done S t1) (\<lambda>(t2, pc'). Inr (sys, t2, m1, pc')))"
| "collector_access S (Draining (Window bk) safe_ts) (sys, t, m) =
     bind_res (drain_bag t safe_ts bk m) (\<lambda>(freed, t1, m1).
       bind_res (stride_pc t1) (\<lambda>(t2, pc'). Inr (sys, t2, m1, pc')))"
| "collector_access S (Store_Spi x d) (sys, t, m) = Inr (sys\<lparr>approx_spi := x\<rparr>, t, m, Store_Delta d)"
| "collector_access S (Store_Delta d) (sys, t, m) =
     bind_res (window_pass S (t\<lparr>win_writes := 0, win_snaps := 0\<rparr>)) (\<lambda>(t1, pc').
       Inr (sys\<lparr>delta_spi := d\<rparr>, t1, m, pc'))"
| "collector_access S Load_Delta (sys, t, m) =
     Inr (sys, t, m, Scanning (Window (compute_batch_k (spi_ema t) (load_delta_spi sys))) Read_Count)"
| "collector_access S Epoch_Load (sys, t, m) = Inr (sys, t, m, Epoch_Cas (global_epoch sys))"
| "collector_access S (Epoch_Cas cur) (sys, t, m) =
     Inr (if global_epoch sys = cur
          then (sys\<lparr>global_epoch := cur + 1\<rparr>, t\<lparr>fail_streak := 0\<rparr>, m, At_Rest)
          else (sys, t\<lparr>fail_streak := saturating_add (fail_streak t) 1\<rparr>, m, At_Rest))"

section \<open>Threads and schedules\<close>

record collector_thread =
  c_t :: thread_local_state
  c_node :: "(addr \<times> u64) option"
  c_pc :: collector_pc

record 'v collector =
  c_sys :: pacer_system
  c_mem :: "'v memory"
  c_threads :: "collector_thread list"

text \<open>A thread at rest calls an operation; a call does what comes before the first access, or the one
  access there is. A call that is not possible does nothing.\<close>

datatype 'v collector_op = Call_Snapshot u64 u64 | Call_Release | Call_Prepare 'v | Call_Retire | Next_Access

definition retire_pc :: "strategy \<Rightarrow> thread_local_state \<Rightarrow> collector_pc" where
  "retire_pc S t =
     (if S = BatchEbr \<and> op_counter t mod WINDOW_SIZE \<noteq> 0 then At_Rest else Scanning Tick Read_Count)"

fun collector_step ::
  "strategy \<Rightarrow> 'v collector_op \<Rightarrow> pacer_system \<times> collector_thread \<times> 'v memory
    \<Rightarrow> (pacer_system \<times> collector_thread \<times> 'v memory) res" where
  "collector_step S (Call_Snapshot now_ns lat) (sys, th, m) =
     Inr (if c_pc th = At_Rest
          then (sys, th\<lparr>c_t := (c_t th)\<lparr>win_snaps := win_snaps (c_t th) + 1\<rparr>, c_pc := In_Scc (Enter now_ns) lat\<rparr>, m)
          else (sys, th, m))"
| "collector_step S Call_Release (sys, th, m) =
     (if c_pc th = At_Rest
      then bind_res (release_snapshot_for sys (c_t th)) (\<lambda>sys'. Inr (sys', th, m))
      else Inr (sys, th, m))"
| "collector_step S (Call_Prepare v) (sys, th, m) =
     Inr (if c_pc th = At_Rest \<and> c_node th = None
          then (let (p, ts, sys', t', m') = write_op_prepare sys (c_t th) v m
                in (sys', th\<lparr>c_t := t', c_node := Some (p, ts)\<rparr>, m'))
          else (sys, th, m))"
| "collector_step S Call_Retire (sys, th, m) =
     Inr (case (c_pc th, c_node th) of
            (At_Rest, Some (p, ts)) \<Rightarrow>
              (let t1 = (c_t th)\<lparr>limbo_bag := limbo_push (limbo_bag (c_t th)) ts p\<rparr>
               in (sys, th\<lparr>c_t := t1, c_node := None, c_pc := retire_pc S t1\<rparr>, m))
          | _ \<Rightarrow> (sys, th, m))"
| "collector_step S Next_Access (sys, th, m) =
     bind_res (collector_access S (c_pc th) (sys, c_t th, m)) (\<lambda>(sys', t', m', pc').
       Inr (sys', th\<lparr>c_t := t', c_pc := pc'\<rparr>, m'))"

definition collector_act :: "strategy \<Rightarrow> nat \<times> 'v collector_op \<Rightarrow> 'v collector \<Rightarrow> 'v collector res" where
  "collector_act S x w = (case x of (i, a) \<Rightarrow>
     bind_res (collector_step S a (c_sys w, c_threads w ! i, c_mem w)) (\<lambda>(sys', th', m').
       Inr \<lparr>c_sys = sys', c_mem = m', c_threads = (c_threads w)[i := th']\<rparr>))"

fun collector_run :: "strategy \<Rightarrow> (nat \<times> 'v collector_op) list \<Rightarrow> 'v collector \<Rightarrow> 'v collector res" where
  "collector_run S [] w = Inr w"
| "collector_run S (x # xs) w = bind_res (collector_act S x w) (collector_run S xs)"

text \<open>Threads that have just registered.\<close>

definition collector_start :: "nat \<Rightarrow> 'v collector" where
  "collector_start k =
     \<lparr>c_sys = pacer_system_new\<lparr>announce_tbl := announcement_table_new\<lparr>active_count := of_nat k\<rparr>\<rparr>,
      c_mem = empty_memory,
      c_threads = map (\<lambda>i. \<lparr>c_t = thread_local_state_new i, c_node = None, c_pc = At_Rest\<rparr>) [0..<k]\<rparr>"


section \<open>A thread that is not interrupted\<close>

type_synonym 'v collector_state = "pacer_system \<times> thread_local_state \<times> 'v memory \<times> collector_pc"

fun alone :: "strategy \<Rightarrow> nat \<Rightarrow> 'v collector_state \<Rightarrow> 'v collector_state res" where
  "alone S 0 x = Inr x"
| "alone S (Suc k) (sys, t, m, pc) = bind_res (collector_access S pc (sys, t, m)) (alone S k)"

definition leads :: "strategy \<Rightarrow> 'v collector_state \<Rightarrow> 'v collector_state res \<Rightarrow> bool" where
  "leads S x r \<longleftrightarrow> (\<exists>k. alone S k x = r)"

lemma leads_now: "leads S x (Inr x)"
  unfolding leads_def by (rule exI [of _ 0]) simp

lemma leads_access:
  "collector_access S pc (sys, t, m) = Inr y \<Longrightarrow> leads S y r \<Longrightarrow> leads S (sys, t, m, pc) r"
  unfolding leads_def by (metis alone.simps(2) bind_res.simps(2))

lemma leads_fail: "collector_access S pc (sys, t, m) = Inl e \<Longrightarrow> leads S (sys, t, m, pc) (Inl e)"
  unfolding leads_def by (rule exI [of _ 1]) simp

text \<open>The scan of a thread alone is the sequential scan.\<close>

lemma leads_slots:
  assumes "i < n"
  shows "case scan_slots (slots (announce_tbl sys)) [i..<n] x of
      Inl e \<Rightarrow> leads S (sys, t, m, Scanning stage (Read_Slot n i x)) (Inl e)
    | Inr safe \<Rightarrow> leads S (sys, t, m, Draining stage safe) r \<longrightarrow> leads S (sys, t, m, Scanning stage (Read_Slot n i x)) r"
  using assms
proof (induction "n - i" arbitrary: i x)
  case (Suc d)
  let ?ss = "slots (announce_tbl sys)"
  show ?case
  proof (cases "i < length ?ss")
    case False
    then have "leads S (sys, t, m, Scanning stage (Read_Slot n i x)) (Inl IndexOutOfBounds)"
      by (intro leads_fail) simp
    then show ?thesis using Suc.prems False by (simp add: upt_conv_Cons)
  next
    case True
    define y where "y = min_update (active_ts (?ss ! i)) x"
    have sl: "scan_slots ?ss [i..<n] x = scan_slots ?ss [i + 1..<n] y"
      using Suc.prems True by (simp add: upt_conv_Cons y_def)
    show ?thesis
    proof (cases "i + 1 < n")
      case True
      have st: "collector_access S (Scanning stage (Read_Slot n i x)) (sys, t, m) = Inr (sys, t, m, Scanning stage (Read_Slot n (i + 1) y))"
        using \<open>i < length ?ss\<close> True by (simp add: next_slot_def y_def)
      have "d = n - (i + 1)" using Suc.hyps(2) by simp
      from Suc.hyps(1) [OF this True, of y] show ?thesis
        unfolding sl using leads_access [OF st] by (auto split: sum.splits)
    next
      case False
      then have "[i + 1..<n] = []" by simp
      moreover have "collector_access S (Scanning stage (Read_Slot n i x)) (sys, t, m) = Inr (sys, t, m, Draining stage y)"
        using \<open>i < length ?ss\<close> False by (simp add: next_slot_def y_def)
      from leads_access [OF this] have "leads S (sys, t, m, Draining stage y) r
        \<Longrightarrow> leads S (sys, t, m, Scanning stage (Read_Slot n i x)) r" .
      ultimately show ?thesis unfolding sl by (simp only: scan_slots.simps sum.case) (rule impI)
    qed
  qed
qed simp

lemma leads_scan:
  "leads S (sys, t, m, Scanning stage Read_Count) (bind_res (safe_reclaim_ts sys) g)"
  if "\<And>safe. safe_reclaim_ts sys = Inr safe \<Longrightarrow> leads S (sys, t, m, Draining stage safe) (g safe)"
proof -
  let ?n = "unat (active_count (announce_tbl sys))"
  have r: "safe_reclaim_ts sys = scan_slots (slots (announce_tbl sys)) [0..<?n] u64_max"
    by (simp add: safe_reclaim_ts_def min_active_ts_def)
  show ?thesis
  proof (cases "0 < ?n")
    case False
    then have "collector_access S (Scanning stage Read_Count) (sys, t, m) = Inr (sys, t, m, Draining stage u64_max)"
      by (simp add: next_slot_def)
    note st = leads_access [OF this]
    have "safe_reclaim_ts sys = Inr u64_max" using False r by simp
    with st that show ?thesis by simp
  next
    case True
    have "collector_access S (Scanning stage Read_Count) (sys, t, m) = Inr (sys, t, m, Scanning stage (Read_Slot ?n 0 u64_max))"
      using True by (simp add: next_slot_def)
    note st = leads_access [OF this]
    show ?thesis
    proof (cases "safe_reclaim_ts sys")
      case (Inl e)
      with leads_slots [where S = S and sys = sys and t = t and m = m and stage = stage and x = u64_max, OF True] st show ?thesis by (simp add: r)
    next
      case (Inr safe)
      with leads_slots [where S = S and sys = sys and t = t and m = m and stage = stage and x = u64_max and r = "g safe", OF True] st that show ?thesis by (simp add: r)
    qed
  qed
qed

text \<open>The accesses of \<open>Scc::take_snapshot\<close>.\<close>

lemma leads_solo:
  assumes "solo k (scc sys) (global_epoch sys) pc = (s', Done ts)" "\<And>x. pc \<noteq> Done x"
    and "leads S (sys\<lparr>scc := s'\<rparr>, t, m, Latency_Load ts lat) r"
  shows "leads S (sys, t, m, In_Scc pc lat) r"
  using assms
proof (induction k arbitrary: sys pc)
  case (Suc k)
  obtain s1 pc1 where st: "scc_thread_step (scc sys) (global_epoch sys) pc = (s1, pc1)" by fastforce
  then have rest: "solo k s1 (global_epoch sys) pc1 = (s', Done ts)" using Suc.prems(1) by simp
  show ?case
  proof (cases "\<exists>x. pc1 = Done x")
    case True
    then have "pc1 = Done ts" "s1 = s'" using rest by auto
    then have "collector_access S (In_Scc pc lat) (sys, t, m) = Inr (sys\<lparr>scc := s'\<rparr>, t, m, Latency_Load ts lat)"
      using st by simp
    from leads_access [OF this Suc.prems(3)] show ?thesis .
  next
    case False
    then have "collector_access S (In_Scc pc lat) (sys, t, m) = Inr (sys\<lparr>scc := s1\<rparr>, t, m, In_Scc pc1 lat)"
      using st by (cases pc1) simp_all
    note step = leads_access [OF this]
    have "leads S (sys\<lparr>scc := s1\<rparr>, t, m, In_Scc pc1 lat) r"
      by (rule Suc.IH) (use rest False Suc.prems(3) in simp_all)
    then show ?thesis by (rule step)
  qed
qed simp

lemma record_latency_p99: "s\<lparr>p99_ns := p99_ns (record_latency_ns s lat)\<rparr> = record_latency_ns s lat"
  by (simp add: record_latency_ns_def)

lemma leads_snapshot:
  assumes "take_snapshot sys t now_ns lat = Some r"
  shows "leads S (sys, t\<lparr>win_snaps := win_snaps t + 1\<rparr>, m, In_Scc (Enter now_ns) lat)
    (map_sum id (\<lambda>(ts, sys', t'). (sys', t', m, At_Rest)) r)"
proof -
  let ?t = "t\<lparr>win_snaps := win_snaps t + 1\<rparr>"
  obtain ts s1 where sn: "scc_take_snapshot (scc sys) now_ns (global_epoch sys) = Some (ts, s1)"
    and r: "r = bind_res (announce_snapshot (sys\<lparr>scc := record_latency_ns s1 lat\<rparr>) (tid t) ts) (\<lambda>sys2. Inr (ts, sys2, ?t))"
    using assms by (auto simp: take_snapshot_def Let_def split: option.splits)
  have "even (window_gen (scc sys))"
    using sn snapshot_loop_returns_even
    by (cases "snapshot_loop now_ns (global_epoch sys) ((scc sys)\<lparr>total_count := total_count (scc sys) + 1\<rparr>)")
      (fastforce simp: scc_take_snapshot_def)+
  then have so: "solo 14 (scc sys) (global_epoch sys) (Enter now_ns) = (s1, Done ts)"
    using solo_refines_sequential sn by simp
  show ?thesis
  proof (rule leads_solo [OF so])
    show "leads S (sys\<lparr>scc := s1\<rparr>, ?t, m, Latency_Load ts lat) (map_sum id (\<lambda>(ts, sys', t'). (sys', t', m, At_Rest)) r)"
      by (rule leads_access, simp, rule leads_access, simp)
        (cases "announce_snapshot (sys\<lparr>scc := record_latency_ns s1 lat\<rparr>) (tid t) ts";
          auto simp: r record_latency_p99 intro: leads_access leads_fail leads_now)
  qed simp
qed


text \<open>Local code that ends at a control point, or fails.\<close>

definition continues ::
  "strategy \<Rightarrow> pacer_system \<Rightarrow> 'v memory \<Rightarrow> (thread_local_state \<times> collector_pc) res \<Rightarrow> 'v collector_state res \<Rightarrow> bool" where
  "continues S sys m x r = (case x of Inl e \<Rightarrow> r = Inl e | Inr (t, pc) \<Rightarrow> leads S (sys, t, m, pc) r)"

lemma continues_simps [simp]:
  "continues S sys m (Inl e) r \<longleftrightarrow> r = Inl e"
  "continues S sys m (Inr (t, pc)) r \<longleftrightarrow> leads S (sys, t, m, pc) r"
  by (simp_all add: continues_def)

lemma leads_continues:
  assumes "collector_access S pc (sys, t, m) = bind_res x (\<lambda>(t2, pc'). Inr (sys', t2, m', pc'))"
    and "continues S sys' m' x r"
  shows "leads S (sys, t, m, pc) r"
proof (cases x)
  case (Inl e)
  then show ?thesis using assms by (simp add: leads_fail)
next
  case (Inr y)
  obtain t2 pc' where y: "y = (t2, pc')" by fastforce
  have "collector_access S pc (sys, t, m) = Inr (sys', t2, m', pc')" using assms(1) Inr y by simp
  from leads_access [OF this] show ?thesis using assms(2) Inr y by simp
qed

lemma leads_epoch: "leads S (sys, t, m, Epoch_Load) (Inr (case step_epoch sys t of (sys', t') \<Rightarrow> (sys', t', m, At_Rest)))"
  by (rule leads_access, simp, rule leads_access, simp) (simp add: step_epoch_alone leads_now)

lemma leads_epoch_eq: "step_epoch sys t = (sys', t') \<Longrightarrow> leads S (sys, t, m, Epoch_Load) (Inr (sys', t', m, At_Rest))"
  using leads_epoch [of S sys t m] by simp

definition ended :: "'v memory \<Rightarrow> nat \<times> pacer_system \<times> thread_local_state \<Rightarrow> 'v collector_state" where
  "ended m = (\<lambda>(n, sys', t'). (sys', t', m, At_Rest))"

definition ended_all :: "nat \<times> pacer_system \<times> thread_local_state \<times> 'v memory \<Rightarrow> 'v collector_state" where
  "ended_all = (\<lambda>(n, sys', t', m'). (sys', t', m', At_Rest))"

lemma continues_discrete:
  "continues S sys m (window_pass PacerDiscrete t) (map_sum id (ended m) (reclaim_discrete sys t))"
  by (cases "select_gc_mode_with_hysteresis (spi_ema t) (gc_mode t)")
    (simp_all add: reclaim_discrete_def stride_pc_def Let_def ended_def leads_now leads_epoch [unfolded split_beta] split_beta)

lemma leads_reclaim_continuous:
  "leads S (sys, t, m, Load_Delta) (map_sum id ended_all (reclaim_continuous sys t m))"
proof (rule leads_access, simp)
  let ?bk = "compute_batch_k (spi_ema t) (load_delta_spi sys)"
  let ?g = "\<lambda>safe. map_sum id ended_all (bind_res (drain_bag t safe ?bk m) (\<lambda>(freed, t1, m'::'a memory).
      let stride = compute_epoch_stride (spi_ema t) in
      if stride = 0 then Inl DivisionByZero
      else if op_counter t1 mod stride = 0
      then (let (sys', t2) = step_epoch sys t1 in Inr (freed, sys', t2, m'))
      else Inr (freed, sys, t1, m')))"
  have drained: "leads S (sys, t, m, Draining (Window ?bk) safe) (?g safe)" for safe
  proof (cases "drain_bag t safe ?bk m")
    case (Inl e)
    then have "collector_access S (Draining (Window ?bk) safe) (sys, t, m) = Inl e" by simp
    from leads_fail [OF this] Inl show ?thesis by simp
  next
    case (Inr y)
    obtain n t1 m1 where y: "y = (n, t1, m1)" by (metis prod_cases3)
    have e: "spi_ema t1 = spi_ema t" using Inr y by (auto simp: drain_bag_def bind_res_Inr_iff)
    show ?thesis
    proof (rule leads_continues [where x = "stride_pc t1" and sys' = sys and m' = m1])
      show "continues S sys m1 (stride_pc t1) (?g safe)"
        by (cases "step_epoch sys t1") (simp add: Inr y e ended_all_def stride_pc_def Let_def leads_now leads_epoch_eq)
    qed (simp add: Inr y)
  qed
  have "map_sum id ended_all (reclaim_continuous sys t m) = bind_res (safe_reclaim_ts sys) ?g"
    by (cases "safe_reclaim_ts sys") (simp_all add: reclaim_continuous_def Let_def)
  moreover have "leads S (sys, t, m, Scanning (Window ?bk) Read_Count) (bind_res (safe_reclaim_ts sys) ?g)"
    by (rule leads_scan) (rule drained)
  ultimately show "leads S (sys, t, m, Scanning (Window ?bk) Read_Count) (map_sum id ended_all (reclaim_continuous sys t m))"
    by simp
qed

lemma resample_halves:
  "resample_local t = None \<Longrightarrow> resample_spi sys t = (sys, t)"
  "resample_local t = Some (t1, x, d) \<Longrightarrow>
     resample_spi sys t = (sys\<lparr>approx_spi := x, delta_spi := d\<rparr>, t1\<lparr>win_writes := 0, win_snaps := 0\<rparr>)"
  by (auto simp: resample_local_def resample_spi_def Let_def split: if_splits)

lemma continues_tick_done:
  assumes "has_window_pass S" "op_counter t mod WINDOW_SIZE = 0" "resample_spi sys t = (sys1, t1)"
    and "continues S sys1 m (window_pass S t1) r"
  shows "continues S sys m (tick_done S t) r"
proof (cases "resample_local t")
  case None
  then show ?thesis using assms resample_halves(1) [OF None, of sys] by (simp add: tick_done_def)
next
  case (Some y)
  obtain t2 x d where y: "y = (t2, x, d)" by (metis prod_cases3)
  note r = resample_halves(2) [OF Some [unfolded y], of sys]
  have "leads S (sys\<lparr>approx_spi := x\<rparr>, t2, m, Store_Delta d) r"
    by (rule leads_continues [where x = "window_pass S t1" and sys' = sys1 and m' = m])
      (use assms(3,4) r in simp_all)
  then have "leads S (sys, t2, m, Store_Spi x d) r" by (intro leads_access [where pc = "Store_Spi x d"]) simp_all
  then show ?thesis using assms(1,2) Some y by (simp add: tick_done_def)
qed

lemma continues_simps_ended: "map_sum id f (bind_res x g) = bind_res x (\<lambda>y. map_sum id f (g y))"
  by (cases x) simp_all

lemma leads_tick:
  assumes "\<And>n t1 m1. continues S sys m1 (tick_done S t1) (g (n, t1, m1))"
  shows "leads S (sys, t, m, Scanning Tick Read_Count)
    (bind_res (safe_reclaim_ts sys) (\<lambda>safe. bind_res (tick_at S safe t m) g))"
proof (rule leads_scan)
  fix safe
  show "leads S (sys, t, m, Draining Tick safe) (bind_res (tick_at S safe t m) g)"
  proof (cases "tick_at S safe t m")
    case (Inl e)
    then have "collector_access S (Draining Tick safe) (sys, t, m) = Inl e" by simp
    from leads_fail [OF this] Inl show ?thesis by simp
  next
    case (Inr y)
    obtain n t1 m1 where y: "y = (n, t1, m1)" by (metis prod_cases3)
    show ?thesis
      by (rule leads_continues [where x = "tick_done S t1" and sys' = sys and m' = m1])
        (use assms in \<open>simp_all add: Inr y\<close>)
  qed
qed

text \<open>The pass at the end of a window, as the sequential code runs it after its drain.\<close>

lemma continues_window:
  "continues PacerDiscrete sys m (tick_done PacerDiscrete t) (map_sum id ended_all
    (if op_counter t mod WINDOW_SIZE = 0
     then (let (sys1, t3) = resample_spi sys t in
           bind_res (reclaim_discrete sys1 t3) (\<lambda>(n', sys2, t4). Inr (n + n', sys2, t4, m)))
     else Inr (n, sys, t, m)))"
proof (cases "op_counter t mod WINDOW_SIZE = 0")
  case True
  obtain sys1 t3 where r: "resample_spi sys t = (sys1, t3)" by fastforce
  have "map_sum id ended_all (bind_res (reclaim_discrete sys1 t3) (\<lambda>(n', sys2, t4). Inr (n + n', sys2, t4, m)))
    = map_sum id (ended m) (reclaim_discrete sys1 t3)"
    by (cases "reclaim_discrete sys1 t3") (auto simp: ended_def ended_all_def)
  with continues_discrete [of PacerDiscrete sys1 m t3] True r show ?thesis
    by (intro continues_tick_done [OF _ True r]) simp_all
next
  case False
  then show ?thesis by (simp add: tick_done_def ended_all_def leads_now)
qed

lemma continues_window_continuous:
  "continues PacerContinuous sys m (tick_done PacerContinuous t) (map_sum id ended_all
    (if op_counter t mod WINDOW_SIZE = 0
     then (let (sys1, t3) = resample_spi sys t in
           bind_res (reclaim_continuous sys1 t3 m) (\<lambda>(n', sys2, t4, m4). Inr (n + n', sys2, t4, m4)))
     else Inr (n, sys, t, m)))"
proof (cases "op_counter t mod WINDOW_SIZE = 0")
  case True
  obtain sys1 t3 where r: "resample_spi sys t = (sys1, t3)" by fastforce
  have "map_sum id ended_all (bind_res (reclaim_continuous sys1 t3 m) (\<lambda>(n', sys2, t4, m4). Inr (n + n', sys2, t4, m4)))
    = map_sum id ended_all (reclaim_continuous sys1 t3 m)"
    by (cases "reclaim_continuous sys1 t3 m") (auto simp: ended_all_def)
  with leads_reclaim_continuous [of PacerContinuous sys1 t3 m] True r show ?thesis
    by (intro continues_tick_done [OF _ True r]) simp_all
next
  case False
  then show ?thesis by (simp add: tick_done_def ended_all_def leads_now)
qed

lemma discrete_tick_at:
  "drain_discrete_tick sys t m = bind_res (safe_reclaim_ts sys) (\<lambda>safe. tick_at PacerDiscrete safe t m)"
  by (simp add: drain_discrete_tick_def)

lemma continuous_tick_at:
  "drain_continuous_tick sys t m = bind_res (safe_reclaim_ts sys) (\<lambda>safe. tick_at PacerContinuous safe t m)"
  by (simp add: drain_continuous_tick_def)

lemma bind_res_assoc: "bind_res (bind_res x f) g = bind_res x (\<lambda>y. bind_res (f y) g)"
  by (cases x) simp_all

lemma map_bind_res: "map_sum id f (bind_res x g) = bind_res x (\<lambda>y. map_sum id f (g y))"
  by (cases x) simp_all

lemma retire_pc_scan: "S \<noteq> BatchEbr \<Longrightarrow> retire_pc S t = Scanning Tick Read_Count"
  by (simp add: retire_pc_def)

lemma leads_retire:
  "leads S (sys, pushed t ts p, m, retire_pc S (pushed t ts p)) (map_sum id ended_all (strategy_retire S sys t p ts m))"
proof (cases S)
  case PacerDiscrete
  show ?thesis
    unfolding PacerDiscrete strategy_retire.simps post_write_def discrete_tick_at bind_res_assoc Let_def map_bind_res
      pushed_def [symmetric] retire_pc_scan [OF strategy.distinct(5)]
    by (rule leads_tick) (simp only: prod.case, rule continues_window [unfolded Let_def])
next
  case PacerContinuous
  show ?thesis
    unfolding PacerContinuous strategy_retire.simps continuous_tick_at bind_res_assoc Let_def map_bind_res
      pushed_def [symmetric] retire_pc_scan [OF strategy.distinct(9)]
    by (rule leads_tick) (simp only: prod.case, rule continues_window_continuous [unfolded Let_def])
next
  case TokenAf
  show ?thesis
    unfolding TokenAf strategy_retire.simps Let_def map_bind_res pushed_def [symmetric] retire_pc_scan [OF strategy.distinct(11)] tick_at.simps [symmetric]
    by (rule leads_tick) (simp add: tick_done_def ended_all_def leads_now)
next
  case BatchEbr
  show ?thesis
  proof (cases "op_counter t mod WINDOW_SIZE = 0")
    case True
    then have "retire_pc S (pushed t ts p) = Scanning Tick Read_Count" by (simp add: retire_pc_def pushed_def)
    moreover have "map_sum id ended_all (strategy_retire S sys t p ts m) = bind_res (safe_reclaim_ts sys)
      (\<lambda>safe. bind_res (tick_at BatchEbr safe (pushed t ts p) m) (\<lambda>y. map_sum id ended_all (case y of (n, t2, m2) \<Rightarrow> Inr (n, sys, t2, m2))))"
      using True by (simp add: BatchEbr Let_def map_bind_res pushed_def split_beta)
    moreover have "leads BatchEbr (sys, pushed t ts p, m, Scanning Tick Read_Count) (bind_res (safe_reclaim_ts sys)
      (\<lambda>safe. bind_res (tick_at BatchEbr safe (pushed t ts p) m) (\<lambda>y. map_sum id ended_all (case y of (n, t2, m2) \<Rightarrow> Inr (n, sys, t2, m2)))))"
      by (rule leads_tick) (simp add: tick_done_def ended_all_def leads_now)
    ultimately show ?thesis using BatchEbr by simp
  next
    case False
    then show ?thesis by (simp add: BatchEbr retire_pc_def pushed_def ended_all_def leads_now)
  qed
qed

section \<open>The accesses of an operation are the operation\<close>

definition solo_collector :: "'v worker \<Rightarrow> 'v collector" where
  "solo_collector = (\<lambda>(sys, t, m).
     \<lparr>c_sys = sys, c_mem = m, c_threads = [\<lparr>c_t = t, c_node = None, c_pc = At_Rest\<rparr>]\<rparr>)"

text \<open>An operation as calls of the one thread there is, with \<open>k\<close> accesses.\<close>

fun accesses :: "nat \<Rightarrow> 'v worker_op \<Rightarrow> (nat \<times> 'v collector_op) list" where
  "accesses k (Write v) = [(0, Call_Prepare v), (0, Call_Retire)] @ replicate k (0, Next_Access)"
| "accesses k (Read now_ns lat) = (0, Call_Snapshot now_ns lat) # replicate k (0, Next_Access) @ [(0, Call_Release)]"

definition alone_at :: "(addr \<times> u64) option \<Rightarrow> 'v collector_state \<Rightarrow> 'v collector" where
  "alone_at nd = (\<lambda>(sys, t, m, pc). \<lparr>c_sys = sys, c_mem = m, c_threads = [\<lparr>c_t = t, c_node = nd, c_pc = pc\<rparr>]\<rparr>)"

lemma collector_run_append: "collector_run S (xs @ ys) w = bind_res (collector_run S xs w) (collector_run S ys)"
  by (induction xs arbitrary: w) (auto simp: bind_res_assoc intro: bind_res_cong)

lemma collector_run_alone:
  "collector_run S (replicate k (0, Next_Access)) (alone_at nd x) = map_sum id (alone_at nd) (alone S k x)"
proof (induction k arbitrary: x)
  case (Suc k)
  obtain sys t m pc where x: "x = (sys, t, m, pc)" by (metis prod_cases4)
  show ?case
  proof (cases "collector_access S pc (sys, t, m)")
    case (Inl e)
    then show ?thesis by (simp add: x alone_at_def collector_act_def)
  next
    case (Inr y)
    obtain sys' t' m' pc' where y: "y = (sys', t', m', pc')" by (metis prod_cases4)
    have "collector_act S (0, Next_Access) (alone_at nd x) = Inr (alone_at nd y)"
      by (simp add: x y Inr alone_at_def collector_act_def)
    then show ?thesis using Suc.IH [of y] by (simp add: x y Inr)
  qed
qed simp

lemma retire_accesses:
  "\<exists>k. collector_run S (accesses k (Write v)) (solo_collector (sys, t, m)) =
    map_sum id (\<lambda>(n, w'). solo_collector w') (strategy_retire S (sys\<lparr>global_epoch := global_epoch sys + 1\<rparr>) (prepared t)
      (next_box m) (global_epoch sys) (snd (version_node_new v (global_epoch sys) m)))"
proof -
  let ?sys = "sys\<lparr>global_epoch := global_epoch sys + 1\<rparr>" and ?m = "snd (version_node_new v (global_epoch sys) m)"
  let ?t = "pushed (prepared t) (global_epoch sys) (next_box m)"
  let ?r = "strategy_retire S ?sys (prepared t) (next_box m) (global_epoch sys) ?m"
  obtain k where k: "alone S k (?sys, ?t, ?m, retire_pc S ?t) = map_sum id ended_all ?r"
    using leads_retire unfolding leads_def by blast
  have "collector_run S (accesses k (Write v)) (solo_collector (sys, t, m)) =
    collector_run S (replicate k (0, Next_Access)) (alone_at None (?sys, ?t, ?m, retire_pc S ?t))"
    by (simp add: solo_collector_def collector_act_def prepare_unfold alone_at_def pushed_def Let_def)
  also have "\<dots> = map_sum id (\<lambda>(n, w'). solo_collector w') ?r"
    unfolding collector_run_alone k
    by (cases ?r) (auto simp: alone_at_def ended_all_def solo_collector_def)
  finally show ?thesis by blast
qed

text \<open>C7: Nothing is lost in taking the operations apart: for every operation a worker can do, under every strategy, there is
  a number of accesses after which a thread that is not interrupted has exactly the state, the memory or the
  failure the sequential model gives the whole operation.\<close>

theorem accesses_make_whole:
  assumes "worker_step S x w = Some r"
  shows "\<exists>k. collector_run S (accesses k x) (solo_collector w) = map_sum id (\<lambda>(n, w'). solo_collector w') r"
proof -
  obtain sys t m where w: "w = (sys, t, m)" by (metis prod_cases3)
  show ?thesis
  proof (cases x)
    case (Write v)
    with retire_accesses [of S v sys t m] assms show ?thesis by (simp add: w prepare_unfold)
  next
    case (Read now_ns lat)
    then obtain r0 where r0: "take_snapshot sys t now_ns lat = Some r0"
      and r: "r = bind_res r0 (\<lambda>(ts, sys1, t1). bind_res (release_snapshot_for sys1 t1) (\<lambda>sys2. Inr (0, sys2, t1, m)))"
      using assms by (auto simp: w split: option.splits)
    let ?x = "(sys, t\<lparr>win_snaps := win_snaps t + 1\<rparr>, m, In_Scc (Enter now_ns) lat)"
    obtain k where k: "alone S k ?x = map_sum id (\<lambda>(ts, sys', t'). (sys', t', m, At_Rest)) r0"
      using leads_snapshot [OF r0] unfolding leads_def by blast
    have "collector_run S (accesses k x) (solo_collector w) =
      bind_res (collector_run S (replicate k (0, Next_Access)) (alone_at None ?x)) (collector_run S [(0, Call_Release)])"
      by (simp add: Read w solo_collector_def collector_act_def alone_at_def collector_run_append)
    also have "\<dots> = map_sum id (\<lambda>(n, w'). solo_collector w') r"
    proof (cases r0)
      case (Inl e)
      then show ?thesis unfolding collector_run_alone k by (simp add: r)
    next
      case (Inr y)
      obtain ts sys1 t1 where y: "y = (ts, sys1, t1)" by (metis prod_cases3)
      show ?thesis
        unfolding collector_run_alone k
        by (cases "release_snapshot_for sys1 t1") (simp_all add: r Inr y alone_at_def collector_act_def solo_collector_def)
    qed
    finally show ?thesis by blast
  qed
qed

theorem accesses_make_whole_witness:
  "\<exists>k r. worker_step PacerDiscrete (Write (5 :: nat)) (pacer_system_new, thread_local_state_new 0, empty_memory) = Some r \<and>
    collector_run PacerDiscrete (accesses k (Write 5)) (solo_collector (pacer_system_new, thread_local_state_new 0, empty_memory))
      = map_sum id (\<lambda>(n, w'). solo_collector w') r"
proof -
  obtain r where "worker_step PacerDiscrete (Write (5 :: nat)) (pacer_system_new, thread_local_state_new 0, empty_memory) = Some r"
    by (simp add: prepare_unfold)
  with accesses_make_whole [OF this] show ?thesis by blast
qed

end
