(* ===== verification/Collector_Safety.thy ===== *)
theory Collector_Safety
  imports Collector_Steps
begin

text \<open>
  What holds of the collector when its threads are interleaved access by access (\<open>Collector_Steps\<close>). The
  invariant is that of \<open>Interleaved\<close>, on the state without the coalescer and without the readers, and says
  where a scan may stand; every access of every strategy keeps it.
\<close>

section \<open>The invariant\<close>

definition as_system :: "pacer_system \<Rightarrow> pacer_system" where
  "as_system sys = sys\<lparr>scc := scc_new\<rparr>"

definition as_thread :: "collector_thread \<Rightarrow> fine_thread" where
  "as_thread th = \<lparr>th_t = c_t th, th_reader = Not_Reading, th_node = c_node th\<rparr>"

definition as_fine :: "'v collector \<Rightarrow> 'v fine_world" where
  "as_fine w = \<lparr>w_sys = as_system (c_sys w), w_mem = c_mem w, w_threads = map as_thread (c_threads w)\<rparr>"

text \<open>A scan is inside the table, and a thread inside the coalescer is in the middle of a call.\<close>

fun pc_ok :: "collector_pc \<Rightarrow> bool" where
  "pc_ok (In_Scc pc lat) \<longleftrightarrow> pc \<noteq> Idle \<and> (\<forall>ts. pc \<noteq> Done ts)"
| "pc_ok (Scanning stage Read_Count) \<longleftrightarrow> True"
| "pc_ok (Scanning stage (Read_Slot n i m)) \<longleftrightarrow> i < n \<and> n \<le> MAX_THREADS"
| "pc_ok (Scanning stage pc) \<longleftrightarrow> False"
| "pc_ok pc \<longleftrightarrow> True"

definition collector_ok :: "nat \<Rightarrow> 'v collector \<Rightarrow> bool" where
  "collector_ok n w \<longleftrightarrow> fine_ok n (as_fine w) \<and> (\<forall>th \<in> set (c_threads w). pc_ok (c_pc th))"

lemma as_system_simps [simp]:
  "as_system (sys\<lparr>scc := s\<rparr>) = as_system sys"
  "announce_tbl (as_system sys) = announce_tbl sys"
  "global_epoch (as_system sys) = global_epoch sys"
  "scc (as_system sys) = scc_new"
  by (simp_all add: as_system_def)

lemma as_thread_simps [simp]:
  "th_t (as_thread th) = c_t th" "th_reader (as_thread th) = Not_Reading" "th_node (as_thread th) = c_node th"
  by (simp_all add: as_thread_def)

lemma as_thread_update:
  "as_thread (th\<lparr>c_t := t, c_pc := pc\<rparr>) = (as_thread th)\<lparr>th_t := t\<rparr>"
  "as_thread (th\<lparr>c_pc := pc\<rparr>) = as_thread th" "as_thread (th\<lparr>c_t := t\<rparr>) = (as_thread th)\<lparr>th_t := t\<rparr>"
  "as_thread (th\<lparr>c_t := t, c_node := x\<rparr>) = (as_thread th)\<lparr>th_t := t, th_node := x\<rparr>"
  "as_thread (th\<lparr>c_t := t, c_node := x, c_pc := pc\<rparr>) = (as_thread th)\<lparr>th_t := t, th_node := x\<rparr>"
  by (simp_all add: as_thread_def)

lemma window_gen_new [simp]: "window_gen scc_new = 0"
  by (simp add: scc_new_def)

section \<open>One access\<close>

text \<open>An access that changes the thread's own state, frees the front of its bag and may move the epoch.\<close>

lemma good_local:
  assumes "shared_ok n sys m" "thread_ok n sys m th" "n < 2 ^ 62"
    and sys: "announce_tbl sys' = announce_tbl sys" "scc sys' = scc sys"
      "global_epoch sys' = global_epoch sys \<or> global_epoch sys' = global_epoch sys + 1"
    and t: "tid t' = tid (th_t th)" "spi_ok (spi_ema t')" "unat (win_writes t') + unat (win_snaps t') \<le> n + 1"
    and k: "k \<le> length (limbo_bag (th_t th))" "limbo_bag t' = drop k (limbo_bag (th_t th))"
      "m' = free_all (take k (limbo_bag (th_t th))) m"
  shows "good_step n sys m th (sys', th\<lparr>th_t := t'\<rparr>, m')"
proof -
  let ?X = "held th"
  have h: "held (th\<lparr>th_t := t'\<rparr>) = drop k ?X" "take k ?X = take k (limbo_bag (th_t th))"
    using k by (simp_all add: held_def)
  have x: "bag_ok ?X m" "births_ok ?X m" using assms(2) by (simp_all add: thread_ok_def)
  have b: "bag_ok (drop k ?X) m'" "births_ok (drop k ?X) m'"
    unfolding k(3) h(2) [symmetric]
    using x bag_ok_split [of "take k ?X" "drop k ?X" m] births_free [OF x, of k] by simp_all
  have "unat (global_epoch sys + 1) = unat (global_epoch sys) + 1"
    using assms(1,3) by (intro unat_add_1 [of _ "2 * n + 1"]) (auto simp: shared_ok_def)
  then have "shared_ok (n + 1) sys' m'"
    using assms(1) sys memory_ok_free_all [of m "take k (limbo_bag (th_t th))"]
    by (auto simp: shared_ok_def word_le_nat_alt k(3))
  moreover have "reader_ok sys' i rd = reader_ok sys i rd" for i rd
    using sys(1) by (cases rd) simp_all
  then have "thread_ok (n + 1) sys' m' (th\<lparr>th_t := t'\<rparr>)"
    using assms(2) b t unfolding thread_ok_def h by (simp add: sys(1))
  moreover have "others_kept sys m th sys' m' (th\<lparr>th_t := t'\<rparr>)"
  proof -
    have "set (owned_addrs ?X) = set (owned_addrs (take k ?X)) \<union> set (owned_addrs (drop k ?X))"
      by (metis append_take_drop_id owned_addrs_append set_append)
    then show ?thesis
      unfolding others_kept_def h using sys(1) t(1)
      by (auto simp: k(3) h(2) free_all_def restrict_map_def split: if_splits)
  qed
  ultimately show ?thesis by (simp add: good_step_def)
qed

text \<open>The thread's part: what the local code may do to the thread's own state.\<close>

definition local_ok :: "nat \<Rightarrow> thread_local_state \<Rightarrow> bool" where
  "local_ok n t \<longleftrightarrow> spi_ok (spi_ema t) \<and> unat (win_writes t) + unat (win_snaps t) \<le> n"

definition same_bag :: "thread_local_state \<Rightarrow> thread_local_state \<Rightarrow> bool" where
  "same_bag t t' \<longleftrightarrow> tid t' = tid t \<and> limbo_bag t' = limbo_bag t"

lemma same_bag_refl [simp]: "same_bag t t"
  by (simp add: same_bag_def)

lemma stride_pc_ok:
  assumes "local_ok n t"
  shows "\<exists>pc'. stride_pc t = Inr (t, pc') \<and> pc_ok pc'"
  using assms stride_nonzero by (simp add: stride_pc_def local_ok_def Let_def)

lemma window_pass_ok:
  assumes "local_ok n t"
  shows "\<exists>t' pc'. window_pass S t = Inr (t', pc') \<and> pc_ok pc' \<and> local_ok n t' \<and> same_bag t t'"
proof (cases S)
  case PacerDiscrete
  let ?t = "t\<lparr>gc_mode := select_gc_mode_with_hysteresis (spi_ema t) (gc_mode t)\<rparr>"
  have l: "local_ok n ?t" "same_bag t ?t" using assms by (simp_all add: local_ok_def same_bag_def)
  show ?thesis
    using stride_pc_ok [OF l(1)] l
    by (cases "select_gc_mode_with_hysteresis (spi_ema t) (gc_mode t)") (auto simp: PacerDiscrete Let_def)
qed (use assms in auto)

lemma resample_local_ok:
  assumes "local_ok n t" "n < 2 ^ 62" "resample_local t = Some (t1, x, d)"
  shows "local_ok n t1" "same_bag t t1"
proof -
  have w: "spi_ok (spi_ema t)" "no_window_overflow t"
    using assms(1,2) by (simp_all add: local_ok_def no_window_overflow_def)
  note r = resample_halves(2) [OF assms(3), of "pacer_system_new"]
  have "win_writes t1 = win_writes t" "win_snaps t1 = win_snaps t" "tid t1 = tid t" "limbo_bag t1 = limbo_bag t"
    using assms(3) by (auto simp: resample_local_def Let_def split: if_splits)
  then show "local_ok n t1" "same_bag t t1"
    using resample_keeps(1) [OF w r] assms(1) by (simp_all add: local_ok_def same_bag_def)
qed

lemma tick_done_ok:
  assumes "local_ok n t" "n < 2 ^ 62"
  shows "\<exists>t' pc'. tick_done S t = Inr (t', pc') \<and> pc_ok pc' \<and> local_ok n t' \<and> same_bag t t'"
proof (cases "has_window_pass S \<and> op_counter t mod WINDOW_SIZE = 0")
  case True
  show ?thesis
  proof (cases "resample_local t")
    case None
    with True window_pass_ok [OF assms(1), of S] show ?thesis by (simp add: tick_done_def)
  next
    case (Some y)
    obtain t1 x d where y: "y = (t1, x, d)" by (metis prod_cases3)
    with True Some resample_local_ok [OF assms, of t1 x d] show ?thesis by (simp add: tick_done_def)
  qed
next
  case False
  with assms show ?thesis by (auto simp: tick_done_def)
qed

lemma tick_at_ok:
  assumes "bag_ok (limbo_bag t) m" "local_ok n t"
  shows "\<exists>k t'. tick_at S safe t m = Inr (k, t', free_all (take k (limbo_bag t)) m) \<and> local_ok n t' \<and> tid t' = tid t \<and>
    op_counter t' = op_counter t \<and> limbo_bag t' = drop k (limbo_bag t) \<and> k \<le> length (limbo_bag t) \<and>
    (\<forall>e \<in> set (take k (limbo_bag t)). fst e < safe)"
proof -
  have d: "\<exists>k. drain_bag t1 safe b m = Inr (k, t1\<lparr>limbo_bag := drop k (limbo_bag t)\<rparr>, free_all (take k (limbo_bag t)) m) \<and>
    k \<le> length (limbo_bag t) \<and> (\<forall>e \<in> set (take k (limbo_bag t)). fst e < safe)"
    if "limbo_bag t1 = limbo_bag t" for t1 b
    using drain_bag_total [of t1 m safe b] assms(1) drained_older [of _ "limbo_bag t" safe b] drained_take [of "limbo_bag t" safe b]
    unfolding that by metis
  have l: "local_ok n (t\<lparr>hold_ticks := h, limbo_bag := q\<rparr>)" "local_ok n (t\<lparr>limbo_bag := q\<rparr>)" "local_ok n (t\<lparr>hold_ticks := h\<rparr>)" for h q
    using assms(2) by (simp_all add: local_ok_def)
  have no: "free_all (take 0 (limbo_bag t)) m = m" by simp
  show ?thesis
  proof (cases S)
    case PacerDiscrete
    note dh = d [of "t\<lparr>hold_ticks := h\<rparr>" for h, simplified]
    show ?thesis
    proof (cases "gc_mode t")
      case AggressiveEbr
      with dh [of 0 AGGRESSIVE_DRAIN_PER_OP] l show ?thesis by (auto simp: PacerDiscrete)
    next
      case AmortisedFree
      with dh [of 0 AF_BATCH_K] l show ?thesis by (auto simp: PacerDiscrete)
    next
      case ConservativeHold
      show ?thesis
      proof (cases "HOLD_LIMIT \<le> hold_ticks t + 1")
        case True
        with ConservativeHold dh [of 0 "unat HOLD_LIMIT"] l show ?thesis by (auto simp: PacerDiscrete Let_def)
      next
        case False
        have "tick_at S safe t m = Inr (0, t\<lparr>hold_ticks := hold_ticks t + 1\<rparr>, free_all (take 0 (limbo_bag t)) m)"
          using False ConservativeHold by (simp add: PacerDiscrete Let_def)
        then show ?thesis
          using l by (intro exI [of _ 0] exI [of _ "t\<lparr>hold_ticks := hold_ticks t + 1\<rparr>"]) simp
      qed
    qed
  next
    case PacerContinuous
    with d [of t CONTINUOUS_DRAIN_PER_OP] l show ?thesis by auto
  next
    case TokenAf
    with d [of t AF_BATCH_K] l show ?thesis by auto
  next
    case BatchEbr
    with d [of t usize_max] l show ?thesis by auto
  qed
qed

text \<open>The accesses.\<close>

definition good_access ::
  "nat \<Rightarrow> pacer_system \<Rightarrow> 'v memory \<Rightarrow> collector_thread \<Rightarrow> pacer_system \<times> collector_thread \<times> 'v memory \<Rightarrow> bool" where
  "good_access n sys m th = (\<lambda>(sys', th', m').
     good_step n (as_system sys) m (as_thread th) (as_system sys', as_thread th', m') \<and> pc_ok (c_pc th'))"

definition access_ok :: "nat \<Rightarrow> pacer_system \<Rightarrow> 'v memory \<Rightarrow> collector_thread \<Rightarrow> bool" where
  "access_ok n sys m th \<longleftrightarrow> shared_ok n (as_system sys) m \<and> thread_ok n (as_system sys) m (as_thread th) \<and>
     pc_ok (c_pc th) \<and> n < 2 ^ 62"

lemma access_okD:
  assumes "access_ok n sys m th"
  shows "table_ok (announce_tbl sys)" "tid (c_t th) \<in> registered (announce_tbl sys)" "local_ok n (c_t th)"
    "bag_ok (limbo_bag (c_t th)) m" "n < 2 ^ 62"
  using assms
  by (auto simp: access_ok_def shared_ok_def thread_ok_def local_ok_def held_def bag_ok_def)

lemma good_access_local:
  assumes "access_ok n sys m th"
    and "announce_tbl sys' = announce_tbl sys" "global_epoch sys' = global_epoch sys \<or> global_epoch sys' = global_epoch sys + 1"
    and "tid t' = tid (c_t th)" "local_ok (n + 1) t'"
    and "k \<le> length (limbo_bag (c_t th))" "limbo_bag t' = drop k (limbo_bag (c_t th))"
      "m' = free_all (take k (limbo_bag (c_t th))) m" "pc_ok pc'"
  shows "good_access n sys m th (sys', th\<lparr>c_t := t', c_pc := pc'\<rparr>, m')"
  using assms good_local [of n "as_system sys" m "as_thread th" "as_system sys'" t' k m']
  by (simp add: good_access_def access_ok_def local_ok_def as_thread_update)

lemma good_access_same:
  assumes "access_ok n sys m th" "announce_tbl sys' = announce_tbl sys"
    "global_epoch sys' = global_epoch sys \<or> global_epoch sys' = global_epoch sys + 1"
    "same_bag (c_t th) t'" "local_ok (n + 1) t'" "pc_ok pc'"
  shows "good_access n sys m th (sys', th\<lparr>c_t := t', c_pc := pc'\<rparr>, m)"
  using good_access_local [OF assms(1-3), of t' 0 m pc'] assms by (simp add: same_bag_def)

text \<open>The stores to the thread's own slot.\<close>

lemma good_step_announced:
  assumes "shared_ok n sys m" "thread_ok n sys m th" "table_ok tbl" "registered tbl = registered (announce_tbl sys)"
    and "announced tbl = (announced (announce_tbl sys))(tid (th_t th) := x)" "th_reader th = Not_Reading"
  shows "good_step n sys m th (sys\<lparr>announce_tbl := tbl\<rparr>, th, m)"
proof -
  have "others_kept sys m th (sys\<lparr>announce_tbl := tbl\<rparr>) m th"
    by (rule others_kept_same_memory) (use assms in auto)
  then show ?thesis using assms by (auto simp: good_step_def shared_ok_def thread_ok_def)
qed

lemma good_access_announced:
  assumes "access_ok n sys m th" "table_ok tbl" "registered tbl = registered (announce_tbl sys)"
    and "announced tbl = (announced (announce_tbl sys))(tid (c_t th) := x)" "as_thread th' = as_thread th" "pc_ok (c_pc th')"
  shows "good_access n sys m th (sys\<lparr>announce_tbl := tbl\<rparr>, th', m)"
proof -
  have "as_system (sys\<lparr>announce_tbl := tbl\<rparr>) = (as_system sys)\<lparr>announce_tbl := tbl\<rparr>" by (simp add: as_system_def)
  moreover have "good_step n (as_system sys) m (as_thread th) ((as_system sys)\<lparr>announce_tbl := tbl\<rparr>, as_thread th, m)"
    by (rule good_step_announced [where x = x]) (use assms in \<open>simp_all add: access_ok_def\<close>)
  ultimately show ?thesis using assms(5,6) by (simp add: good_access_def)
qed

lemma local_ok_mono: "local_ok n t \<Longrightarrow> n \<le> n' \<Longrightarrow> local_ok n' t"
  by (simp add: local_ok_def)

lemma scan_pc_ok:
  assumes "table_ok tbl" "pc_ok (Scanning stage pc)"
  shows "(\<exists>safe. scan_step tbl pc = Scan_Done (Inr safe)) \<or>
    (pc_ok (Scanning stage (scan_step tbl pc)) \<and> (\<forall>x. scan_step tbl pc \<noteq> Scan_Done x))"
  using assms by (cases pc) (auto simp: table_ok_def next_slot_def)

lemma access_total:
  assumes a: "access_ok n sys m th"
  shows "\<exists>sys' t' m' pc'. collector_access S (c_pc th) (sys, c_t th, m) = Inr (sys', t', m', pc') \<and>
    good_access n sys m th (sys', th\<lparr>c_t := t', c_pc := pc'\<rparr>, m')"
proof -
  note d = access_okD [OF a]
  note same = good_access_same [OF a]
  have l: "local_ok (n + 1) (c_t th)" using local_ok_mono [OF d(3)] by simp
  show ?thesis
  proof (cases "c_pc th")
    case At_Rest
    then show ?thesis using same [of sys "c_t th" At_Rest] l by simp
  next
    case (In_Scc pc lat)
    obtain s' pc' where st: "scc_thread_step (scc sys) (global_epoch sys) pc = (s', pc')" by fastforce
    let ?pc = "case pc' of Done ts \<Rightarrow> Latency_Load ts lat | _ \<Rightarrow> In_Scc pc' lat"
    have "pc \<noteq> Idle" using a In_Scc by (simp add: access_ok_def)
    then have "pc' \<noteq> Idle" using st by (cases pc) (auto simp: Let_def split: if_splits)
    then have "pc_ok ?pc" by (cases pc') simp_all
    then show ?thesis using In_Scc st same [of "sys\<lparr>scc := s'\<rparr>" "c_t th" ?pc] l by simp
  next
    case (Latency_Load ts lat)
    then show ?thesis using same [of sys "c_t th"] l by simp
  next
    case (Latency_Store ts v)
    then show ?thesis using same [of _ "c_t th" "Store_Announce ts"] l by simp
  next
    case (Scanning stage pc)
    have "pc_ok (Scanning stage pc)" using a Scanning by (simp add: access_ok_def)
    from scan_pc_ok [OF d(1) this] show ?thesis
    proof
      assume "\<exists>safe. scan_step (announce_tbl sys) pc = Scan_Done (Inr safe)"
      then show ?thesis using Scanning same [of sys "c_t th"] l by auto
    next
      assume "pc_ok (Scanning stage (scan_step (announce_tbl sys) pc)) \<and> (\<forall>x. scan_step (announce_tbl sys) pc \<noteq> Scan_Done x)"
      then show ?thesis
        using Scanning same [of sys "c_t th" "Scanning stage (scan_step (announce_tbl sys) pc)"] l
        by (cases "scan_step (announce_tbl sys) pc") auto
    qed
  next
    case (Store_Spi x d)
    then show ?thesis using same [of _ "c_t th" "Store_Delta d"] l by simp
  next
    case (Store_Delta x)
    let ?t = "(c_t th)\<lparr>win_writes := 0, win_snaps := 0\<rparr>"
    have lt: "local_ok (n + 1) ?t" "same_bag (c_t th) ?t" using l by (simp_all add: local_ok_def same_bag_def)
    obtain t' pc' where "window_pass S ?t = Inr (t', pc')" "pc_ok pc'" "local_ok (n + 1) t'" "same_bag ?t t'"
      using window_pass_ok [OF lt(1), of S] by blast
    then show ?thesis using Store_Delta lt(2) same [of "sys\<lparr>delta_spi := x\<rparr>" t' pc'] by (simp add: same_bag_def)
  next
    case Load_Delta
    then show ?thesis using same [of sys "c_t th"] l by simp
  next
    case Epoch_Load
    then show ?thesis using same [of sys "c_t th"] l by simp
  next
    case (Epoch_Cas cur)
    then show ?thesis
      using same [of _ "_ (c_t th)" At_Rest] l by (simp add: local_ok_def same_bag_def)
  next
    case (Store_Announce ts)
    obtain tbl where tbl: "announce (announce_tbl sys) (tid (c_t th)) ts = Inr tbl" "table_ok tbl"
      "registered tbl = registered (announce_tbl sys)"
      "announced tbl = (announced (announce_tbl sys))(tid (c_t th) := (if ts = 0 then None else Some ts))"
      using announcements.ann_law [OF d(1,2), of ts] by auto
    have "good_access n sys m th (sys\<lparr>announce_tbl := tbl\<rparr>, th\<lparr>c_t := c_t th, c_pc := At_Rest\<rparr>, m)"
      by (rule good_access_announced [OF a tbl(2-4)]) (simp_all add: as_thread_def)
    then show ?thesis using Store_Announce tbl(1) by (simp add: announce_snapshot_def)
  next
    case (Draining stage safe)
    show ?thesis
    proof (cases stage)
      case Tick
      obtain k t1 where k: "tick_at S safe (c_t th) m = Inr (k, t1, free_all (take k (limbo_bag (c_t th))) m)"
        "local_ok n t1" "tid t1 = tid (c_t th)" "limbo_bag t1 = drop k (limbo_bag (c_t th))" "k \<le> length (limbo_bag (c_t th))"
        using tick_at_ok [OF d(4,3), of S safe] by blast
      obtain t2 pc' where "tick_done S t1 = Inr (t2, pc')" "pc_ok pc'" "local_ok n t2" "same_bag t1 t2"
        using tick_done_ok [OF k(2) d(5), of S] by blast
      then show ?thesis
        using Draining Tick k good_access_local [OF a, of sys t2 k _ pc'] local_ok_mono [of n t2 "n + 1"] by (simp add: same_bag_def)
    next
      case (Window bk)
      obtain k where k: "drain_bag (c_t th) safe bk m =
          Inr (k, (c_t th)\<lparr>limbo_bag := drop k (limbo_bag (c_t th))\<rparr>, free_all (take k (limbo_bag (c_t th))) m)"
        "k \<le> length (limbo_bag (c_t th))"
        using drain_bag_total [OF d(4), of safe bk] by blast
      let ?t = "(c_t th)\<lparr>limbo_bag := drop k (limbo_bag (c_t th))\<rparr>"
      have "local_ok n ?t" using d(3) by (simp add: local_ok_def)
      from stride_pc_ok [OF this] obtain pc' where "stride_pc ?t = Inr (?t, pc')" "pc_ok pc'" by blast
      then show ?thesis
        using Draining Window k good_access_local [OF a, of sys ?t k _ pc'] local_ok_mono [OF \<open>local_ok n ?t\<close>, of "n + 1"] by simp
    qed
  qed
qed

section \<open>Calls and schedules\<close>

lemma step_total:
  assumes a: "access_ok n sys m th"
  shows "\<exists>x. collector_step S op (sys, th, m) = Inr x \<and> good_access n sys m th x"
proof -
  note d = access_okD [OF a]
  have l: "local_ok (n + 1) (c_t th)" using local_ok_mono [OF d(3)] by simp
  have idle: "good_access n sys m th (sys, th, m)"
    using good_access_same [OF a refl, of "c_t th" "c_pc th"] l a by (simp add: access_ok_def)
  show ?thesis
  proof (cases op)
    case (Call_Snapshot now lat)
    let ?t = "(c_t th)\<lparr>win_snaps := win_snaps (c_t th) + 1\<rparr>"
    have "unat (win_snaps (c_t th) + 1) = unat (win_snaps (c_t th)) + 1"
      using d(3,5) by (intro unat_add_1 [of _ n]) (auto simp: local_ok_def)
    then have "local_ok (n + 1) ?t" "same_bag (c_t th) ?t" using d(3) by (simp_all add: local_ok_def same_bag_def)
    with good_access_same [OF a refl, of ?t "In_Scc (Enter now) lat"] show ?thesis using idle by (simp add: Call_Snapshot)
  next
    case Call_Release
    obtain tbl where tbl: "release (announce_tbl sys) (tid (c_t th)) = Inr tbl" "table_ok tbl"
      "registered tbl = registered (announce_tbl sys)"
      "announced tbl = (announced (announce_tbl sys))(tid (c_t th) := None)"
      using announcements.rel_law [OF d(1,2)] by auto
    have "good_access n sys m th (sys\<lparr>announce_tbl := tbl\<rparr>, th, m)"
      by (rule good_access_announced [OF a tbl(2-4)]) (use a in \<open>simp_all add: access_ok_def\<close>)
    then show ?thesis using tbl(1) idle by (simp add: Call_Release release_snapshot_for_def release_snapshot_def)
  next
    case (Call_Prepare v)
    show ?thesis
    proof (cases "c_pc th = At_Rest \<and> c_node th = None")
      case True
      obtain x where x: "fine_step S (Prepare v) (as_system sys, as_thread th, m) = Some (Inr x)"
        "good_step n (as_system sys) m (as_thread th) x"
        using prepare_step [of n "as_system sys" m "as_thread th" S v] a by (auto simp: access_ok_def)
      moreover have "as_system (sys\<lparr>global_epoch := global_epoch sys + 1\<rparr>) = (as_system sys)\<lparr>global_epoch := global_epoch sys + 1\<rparr>"
        by (simp add: as_system_def)
      ultimately show ?thesis
        using True by (auto simp: Call_Prepare prepare_unfold good_access_def as_thread_update)
    qed (use idle in \<open>auto simp: Call_Prepare\<close>)
  next
    case Call_Retire
    show ?thesis
    proof (cases "c_pc th = At_Rest \<and> c_node th \<noteq> None")
      case True
      then obtain p ts where p: "c_pc th = At_Rest" "c_node th = Some (p, ts)" by auto
      let ?t = "(c_t th)\<lparr>limbo_bag := limbo_push (limbo_bag (c_t th)) ts p\<rparr>"
      have h: "held ((as_thread th)\<lparr>th_t := ?t, th_node := None\<rparr>) = held (as_thread th)"
        using p by (simp add: held_simps)
      have "good_step n (as_system sys) m (as_thread th) (as_system sys, (as_thread th)\<lparr>th_t := ?t, th_node := None\<rparr>, m)"
        using a h others_kept_same_memory [of "(as_thread th)\<lparr>th_t := ?t, th_node := None\<rparr>" "as_thread th" "as_system sys" "as_system sys" m]
          shared_ok_mono [of n "as_system sys" m "n + 1"]
        by (auto simp: good_step_def access_ok_def thread_ok_def)
      moreover have "pc_ok (retire_pc S ?t)" by (simp add: retire_pc_def)
      ultimately show ?thesis using p by (simp add: Call_Retire Let_def good_access_def as_thread_update)
    qed (use idle in \<open>auto simp: Call_Retire split: collector_pc.splits option.splits\<close>)
  next
    case Next_Access
    from access_total [OF a, of S] show ?thesis by (auto simp: Next_Access)
  qed
qed

lemma collector_ok_access:
  assumes "collector_ok n w" "i < length (c_threads w)" "n < 2 ^ 62"
  shows "access_ok n (c_sys w) (c_mem w) (c_threads w ! i)"
  using assms by (auto simp: collector_ok_def fine_ok_def as_fine_def access_ok_def)

lemma collector_act_ok:
  assumes "collector_ok n w" "n < 2 ^ 62" "i < length (c_threads w)"
  shows "\<exists>sys' th' m'. collector_step S a (c_sys w, c_threads w ! i, c_mem w) = Inr (sys', th', m') \<and>
    collector_act S (i, a) w = Inr \<lparr>c_sys = sys', c_mem = m', c_threads = (c_threads w)[i := th']\<rparr> \<and>
    collector_ok (n + 1) \<lparr>c_sys = sys', c_mem = m', c_threads = (c_threads w)[i := th']\<rparr> \<and>
    registered (announce_tbl sys') = registered (announce_tbl (c_sys w))"
proof -
  from step_total [OF collector_ok_access [OF assms(1,3,2)], of S a]
  obtain sys' th' m' where x: "collector_step S a (c_sys w, c_threads w ! i, c_mem w) = Inr (sys', th', m')"
    "good_access n (c_sys w) (c_mem w) (c_threads w ! i) (sys', th', m')"
    by (metis prod_cases3)
  let ?w = "\<lparr>c_sys = sys', c_mem = m', c_threads = (c_threads w)[i := th']\<rparr>"
  have "fine_ok (n + 1) (as_fine ?w)"
    using fine_update [of n "as_fine w" i "as_system sys'" m' "as_thread th'"] assms(1,3) x(2)
    by (simp add: as_fine_def collector_ok_def good_access_def good_step_def map_update)
  moreover have "\<forall>th \<in> set (c_threads ?w). pc_ok (c_pc th)"
    using assms(1) x(2) set_update_subset_insert [of "c_threads w" i th'] by (auto simp: collector_ok_def good_access_def)
  ultimately show ?thesis
    using x by (simp add: collector_act_def collector_ok_def good_access_def good_step_def others_kept_def)
qed

text \<open>What every step keeps holds after every schedule.\<close>

lemma collector_run_induct:
  assumes "collector_ok n w" "n + length as \<le> 2 ^ 62" "\<forall>(i, a) \<in> set as. i < length (c_threads w)" "I n w"
    and step: "\<And>n w i a w'. collector_ok n w \<Longrightarrow> n < 2 ^ 62 \<Longrightarrow> i < length (c_threads w) \<Longrightarrow> I n w \<Longrightarrow>
      collector_act S (i, a) w = Inr w' \<Longrightarrow> registered (announce_tbl (c_sys w')) = registered (announce_tbl (c_sys w)) \<Longrightarrow> I (n + 1) w'"
  shows "\<exists>w'. collector_run S as w = Inr w' \<and> collector_ok (n + length as) w' \<and> I (n + length as) w' \<and>
    length (c_threads w') = length (c_threads w)"
  using assms(1-4)
proof (induction as arbitrary: n w)
  case (Cons x as)
  obtain i a where x: "x = (i, a)" by (cases x)
  have i: "i < length (c_threads w)" "n < 2 ^ 62" using Cons.prems(2,3) by (auto simp: x)
  obtain w1 where w1: "collector_act S (i, a) w = Inr w1" "collector_ok (n + 1) w1" "length (c_threads w1) = length (c_threads w)"
    "registered (announce_tbl (c_sys w1)) = registered (announce_tbl (c_sys w))"
    using collector_act_ok [OF Cons.prems(1) i(2,1), of S a] by auto
  have "I (n + 1) w1" by (rule step [OF Cons.prems(1) i(2,1) Cons.prems(4) w1(1,4)])
  from Cons.IH [OF w1(2) _ _ this] Cons.prems(2,3) w1 show ?case by (simp add: x)
qed simp

lemma collector_run_ok:
  assumes "collector_ok n w" "n + length as \<le> 2 ^ 62" "\<forall>(i, a) \<in> set as. i < length (c_threads w)"
  shows "\<exists>w'. collector_run S as w = Inr w' \<and> collector_ok (n + length as) w' \<and> length (c_threads w') = length (c_threads w)"
  using collector_run_induct [OF assms, of "\<lambda>_ _. True" S] by simp

lemma collector_start_ok:
  assumes "k \<le> MAX_THREADS"
  shows "collector_ok 0 (collector_start k :: 'v collector)" "length (c_threads (collector_start k :: 'v collector)) = k"
proof -
  have "as_fine (collector_start k :: 'v collector) = fine_start k"
    by (simp add: as_fine_def collector_start_def fine_start_def as_system_def as_thread_def pacer_system_new_def o_def)
  then show "collector_ok 0 (collector_start k :: 'v collector)"
    using fine_start_ok [OF assms] by (auto simp: collector_ok_def collector_start_def)
  show "length (c_threads (collector_start k :: 'v collector)) = k" by (simp add: collector_start_def)
qed

lemma registered_start:
  assumes "k \<le> MAX_THREADS"
  shows "registered (announcement_table_new\<lparr>active_count := of_nat k\<rparr>) = {0..<k}"
proof -
  have "unat (of_nat k :: u32) = k" using assms by (simp add: MAX_THREADS_def unat_of_nat take_bit_eq_mod)
  then show ?thesis by (simp add: registered_def)
qed

lemma collector_start_run:
  assumes "k \<le> MAX_THREADS" "length as \<le> 2 ^ 62" "\<forall>(i, a) \<in> set as. i < k"
  shows "\<exists>w :: 'v collector. collector_run S as (collector_start k) = Inr w \<and> collector_ok (length as) w \<and> length (c_threads w) = k"
proof -
  have "collector_ok 0 (collector_start k :: 'v collector)" "length (c_threads (collector_start k :: 'v collector)) = k"
    using assms(1) by (simp_all add: collector_start_ok)
  from collector_run_ok [OF this(1), of as S] this(2) assms(2,3) show ?thesis by auto
qed

section \<open>Properties\<close>

text \<open>The nodes a thread is responsible for.\<close>

definition nodes_of :: "collector_thread \<Rightarrow> limbo_bag" where
  "nodes_of th = limbo_bag (c_t th) @ (case c_node th of None \<Rightarrow> [] | Some (p, ts) \<Rightarrow> [(ts, Owned p)])"

lemma nodes_of_held: "nodes_of th = held (as_thread th)"
  by (simp add: nodes_of_def held_def)

text \<open>C1: The collector does not go wrong, access by access. Under any strategy, and any schedule of the atomic
  accesses of up to 256 threads, no access panics, divides by zero or frees a box twice; afterwards every
  live box is in the bag or in the hands of exactly one thread.\<close>

theorem accesses_run_safely:
  assumes "k \<le> MAX_THREADS" "length as \<le> 2 ^ 62" "\<forall>(i, a) \<in> set as. i < k"
  shows "\<exists>w :: 'v collector. collector_run S as (collector_start k) = Inr w \<and> apart (map nodes_of (c_threads w)) \<and>
    (\<forall>th \<in> set (c_threads w). bag_ok (nodes_of th) (c_mem w) \<and> births_ok (nodes_of th) (c_mem w)) \<and>
    dom (boxes (c_mem w)) = (\<Union>th \<in> set (c_threads w). set (owned_addrs (nodes_of th)))"
proof -
  obtain w :: "'v collector" where w: "collector_run S as (collector_start k) = Inr w" "fine_ok (length as) (as_fine w)"
    using collector_start_run [OF assms, of S] by (auto simp: collector_ok_def)
  have "map nodes_of (c_threads w) = map held (w_threads (as_fine w))"
    by (simp add: as_fine_def nodes_of_held)
  with w show ?thesis
    by (intro exI [of _ w]) (auto simp: fine_ok_def thread_ok_def as_fine_def nodes_of_held simp del: map_map)
qed

definition gap_accesses :: "(nat \<times> nat collector_op) list" where
  "gap_accesses = [(0, Call_Snapshot 100 5), (1, Call_Prepare 7), (1, Call_Retire)] @ replicate 2 (1, Next_Access)
     @ replicate 17 (0, Next_Access) @ replicate 2 (1, Next_Access)"

lemma gap_accesses_short: "length gap_accesses \<le> 2 ^ 62" "\<forall>(i, a) \<in> set gap_accesses. i < 2"
  by (auto simp: gap_accesses_def)

theorem accesses_run_safely_witness:
  "\<exists>w :: nat collector. collector_run PacerDiscrete gap_accesses (collector_start 2) = Inr w \<and> apart (map nodes_of (c_threads w))"
  using accesses_run_safely [OF _ gap_accesses_short, of PacerDiscrete] by (auto simp: MAX_THREADS_def)

section \<open>Snapshots that are held\<close>

text \<open>Boxes disappear in one kind of access, and then only those below the timestamp the scan has found.\<close>

lemma only_drains_free:
  assumes a: "access_ok n sys m th" and "collector_step S op (sys, th, m) = Inr (sys', th', m')"
    and "boxes m p = Some node" "boxes m' p = None"
  shows "\<exists>stage safe. op = Next_Access \<and> c_pc th = Draining stage safe \<and> birth_ts node < safe"
proof -
  note d = access_okD [OF a]
  have births: "births_ok (limbo_bag (c_t th)) m"
    using a by (auto simp: access_ok_def thread_ok_def held_def births_ok_def)
  have freed: "birth_ts node < safe"
    if "m' = free_all (take k (limbo_bag (c_t th))) m" "\<forall>e \<in> set (take k (limbo_bag (c_t th))). fst e < safe" for k safe
  proof -
    have "p \<in> set (owned_addrs (take k (limbo_bag (c_t th))))"
      using that(1) assms(3,4) by (auto simp: free_all_def restrict_map_def split: if_splits)
    then obtain b where b: "(b, Owned p) \<in> set (take k (limbo_bag (c_t th)))" using owned_entry by blast
    then have "birth_ts node = b"
      using births in_set_takeD [OF b] assms(3) unfolding births_ok_def by fastforce
    with that(2) b show ?thesis by auto
  qed
  show ?thesis
  proof (cases op)
    case (Call_Prepare v)
    with assms(2-4) show ?thesis by (auto simp: version_node_new_def prepare_unfold split: if_splits)
  next
    case Call_Retire
    with assms(2-4) show ?thesis by (auto simp: Let_def split: collector_pc.splits option.splits)
  next
    case Next_Access
    with assms(2) obtain t' pc' where st: "collector_access S (c_pc th) (sys, c_t th, m) = Inr (sys', t', m', pc')"
      by (auto simp: bind_res_Inr_iff)
    show ?thesis
    proof (cases "\<exists>stage safe. c_pc th = Draining stage safe")
      case True
      then obtain stage safe where pc: "c_pc th = Draining stage safe" by blast
      show ?thesis
      proof (cases stage)
        case Tick
        with tick_at_ok [OF d(4,3), of S safe] st freed [of _ safe] pc Next_Access show ?thesis
          by (auto simp: bind_res_Inr_iff)
      next
        case (Window bk)
        obtain k where k: "drain_bag (c_t th) safe bk m =
            Inr (k, (c_t th)\<lparr>limbo_bag := drop k (limbo_bag (c_t th))\<rparr>, free_all (take k (limbo_bag (c_t th))) m)"
          "k = length (drained (limbo_bag (c_t th)) safe bk)"
          using drain_bag_total [OF d(4), of safe bk] by blast
        then have "m' = free_all (take k (limbo_bag (c_t th))) m" using st pc Window by (auto simp: bind_res_Inr_iff)
        moreover have "\<forall>e \<in> set (take k (limbo_bag (c_t th))). fst e < safe"
          unfolding k(2) drained_take [symmetric] using drained_older by blast
        ultimately show ?thesis using freed pc Next_Access by blast
      qed
    next
      case False
      then have "m' = m"
        using st by (cases "c_pc th") (auto simp: bind_res_Inr_iff Let_def split: scan_pc.splits sum.splits if_splits prod.splits)
      with assms(3,4) show ?thesis by simp
    qed
  qed (use assms(2-4) in \<open>auto simp: bind_res_Inr_iff split: if_splits\<close>)
qed

text \<open>What a scan that began after the timestamp was announced knows of it.\<close>

fun sees :: "nat \<Rightarrow> u64 \<Rightarrow> collector_pc \<Rightarrow> bool" where
  "sees j ts (Scanning stage pc) \<longleftrightarrow> sees_slot j ts pc"
| "sees j ts (Draining stage safe) \<longleftrightarrow> safe \<le> ts"
| "sees j ts _ \<longleftrightarrow> True"

lemma sees_stride: "stride_pc t = Inr (t', pc') \<Longrightarrow> sees j ts pc'"
  by (auto simp: stride_pc_def Let_def split: if_splits)

lemma sees_window_pass: "window_pass S t = Inr (t', pc') \<Longrightarrow> sees j ts pc'"
  by (cases S; cases "select_gc_mode_with_hysteresis (spi_ema t) (gc_mode t)") (auto simp: Let_def intro: sees_stride)

lemma sees_tick_done: "tick_done S t = Inr (t', pc') \<Longrightarrow> sees j ts pc'"
  by (auto simp: tick_done_def intro: sees_window_pass split: if_splits option.splits)

lemma sees_access:
  assumes "sees j ts pc" "slot_val (announce_tbl sys) j = ts" "ts \<noteq> 0" "j \<in> registered (announce_tbl sys)"
    and "collector_access S pc (sys, t, m) = Inr (sys', t', m', pc')"
  shows "sees j ts pc'"
proof (cases pc)
  case (In_Scc x lat)
  obtain s1 x1 where "scc_thread_step (scc sys) (global_epoch sys) x = (s1, x1)" by fastforce
  with assms(5) In_Scc show ?thesis by (cases x1) auto
next
  case (Scanning stage x)
  have "sees_slot j ts (scan_step (announce_tbl sys) x)"
    using assms Scanning by (intro scan_step_sees) (simp_all add: registered_def)
  with assms(5) Scanning show ?thesis by (auto split: scan_pc.splits sum.splits)
next
  case (Draining stage safe)
  with assms(5) show ?thesis by (cases stage) (auto simp: bind_res_Inr_iff intro: sees_tick_done sees_stride)
next
  case (Store_Delta d)
  with assms(5) show ?thesis by (auto simp: bind_res_Inr_iff intro: sees_window_pass)
qed (use assms(5) in \<open>auto simp: bind_res_Inr_iff split: if_splits\<close>)

lemma sees_step:
  assumes "sees j ts (c_pc th)" "slot_val (announce_tbl sys) j = ts" "ts \<noteq> 0" "j \<in> registered (announce_tbl sys)"
    and "collector_step S op (sys, th, m) = Inr (sys', th', m')"
  shows "sees j ts (c_pc th')"
proof (cases op)
  case Next_Access
  with assms(5) sees_access [OF assms(1-4), of S "c_t th" m] show ?thesis by (auto simp: bind_res_Inr_iff)
next
  case Call_Retire
  with assms(1,5) show ?thesis by (auto simp: Let_def retire_pc_def split: collector_pc.splits option.splits)
qed (use assms(1,5) in \<open>auto simp: bind_res_Inr_iff prepare_unfold split: if_splits\<close>)

text \<open>A condition that holds in every state a schedule passes through, its last one included.\<close>

fun throughout :: "strategy \<Rightarrow> ('v collector \<Rightarrow> bool) \<Rightarrow> (nat \<times> 'v collector_op) list \<Rightarrow> 'v collector \<Rightarrow> bool" where
  "throughout S P [] w = P w"
| "throughout S P (x # xs) w = (P w \<and> (case collector_act S x w of Inl e \<Rightarrow> False | Inr w' \<Rightarrow> throughout S P xs w'))"

definition slot_holds :: "nat \<Rightarrow> u64 \<Rightarrow> 'v collector \<Rightarrow> bool" where
  "slot_holds j ts w \<longleftrightarrow> slot_val (announce_tbl (c_sys w)) j = ts"

lemma sees_run:
  assumes "collector_ok n w" "n + length bs \<le> 2 ^ 62" "\<forall>(i, a) \<in> set bs. i < length (c_threads w)"
    and "throughout S (slot_holds j ts) bs w" "ts \<noteq> 0" "j \<in> registered (announce_tbl (c_sys w))"
    and "i < length (c_threads w)" "sees j ts (c_pc (c_threads w ! i))" "collector_run S bs w = Inr w1"
  shows "sees j ts (c_pc (c_threads w1 ! i))"
  using assms
proof (induction bs arbitrary: n w)
  case (Cons x bs)
  obtain l a where x: "x = (l, a)" by (cases x)
  have l: "l < length (c_threads w)" "n < 2 ^ 62" using Cons.prems(2,3) by (auto simp: x)
  obtain sys' th' m' where st: "collector_step S a (c_sys w, c_threads w ! l, c_mem w) = Inr (sys', th', m')"
    "collector_act S (l, a) w = Inr \<lparr>c_sys = sys', c_mem = m', c_threads = (c_threads w)[l := th']\<rparr>"
    "collector_ok (n + 1) \<lparr>c_sys = sys', c_mem = m', c_threads = (c_threads w)[l := th']\<rparr>"
    "registered (announce_tbl sys') = registered (announce_tbl (c_sys w))"
    using collector_act_ok [OF Cons.prems(1) l(2,1), of S a] by blast
  let ?w = "\<lparr>c_sys = sys', c_mem = m', c_threads = (c_threads w)[l := th']\<rparr>"
  have h: "slot_holds j ts w" "throughout S (slot_holds j ts) bs ?w"
    using Cons.prems(4) st(2) by (simp_all add: x)
  have "sees j ts (c_pc (c_threads ?w ! i))"
    using sees_step [OF _ h(1) [unfolded slot_holds_def] Cons.prems(5,6) st(1)] Cons.prems(8) l(1) by (cases "i = l") simp_all
  with Cons.IH [OF st(3), of] Cons.prems(2,3,5-7,9) st(2,4) h(2) show ?case by (simp add: x)
qed simp

lemma registered_run:
  assumes "collector_ok n w" "n + length as \<le> 2 ^ 62" "\<forall>(i, a) \<in> set as. i < length (c_threads w)"
    and "collector_run S as w = Inr w1"
  shows "registered (announce_tbl (c_sys w1)) = registered (announce_tbl (c_sys w))"
  using collector_run_induct [OF assms(1-3), of "\<lambda>_ w'. registered (announce_tbl (c_sys w')) = registered (announce_tbl (c_sys w))" S] assms(4)
  by simp

text \<open>Whether a thread is in the middle of a scan, or about to use what one has found.\<close>

fun mid_scan :: "collector_pc \<Rightarrow> bool" where
  "mid_scan (Scanning stage Read_Count) = False"
| "mid_scan (Scanning stage pc) = True"
| "mid_scan (Draining stage safe) = True"
| "mid_scan _ = False"

lemma sees_not_mid_scan: "\<not> mid_scan pc \<Longrightarrow> sees j ts pc"
  by (cases pc rule: mid_scan.cases) simp_all

text \<open>C2: An announced snapshot protects the nodes born since, in every interleaving of accesses, from the scans that
  begin after it is announced. Let a registered thread hold the timestamp \<open>ts\<close> in its slot from a moment when thread \<open>i\<close> is not
  in the middle of a scan, and through any schedule; then thread \<open>i\<close>, whatever it does next, frees only
  nodes born before \<open>ts\<close>.\<close>

theorem held_snapshot_spares_nodes:
  fixes w :: "'v collector"
  assumes "k \<le> MAX_THREADS" "length as + length bs < 2 ^ 62" "\<forall>(i, a) \<in> set (as @ bs). i < k" "i < k" "j < k" "ts \<noteq> 0"
    and "collector_run S as (collector_start k) = Inr w" "\<not> mid_scan (c_pc (c_threads w ! i))"
    and "throughout S (slot_holds j ts) bs w" "collector_run S bs w = Inr w1" "collector_act S (i, a) w1 = Inr w2"
    and "boxes (c_mem w1) p = Some node" "boxes (c_mem w2) p = None"
  shows "birth_ts node < ts"
proof -
  have st: "collector_ok 0 (collector_start k :: 'v collector)" "length (c_threads (collector_start k :: 'v collector)) = k"
    using assms(1) by (simp_all add: collector_start_ok)
  have w: "collector_ok (length as) w" "length (c_threads w) = k" "registered (announce_tbl (c_sys w)) = {0..<k}"
    using collector_run_ok [OF st(1), of as S] registered_run [OF st(1), of as S w] assms(2,3,7) st(2)
    by (auto simp: collector_start_def registered_start [OF assms(1)])
  have w1: "collector_ok (length as + length bs) w1" "length (c_threads w1) = k"
    using collector_run_ok [OF w(1), of bs S] assms(2,3,10) w(2) by auto
  have "sees j ts (c_pc (c_threads w1 ! i))"
    using sees_run [OF w(1) _ _ assms(9,6) _ _ sees_not_mid_scan [OF assms(8)] assms(10)] assms(2-5) w by auto
  moreover obtain sys' th' m' where s: "collector_step S a (c_sys w1, c_threads w1 ! i, c_mem w1) = Inr (sys', th', m')"
    "w2 = \<lparr>c_sys = sys', c_mem = m', c_threads = (c_threads w1)[i := th']\<rparr>"
    using assms(11) by (auto simp: collector_act_def bind_res_Inr_iff)
  moreover have "access_ok (length as + length bs) (c_sys w1) (c_mem w1) (c_threads w1 ! i)"
    using w1 assms(2,4) by (intro collector_ok_access) simp_all
  from only_drains_free [OF this s(1) assms(12)] obtain stage safe where
    "c_pc (c_threads w1 ! i) = Draining stage safe" "birth_ts node < safe"
    using assms(13) s(2) by auto
  ultimately show ?thesis by auto
qed

section \<open>One thread among others\<close>

text \<open>Accesses of one thread in a row.\<close>

definition with_thread :: "'v collector \<Rightarrow> nat \<Rightarrow> (addr \<times> u64) option \<Rightarrow> 'v collector_state \<Rightarrow> 'v collector" where
  "with_thread w i nd = (\<lambda>(sys, t, m, pc).
     \<lparr>c_sys = sys, c_mem = m, c_threads = (c_threads w)[i := \<lparr>c_t = t, c_node = nd, c_pc = pc\<rparr>]\<rparr>)"

lemma collector_run_thread:
  assumes "i < length (c_threads w)" 
  shows "collector_run S (replicate k (i, Next_Access)) (with_thread w i nd x) = map_sum id (with_thread w i nd) (alone S k x)"
  using assms
proof (induction k arbitrary: x)
  case (Suc k)
  obtain sys t m pc where x: "x = (sys, t, m, pc)" by (metis prod_cases4)
  show ?case
  proof (cases "collector_access S pc (sys, t, m)")
    case (Inl e)
    then show ?thesis using Suc.prems by (simp add: x with_thread_def collector_act_def)
  next
    case (Inr y)
    obtain sys' t' m' pc' where y: "y = (sys', t', m', pc')" by (metis prod_cases4)
    have "collector_act S (i, Next_Access) (with_thread w i nd x) = Inr (with_thread w i nd y)"
      using Suc.prems by (simp add: x y Inr with_thread_def collector_act_def)
    then show ?thesis using Suc.IH [of y] Suc.prems by (simp add: x y Inr)
  qed
qed simp

lemma first_snapshot_accesses:
  assumes "window_gen (scc sys) = 0" "total_count (scc sys) = 0"
  shows "\<exists>s. alone S 16 (sys, t, m, In_Scc (Enter now) lat) = Inr (sys\<lparr>scc := s\<rparr>, t, m, Store_Announce (global_epoch sys))"
proof -
  have n: "(16 :: nat) = Suc (Suc (Suc (Suc (Suc (Suc (Suc (Suc (Suc (Suc (Suc (Suc (Suc (Suc (Suc (Suc 0)))))))))))))))" by simp
  show ?thesis
    unfolding n using assms by (simp add: Let_def) (rule exI, rule arg_cong [where f = "\<lambda>s. sys\<lparr>scc := s\<rparr>"], rule refl)
qed

section \<open>A snapshot announced behind a scan\<close>

text \<open>Thread 0 chooses its timestamp; thread 1 writes, retires and has read the first slot when thread 0
  announces in it; then thread 1 goes on.\<close>

text \<open>Thread 1 writes, retires and has read the first slot of the two; then thread 0 announces in it.\<close>

definition scan_passes :: "'v \<Rightarrow> (nat \<times> 'v collector_op) list" where
  "scan_passes v = [(1, Call_Prepare v), (1, Call_Retire), (1, Next_Access), (1, Next_Access), (0, Next_Access)]"

definition about_to_announce :: "u64 \<Rightarrow> 'v collector \<Rightarrow> bool" where
  "about_to_announce ts w \<longleftrightarrow> (\<exists>sys m t0 t1. w = \<lparr>c_sys = sys, c_mem = m, c_threads = [\<lparr>c_t = t0, c_node = None, c_pc = Store_Announce ts\<rparr>,
       \<lparr>c_t = t1, c_node = None, c_pc = At_Rest\<rparr>]\<rparr> \<and>
     tid t0 = 0 \<and> 1 < length (slots (announce_tbl sys)) \<and> active_count (announce_tbl sys) = 2 \<and> slot_val (announce_tbl sys) 0 = 0 \<and>
     slot_val (announce_tbl sys) 1 = 0 \<and> ts \<le> global_epoch sys \<and> global_epoch sys \<noteq> u64_max \<and>
     limbo_bag t1 = [] \<and> gc_mode t1 \<noteq> ConservativeHold \<and> \<not> (op_counter t1 + 1) mod WINDOW_SIZE = 0)"

lemma drain_one:
  assumes "boxes m p \<noteq> None" "ts < safe" "limbo_bag t = [(ts, Owned p)]" "0 < k"
  shows "drain_bag t safe k m = Inr (1, t\<lparr>limbo_bag := []\<rparr>, free_all [(ts, Owned p)] m)"
proof -
  have "bag_ok (limbo_bag t) m" using assms(1,3) by (auto simp: bag_ok_def)
  from drain_bag_total [OF this, of safe k] assms(2-4) show ?thesis
    by (cases k) (auto simp: drained_def eligible_def)
qed

lemma tick_one:
  assumes "boxes m p \<noteq> None" "ts < safe" "limbo_bag t = [(ts, Owned p)]" "gc_mode t \<noteq> ConservativeHold"
    "\<not> op_counter t mod WINDOW_SIZE = 0"
  shows "\<exists>t'. collector_access S (Draining Tick safe) (sys, t, m) = Inr (sys, t', free_all [(ts, Owned p)] m, At_Rest)"
proof -
  have d: "drain_bag t1 safe k m = Inr (1, t1\<lparr>limbo_bag := []\<rparr>, free_all [(ts, Owned p)] m)"
    if "limbo_bag t1 = limbo_bag t" "0 < k" for t1 k
    using drain_one [OF assms(1,2)] that assms(3) by simp
  show ?thesis
    using assms(4,5) d by (cases S; cases "gc_mode t") (simp_all add: tick_done_def AGGRESSIVE_DRAIN_PER_OP_def AF_BATCH_K_def CONTINUOUS_DRAIN_PER_OP_def usize_max_def)
qed

text \<open>C18: Announcing a snapshot does not stop a scan that has already passed its slot. While thread 0 is about to announce
  \<open>ts\<close>, thread 1 writes a node and retires it, and its scan reads the first slot; thread 0 then announces, and thread 1
  finishes its scan and frees the node, which was born at \<open>ts\<close> or later, while the slot holds \<open>ts\<close>. It happens
  under every strategy that drains with each write.\<close>

theorem scan_misses_later_announcement:
  assumes "about_to_announce ts w" "S \<noteq> BatchEbr"
  shows "\<exists>w1 w2 p node. collector_run S (scan_passes v) w = Inr w1 \<and> slot_holds 0 ts w1 \<and>
    boxes (c_mem w1) p = Some node \<and> ts \<le> birth_ts node \<and>
    collector_run S [(1, Next_Access), (1, Next_Access)] w1 = Inr w2 \<and> slot_holds 0 ts w2 \<and> boxes (c_mem w2) p = None"
proof -
  obtain sys m t0 t1 where w: "w = \<lparr>c_sys = sys, c_mem = m, c_threads = [\<lparr>c_t = t0, c_node = None, c_pc = Store_Announce ts\<rparr>,
       \<lparr>c_t = t1, c_node = None, c_pc = At_Rest\<rparr>]\<rparr>" "tid t0 = 0" "1 < length (slots (announce_tbl sys))"
    "active_count (announce_tbl sys) = 2" "slot_val (announce_tbl sys) 0 = 0" "slot_val (announce_tbl sys) 1 = 0"
    "ts \<le> global_epoch sys" "global_epoch sys \<noteq> u64_max"
    "limbo_bag t1 = []" "gc_mode t1 \<noteq> ConservativeHold" "\<not> (op_counter t1 + 1) mod WINDOW_SIZE = 0"
    using assms(1) unfolding about_to_announce_def by blast
  define p where "p = next_box m"
  define m1 where "m1 = snd (version_node_new v (global_epoch sys) m)"
  define t2 where "t2 = pushed (prepared t1) (global_epoch sys) p"
  define sys1 where "sys1 = sys\<lparr>global_epoch := global_epoch sys + 1,
    announce_tbl := (announce_tbl sys)\<lparr>slots := (slots (announce_tbl sys))[0 := \<lparr>active_ts = ts\<rparr>]\<rparr>\<rparr>"
  define w1 where "w1 = \<lparr>c_sys = sys1, c_mem = m1, c_threads = [\<lparr>c_t = t0, c_node = None, c_pc = At_Rest\<rparr>,
    \<lparr>c_t = t2, c_node = None, c_pc = Scanning Tick (Read_Slot 2 1 u64_max)\<rparr>]\<rparr>"
  have ne: "slots (announce_tbl sys) \<noteq> []" using w(3) by auto
  then have r1: "collector_run S (scan_passes v) w = Inr w1"
    using w(2-6) assms(2)
    by (simp add: w(1) w1_def scan_passes_def collector_act_def prepare_unfold retire_pc_def Let_def next_slot_def
        min_update_def slot_val_def announce_snapshot_def announce_def sys1_def m1_def t2_def p_def pushed_def)
  have t2: "limbo_bag t2 = [(global_epoch sys, Owned p)]" "gc_mode t2 \<noteq> ConservativeHold" "\<not> op_counter t2 mod WINDOW_SIZE = 0"
    using w(9-11) by (simp_all add: t2_def pushed_def limbo_push_def)
  have node: "boxes m1 p = Some \<lparr>node_value = v, birth_ts = global_epoch sys, next_ptr = 0\<rparr>"
    by (simp add: m1_def p_def version_node_new_def)
  obtain t3 where t3: "collector_access S (Draining Tick u64_max) (sys1, t2, m1) = Inr (sys1, t3, free_all [(global_epoch sys, Owned p)] m1, At_Rest)"
    using tick_one [of m1 p "global_epoch sys" u64_max t2 S sys1] node t2 w(8) by (auto simp: unat_less_u64_max)
  define w2 where "w2 = \<lparr>c_sys = sys1, c_mem = free_all [(global_epoch sys, Owned p)] m1,
    c_threads = [\<lparr>c_t = t0, c_node = None, c_pc = At_Rest\<rparr>, \<lparr>c_t = t3, c_node = None, c_pc = At_Rest\<rparr>]\<rparr>"
  have "collector_access S (Scanning Tick (Read_Slot 2 1 u64_max)) (sys1, t2, m1) = Inr (sys1, t2, m1, Draining Tick u64_max)"
    using w(3,6) by (simp add: sys1_def next_slot_def min_update_def slot_val_def)
  then have r2: "collector_run S [(1, Next_Access), (1, Next_Access)] w1 = Inr w2"
    using t3 by (simp add: w1_def w2_def collector_act_def)
  have h: "slot_holds 0 ts w1" "slot_holds 0 ts w2"
    using ne by (simp_all add: slot_holds_def w1_def w2_def sys1_def slot_val_def)
  show ?thesis
    by (rule exI [of _ w1], rule exI [of _ w2], rule exI [of _ p],
        rule exI [of _ "\<lparr>node_value = v, birth_ts = global_epoch sys, next_ptr = 0\<rparr>"])
      (use r1 r2 h node w(7) in \<open>simp add: w1_def w2_def free_all_def\<close>)
qed

lemma start_two: "collector_start 2 = \<lparr>c_sys = pacer_system_new\<lparr>announce_tbl := announcement_table_new\<lparr>active_count := 2\<rparr>\<rparr>,
    c_mem = empty_memory, c_threads = [\<lparr>c_t = thread_local_state_new 0, c_node = None, c_pc = At_Rest\<rparr>,
      \<lparr>c_t = thread_local_state_new 1, c_node = None, c_pc = At_Rest\<rparr>]\<rparr>"
  by (simp add: collector_start_def upt_rec)

definition first_choice :: "u64 \<Rightarrow> u64 \<Rightarrow> (nat \<times> 'v collector_op) list" where
  "first_choice now lat = (0, Call_Snapshot now lat) # replicate 16 (0, Next_Access)"

lemma first_choice_run:
  "\<exists>w :: 'v collector. collector_run S (first_choice now lat) (collector_start 2) = Inr w \<and> about_to_announce 1 w"
proof -
  let ?sys = "pacer_system_new\<lparr>announce_tbl := announcement_table_new\<lparr>active_count := 2\<rparr>\<rparr>"
  let ?t = "(thread_local_state_new 0)\<lparr>win_snaps := win_snaps (thread_local_state_new 0) + 1\<rparr>"
  let ?x = "(?sys, ?t, empty_memory :: 'v memory, In_Scc (Enter now) lat)"
  obtain s where s: "alone S 16 ?x = Inr (?sys\<lparr>scc := s\<rparr>, ?t, empty_memory, Store_Announce 1)"
    using first_snapshot_accesses [of ?sys S ?t "empty_memory :: 'v memory" now lat]
    by (auto simp: pacer_system_new_def scc_new_def)
  let ?w = "with_thread (collector_start 2) 0 None (?sys\<lparr>scc := s\<rparr>, ?t, empty_memory :: 'v memory, Store_Announce 1)"
  have "collector_run S (first_choice now lat) (collector_start 2) = Inr ?w"
    using collector_run_thread [of 0 "collector_start 2" S 16 None ?x] s
    by (simp add: first_choice_def collector_act_def with_thread_def start_two)
  moreover have "about_to_announce 1 ?w"
    by (auto simp: about_to_announce_def with_thread_def start_two thread_local_state_new_def pacer_system_new_def slot_val_def
        announcement_table_new_def announcement_slot_new_def limbo_bag_new_def WINDOW_SIZE_def MAX_THREADS_def)
  ultimately show ?thesis by blast
qed

theorem scan_misses_later_announcement_witness:
  "\<exists>w w1 w2 p node. collector_run TokenAf (first_choice 100 5) (collector_start 2) = Inr w \<and>
    collector_run TokenAf (scan_passes (7 :: nat)) w = Inr w1 \<and> slot_holds 0 1 w1 \<and>
    boxes (c_mem w1) p = Some node \<and> 1 \<le> birth_ts node \<and>
    collector_run TokenAf [(1, Next_Access), (1, Next_Access)] w1 = Inr w2 \<and> slot_holds 0 1 w2 \<and> boxes (c_mem w2) p = None"
proof -
  obtain w :: "nat collector" where w: "collector_run TokenAf (first_choice 100 5) (collector_start 2) = Inr w" "about_to_announce 1 w"
    using first_choice_run by blast
  with scan_misses_later_announcement [OF w(2), of TokenAf 7] show ?thesis by auto
qed


text \<open>A run in which a node is freed under a snapshot that is younger.\<close>

lemma younger_snapshot_run:
  "\<exists>w w1 w2 :: nat collector. \<exists>p node.
    collector_run TokenAf ((1, Call_Prepare 7) # first_choice 100 5 @ [(0, Next_Access)]) (collector_start 2) = Inr w \<and>
    \<not> mid_scan (c_pc (c_threads w ! 1)) \<and>
    throughout TokenAf (slot_holds 0 2) [(1, Call_Retire), (1, Next_Access), (1, Next_Access), (1, Next_Access)] w \<and>
    collector_run TokenAf [(1, Call_Retire), (1, Next_Access), (1, Next_Access), (1, Next_Access)] w = Inr w1 \<and>
    collector_act TokenAf (1, Next_Access) w1 = Inr w2 \<and> boxes (c_mem w1) p = Some node \<and> boxes (c_mem w2) p = None"
proof -
  let ?sys = "pacer_system_new\<lparr>announce_tbl := announcement_table_new\<lparr>active_count := 2\<rparr>, global_epoch := 2\<rparr>"
  let ?t = "(thread_local_state_new 0)\<lparr>win_snaps := win_snaps (thread_local_state_new 0) + 1\<rparr>"
  define m where "m = snd (version_node_new (7 :: nat) 1 empty_memory)"
  define p where "p = next_box (empty_memory :: nat memory)"
  define t1 where "t1 = prepared (thread_local_state_new 1)"
  define wp where "wp = \<lparr>c_sys = ?sys, c_mem = m, c_threads = [\<lparr>c_t = thread_local_state_new 0, c_node = None, c_pc = At_Rest\<rparr>,
      \<lparr>c_t = t1, c_node = Some (p, 1), c_pc = At_Rest\<rparr>]\<rparr>"
  let ?x = "(?sys, ?t, m, In_Scc (Enter 100) 5)"
  obtain s where s: "alone TokenAf 16 ?x = Inr (?sys\<lparr>scc := s\<rparr>, ?t, m, Store_Announce 2)"
    using first_snapshot_accesses [of ?sys TokenAf ?t m 100 5] by (auto simp: pacer_system_new_def scc_new_def)
  define tbl where "tbl = announcement_table_new\<lparr>active_count := 2, slots := (slots announcement_table_new)[0 := \<lparr>active_ts = 2\<rparr>]\<rparr>"
  define sys1 where "sys1 = ?sys\<lparr>scc := s, announce_tbl := tbl\<rparr>"
  define w where "w = \<lparr>c_sys = sys1, c_mem = m, c_threads = [\<lparr>c_t = ?t, c_node = None, c_pc = At_Rest\<rparr>,
      \<lparr>c_t = t1, c_node = Some (p, 1), c_pc = At_Rest\<rparr>]\<rparr>"
  have a: "collector_act TokenAf (1, Call_Prepare 7) (collector_start 2) = Inr wp"
    by (simp add: start_two collector_act_def prepare_unfold wp_def m_def p_def t1_def pacer_system_new_def)
  have "collector_run TokenAf (first_choice 100 5) wp = Inr (with_thread wp 0 None (?sys\<lparr>scc := s\<rparr>, ?t, m, Store_Announce 2))"
    using collector_run_thread [of 0 wp TokenAf 16 None ?x] s
    by (simp add: first_choice_def collector_act_def with_thread_def wp_def)
  moreover have "collector_act TokenAf (0, Next_Access) (with_thread wp 0 None (?sys\<lparr>scc := s\<rparr>, ?t, m, Store_Announce 2)) = Inr w"
    by (simp add: with_thread_def wp_def collector_act_def announce_snapshot_def announce_def w_def sys1_def tbl_def
        thread_local_state_new_def announcement_table_new_def MAX_THREADS_def pacer_system_new_def)
  ultimately have r: "collector_run TokenAf ((1, Call_Prepare 7) # first_choice 100 5 @ [(0, Next_Access)]) (collector_start 2) = Inr w"
    using a by (simp add: collector_run_append)
  define w1 where "w1 = w\<lparr>c_threads := [\<lparr>c_t = ?t, c_node = None, c_pc = At_Rest\<rparr>,
      \<lparr>c_t = pushed t1 1 p, c_node = None, c_pc = Draining Tick 2\<rparr>]\<rparr>"
  have tbl: "active_count tbl = 2" "length (slots tbl) = MAX_THREADS" "active_ts (slots tbl ! 0) = 2" "active_ts (slots tbl ! 1) = 0"
    by (simp_all add: tbl_def announcement_table_new_def announcement_slot_new_def MAX_THREADS_def)
  have r1: "collector_run TokenAf [(1, Call_Retire), (1, Next_Access), (1, Next_Access), (1, Next_Access)] w = Inr w1"
    "throughout TokenAf (slot_holds 0 2) [(1, Call_Retire), (1, Next_Access), (1, Next_Access), (1, Next_Access)] w"
    using tbl by (simp_all add: w_def w1_def collector_act_def retire_pc_def Let_def next_slot_def min_update_def
        sys1_def pushed_def slot_holds_def slot_val_def MAX_THREADS_def)
  have node: "boxes m p = Some \<lparr>node_value = 7, birth_ts = 1, next_ptr = 0\<rparr>"
    by (simp add: m_def p_def version_node_new_def)
  have "limbo_bag (pushed t1 1 p) = [(1, Owned p)]" "gc_mode (pushed t1 1 p) = AggressiveEbr" "op_counter (pushed t1 1 p) = 1"
    by (simp_all add: pushed_def limbo_push_def t1_def thread_local_state_new_def limbo_bag_new_def)
  then obtain t3 where "collector_access TokenAf (Draining Tick 2) (sys1, pushed t1 1 p, m) = Inr (sys1, t3, free_all [(1, Owned p)] m, At_Rest)"
    using tick_one [of m p 1 2 "pushed t1 1 p" TokenAf sys1] node by (auto simp: WINDOW_SIZE_def)
  then obtain w2 where "collector_act TokenAf (1, Next_Access) w1 = Inr w2" "boxes (c_mem w2) p = None"
    by (auto simp: w1_def w_def collector_act_def free_all_def)
  moreover have "boxes (c_mem w1) p = Some \<lparr>node_value = 7, birth_ts = 1, next_ptr = 0\<rparr>" "\<not> mid_scan (c_pc (c_threads w ! 1))"
    using node by (simp_all add: w1_def w_def)
  ultimately show ?thesis using r r1 by blast
qed

theorem held_snapshot_spares_nodes_witness:
  "\<exists>w w1 w2 :: nat collector. \<exists>p node.
    collector_run TokenAf ((1, Call_Prepare 7) # first_choice 100 5 @ [(0, Next_Access)]) (collector_start 2) = Inr w \<and>
    collector_run TokenAf [(1, Call_Retire), (1, Next_Access), (1, Next_Access), (1, Next_Access)] w = Inr w1 \<and>
    collector_act TokenAf (1, Next_Access) w1 = Inr w2 \<and> boxes (c_mem w1) p = Some node \<and> boxes (c_mem w2) p = None \<and>
    birth_ts node < 2"
proof -
  let ?as = "(1, Call_Prepare 7) # first_choice 100 5 @ [(0, Next_Access)] :: (nat \<times> nat collector_op) list"
  let ?bs = "[(1, Call_Retire), (1, Next_Access), (1, Next_Access), (1, Next_Access)] :: (nat \<times> nat collector_op) list"
  have "length ?as + length ?bs < 2 ^ 62" "\<forall>(i, a) \<in> set (?as @ ?bs). i < 2" "2 \<le> MAX_THREADS"
    by (auto simp: first_choice_def MAX_THREADS_def)
  note h = held_snapshot_spares_nodes [OF this(3,1,2), of 1 0 2 TokenAf]
  obtain w w1 w2 :: "nat collector" and p node where
    r: "collector_run TokenAf ?as (collector_start 2) = Inr w" "\<not> mid_scan (c_pc (c_threads w ! 1))"
      "throughout TokenAf (slot_holds 0 2) ?bs w" "collector_run TokenAf ?bs w = Inr w1"
      "collector_act TokenAf (1, Next_Access) w1 = Inr w2" "boxes (c_mem w1) p = Some node" "boxes (c_mem w2) p = None"
    using younger_snapshot_run by (elim exE conjE)
  have "birth_ts node < 2" by (rule h [OF _ _ _ r]) simp_all
  with r show ?thesis by blast
qed

end
