(* ===== verification/Collector_Progress.thy ===== *)
theory Collector_Progress
  imports Collector_Safety
begin

text \<open>
  The collector of \<open>Collector_Steps\<close> seen through its coalescer, and what it guarantees of progress. Every run,
  projected to the coalescer, the epoch and the control points of \<open>Scc::take_snapshot\<close>, is a run of
  \<open>Scc_Steps\<close>, so that what is shown there holds of the whole system. Outside \<open>Scc::take_snapshot\<close> no thread ever
  waits: the accesses that are left can be counted. Inside it a thread may wait for the one that opens a
  window, which can always finish.
\<close>

section \<open>The view of the coalescer\<close>

fun scc_pc_of :: "collector_pc \<Rightarrow> scc_pc" where
  "scc_pc_of (In_Scc pc lat) = pc"
| "scc_pc_of (Latency_Load ts lat) = Done ts"
| "scc_pc_of (Latency_Store ts v) = Done ts"
| "scc_pc_of (Store_Announce ts) = Done ts"
| "scc_pc_of _ = Idle"

definition scc_view :: "'v collector \<Rightarrow> scc_world" where
  "scc_view w = \<lparr>w_scc = scc (c_sys w), w_epoch = global_epoch (c_sys w),
     w_pc = (\<lambda>i. if i < length (c_threads w) then scc_pc_of (c_pc (c_threads w ! i)) else Idle)\<rparr>"

text \<open>What an access does to it: one step of the coalescer's world, or none.\<close>

fun view_step :: "scc \<times> u64 \<times> scc_pc \<Rightarrow> scc \<times> u64 \<times> scc_pc \<Rightarrow> bool" where
  "view_step (s, e, pc) (s', e', pc') \<longleftrightarrow>
     s' = s \<and> e' = e \<and> pc' = pc \<or>
     s' = s \<and> e' = e \<and> pc = Idle \<and> (\<exists>now. pc' = Enter now) \<or>
     scc_thread_step s e pc = (s', pc') \<and> e' = e \<or>
     s' = s \<and> e' = e \<and> (\<exists>ts. pc = Done ts) \<and> pc' = Idle \<or>
     s' = s \<and> e' = e + 1 \<and> pc' = pc \<or>
     (\<exists>v. s' = s\<lparr>p99_ns := v\<rparr>) \<and> e' = e \<and> pc' = pc"

lemma view_stepI:
  "view_step x x"
  "view_step (s, e, Idle) (s, e, Enter now)"
  "scc_thread_step s e pc = (s', pc') \<Longrightarrow> view_step (s, e, pc) (s', e, pc')"
  "view_step (s, e, Done ts) (s, e, Idle)"
  "view_step (s, e, pc) (s, e + 1, pc)"
  "view_step (s, e, pc) (s\<lparr>p99_ns := v\<rparr>, e, pc)"
  by (cases x) auto

declare view_step.simps [simp del]

lemma quiet_local_code:
  "stride_pc t = Inr (t', pc) \<Longrightarrow> scc_pc_of pc = Idle"
  "window_pass S t = Inr (t', pc) \<Longrightarrow> scc_pc_of pc = Idle"
  "tick_done S t = Inr (t', pc) \<Longrightarrow> scc_pc_of pc = Idle"
proof -
  show stride: "stride_pc t = Inr (t', pc) \<Longrightarrow> scc_pc_of pc = Idle" for t t' pc
    by (auto simp: stride_pc_def Let_def split: if_splits)
  show pass: "window_pass S t = Inr (t', pc) \<Longrightarrow> scc_pc_of pc = Idle" for t t' pc
    by (cases S; cases "select_gc_mode_with_hysteresis (spi_ema t) (gc_mode t)") (auto simp: Let_def intro: stride)
  show "tick_done S t = Inr (t', pc) \<Longrightarrow> scc_pc_of pc = Idle"
    by (auto simp: tick_done_def intro: pass split: if_splits option.splits)
qed

lemma access_view:
  assumes "collector_access S pc (sys, t, m) = Inr (sys', t', m', pc')"
  shows "view_step (scc sys, global_epoch sys, scc_pc_of pc) (scc sys', global_epoch sys', scc_pc_of pc')"
proof (cases pc)
  case (In_Scc x lat)
  obtain s1 x1 where st: "scc_thread_step (scc sys) (global_epoch sys) x = (s1, x1)" by fastforce
  then have "scc sys' = s1" "global_epoch sys' = global_epoch sys" "scc_pc_of pc' = x1"
    using assms In_Scc by (cases x1; auto)+
  with st In_Scc show ?thesis by (simp add: view_stepI(3))
next
  case (Draining stage safe)
  with assms show ?thesis by (cases stage) (auto simp: bind_res_Inr_iff intro: view_stepI dest!: quiet_local_code)
next
  case (Store_Delta d)
  with assms show ?thesis by (auto simp: bind_res_Inr_iff intro: view_stepI dest!: quiet_local_code)
next
  case (Store_Announce ts)
  with assms show ?thesis by (auto simp: bind_res_Inr_iff announce_snapshot_def announce_def intro: view_stepI split: if_splits)
next
  case (Scanning stage x)
  with assms show ?thesis by (auto intro: view_stepI split: scan_pc.splits sum.splits)
qed (use assms in \<open>auto intro: view_stepI split: if_splits\<close>)

lemma step_view:
  assumes "collector_step S a (sys, th, m) = Inr (sys', th', m')"
  shows "view_step (scc sys, global_epoch sys, scc_pc_of (c_pc th)) (scc sys', global_epoch sys', scc_pc_of (c_pc th'))"
proof (cases a)
  case Next_Access
  with assms access_view [of S "c_pc th" sys "c_t th" m] show ?thesis by (auto simp: bind_res_Inr_iff)
next
  case Call_Release
  with assms show ?thesis
    by (auto simp: bind_res_Inr_iff release_snapshot_for_def release_snapshot_def release_def intro: view_stepI split: if_splits)
next
  case Call_Retire
  have "scc_pc_of (retire_pc S t) = Idle" for t by (simp add: retire_pc_def)
  with Call_Retire assms show ?thesis by (auto simp: Let_def intro: view_stepI split: collector_pc.splits option.splits)
qed (use assms in \<open>auto simp: prepare_unfold intro: view_stepI split: if_splits\<close>)

lemma view_step_world:
  assumes v: "view_step (scc (c_sys w), global_epoch (c_sys w), scc_pc_of (c_pc (c_threads w ! i))) (scc sys', global_epoch sys', scc_pc_of (c_pc th'))"
    and "i < length (c_threads w)" "global_epoch (c_sys w) \<noteq> u64_max"
    and w'_def: "w' = \<lparr>c_sys = sys', c_mem = m', c_threads = (c_threads w)[i := th']\<rparr>"
  shows "scc_view w' = scc_view w \<or> scc_world_step (scc_view w) (scc_view w')"
proof -
  let ?pc = "scc_pc_of (c_pc (c_threads w ! i))" and ?pc' = "scc_pc_of (c_pc th')"
  obtain s e f where vw: "scc_view w = \<lparr>w_scc = s, w_epoch = e, w_pc = f\<rparr>" by (cases "scc_view w")
  then have fields: "s = scc (c_sys w)" "e = global_epoch (c_sys w)" "f i = ?pc" using assms(2) by (auto simp: scc_view_def)
  have w': "scc_view w' = \<lparr>w_scc = scc sys', w_epoch = global_epoch sys', w_pc = f(i := ?pc')\<rparr>"
    using vw assms(2) by (auto simp: scc_view_def w'_def)
  have same: "?pc' = ?pc \<Longrightarrow> f(i := ?pc') = f" using fields(3) by (metis fun_upd_triv)
  from v [folded fields] consider "scc sys' = s" "global_epoch sys' = e" "?pc' = ?pc"
    | now where "scc sys' = s" "global_epoch sys' = e" "f i = Idle" "?pc' = Enter now"
    | "scc_thread_step s e (f i) = (scc sys', ?pc')" "global_epoch sys' = e"
    | ts where "scc sys' = s" "global_epoch sys' = e" "f i = Done ts" "?pc' = Idle"
    | "scc sys' = s" "global_epoch sys' = e + 1" "?pc' = ?pc"
    | x where "scc sys' = s\<lparr>p99_ns := x\<rparr>" "global_epoch sys' = e" "?pc' = ?pc"
    unfolding view_step.simps fields(3) by (elim disjE conjE exE) blast+
  then show ?thesis
  proof cases
    case 1
    then show ?thesis using w' vw same by simp
  next
    case (2 now)
    then show ?thesis using scc_world_step.call [of "scc_view w" i now] unfolding vw w' by simp
  next
    case 3
    then show ?thesis using scc_world_step.run [of "scc_view w" i "scc sys'" ?pc'] unfolding vw w' by simp
  next
    case (4 ts)
    then show ?thesis using scc_world_step.ret [of "scc_view w" i ts] unfolding vw w' by simp
  next
    case 5
    then show ?thesis using scc_world_step.tick [of "scc_view w"] same [OF 5(3)] assms(3) fields(2) unfolding vw w' by simp
  next
    case (6 x)
    then show ?thesis using scc_world_step.latency [of "scc_view w" x] same [OF 6(3)] unfolding vw w' by simp
  qed
qed

lemma world_step_gen:
  assumes "scc_reach v" "scc_world_step v v'"
  shows "unat (window_gen (w_scc v')) \<le> unat (window_gen (w_scc v)) + 1"
  using assms(2)
proof (cases rule: scc_world_step.cases)
  case (run i s' pc')
  have "scc_inv (w_scc v) (w_epoch v)" "pc_inv (w_scc v) (w_epoch v) (w_pc v i)"
    using reach_inv [OF assms(1)] by (simp_all add: world_inv_def parts_inv_def)
  from step_gen [OF this run(2)] run(1) show ?thesis by simp
qed simp_all

section \<open>Every run is a run of the coalescer\<close>

definition announced_past :: "pacer_system \<Rightarrow> bool" where
  "announced_past sys \<longleftrightarrow> (\<forall>s \<in> set (slots (announce_tbl sys)). active_ts s \<le> global_epoch sys)"

definition view_ok :: "nat \<Rightarrow> 'v collector \<Rightarrow> bool" where
  "view_ok n w \<longleftrightarrow> scc_reach (scc_view w) \<and> unat (window_gen (scc (c_sys w))) \<le> n \<and> announced_past (c_sys w)"

lemma announced_past_epoch:
  assumes "announced_past sys" "announce_tbl sys' = announce_tbl sys" "global_epoch sys \<le> global_epoch sys'"
  shows "announced_past sys'"
  using assms by (auto simp: announced_past_def)

lemma step_announced:
  assumes "announced_past sys" "collector_step S a (sys, th, m) = Inr (sys', th', m')" "global_epoch sys \<noteq> u64_max"
    and "\<And>ts. c_pc th = Store_Announce ts \<Longrightarrow> ts \<le> global_epoch sys"
  shows "announced_past sys'"
proof -
  have e: "global_epoch sys \<le> global_epoch sys + 1"
    using assms(3) unat_less_u64_max word_less_nat_alt [of "global_epoch sys" u64_max]
    by (simp add: word_le_nat_alt unat_word_ariths unsigned_minus_1_eq_mask mask_eq_exp_minus_1)
  have upd: "announced_past (sys\<lparr>announce_tbl := (announce_tbl sys)\<lparr>slots := (slots (announce_tbl sys))[j := \<lparr>active_ts = ts\<rparr>]\<rparr>\<rparr>)"
    if "ts \<le> global_epoch sys" for j ts
    using assms(1) that set_update_subset_insert [of "slots (announce_tbl sys)" j "\<lparr>active_ts = ts\<rparr>"]
    by (auto simp: announced_past_def)
  show ?thesis
  proof (cases a)
    case Next_Access
    then obtain t' pc' where st: "collector_access S (c_pc th) (sys, c_t th, m) = Inr (sys', t', m', pc')"
      using assms(2) by (auto simp: bind_res_Inr_iff)
    show ?thesis
    proof (cases "c_pc th")
      case (Store_Announce ts)
      with st upd [OF assms(4) [OF Store_Announce]] show ?thesis
        by (auto simp: bind_res_Inr_iff announce_snapshot_def announce_def split: if_splits)
    next
      case (Draining stage safe)
      with st assms(1) show ?thesis by (cases stage) (auto simp: bind_res_Inr_iff)
    next
      case (Epoch_Cas cur)
      with st assms(1) e show ?thesis by (auto intro: announced_past_epoch split: if_splits)
    next
      case (In_Scc x lat)
      with st have "announce_tbl sys' = announce_tbl sys" "global_epoch sys' = global_epoch sys" by (auto split: prod.splits)
      with assms(1) show ?thesis by (auto intro: announced_past_epoch)
    qed (use st assms(1) in \<open>auto simp: bind_res_Inr_iff intro: announced_past_epoch split: scan_pc.splits sum.splits\<close>)
  next
    case Call_Release
    with assms(1,2) upd [of 0] show ?thesis
      by (auto simp: bind_res_Inr_iff release_snapshot_for_def release_snapshot_def release_def split: if_splits)
  next
    case (Call_Prepare v)
    with assms(1,2) e show ?thesis by (auto simp: prepare_unfold intro: announced_past_epoch split: if_splits)
  next
    case Call_Retire
    with assms(1,2) show ?thesis by (auto simp: Let_def split: collector_pc.splits option.splits)
  qed (use assms(1,2) in \<open>auto split: if_splits\<close>)
qed

lemma collector_act_view:
  assumes "collector_ok n w" "view_ok n w" "n < 2 ^ 62" "i < length (c_threads w)" "collector_act S (i, a) w = Inr w'"
  shows "view_ok (n + 1) w'"
proof -
  obtain sys' th' m' where st: "collector_step S a (c_sys w, c_threads w ! i, c_mem w) = Inr (sys', th', m')"
    "w' = \<lparr>c_sys = sys', c_mem = m', c_threads = (c_threads w)[i := th']\<rparr>"
    using assms(5) by (auto simp: collector_act_def bind_res_Inr_iff)
  have e: "global_epoch (c_sys w) \<noteq> u64_max"
    using assms(1,3) less_u64_max [of "global_epoch (c_sys w)" "n + 1"]
    by (auto simp: collector_ok_def fine_ok_def shared_ok_def as_fine_def)
  have r: "scc_reach (scc_view w)" and g: "unat (window_gen (scc (c_sys w))) \<le> n" using assms(2) by (simp_all add: view_ok_def)
  note v = view_step_world [OF step_view [OF st(1)] assms(4) e st(2)]
  have g': "unat (window_gen (w_scc (scc_view w'))) \<le> n + 1"
    using v world_step_gen [OF r] g by (fastforce simp: scc_view_def)
  have "scc_reach (scc_view w')"
    using v r scc_reach.step [OF r, of "scc_view w'"] g' assms(3) by auto
  moreover have "announced_past sys'"
  proof (rule step_announced [OF _ st(1) e])
    show "announced_past (c_sys w)" using assms(2) by (simp add: view_ok_def)
    fix ts assume "c_pc (c_threads w ! i) = Store_Announce ts"
    then have "w_pc (scc_view w) i = Done ts" using assms(4) by (simp add: scc_view_def)
    then show "ts \<le> global_epoch (c_sys w)"
      using reach_inv [OF r] by (metis parts_inv_def pc_inv.simps(14) scc_view_def scc_world.select_convs(2) valid_ts_def world_inv_def)
  qed
  ultimately show ?thesis using g' by (simp add: view_ok_def st(2) scc_view_def)
qed

lemma collector_run_view:
  assumes "collector_ok n w" "view_ok n w" "n + length as \<le> 2 ^ 62" "\<forall>(i, a) \<in> set as. i < length (c_threads w)"
    and "collector_run S as w = Inr w'"
  shows "view_ok (n + length as) w'"
  using collector_run_induct [OF assms(1,3,4), of view_ok S, OF assms(2) collector_act_view] assms(5) by simp

lemma view_ok_start: "view_ok 0 (collector_start k :: 'v collector)"
proof -
  have "scc_view (collector_start k :: 'v collector) = scc_world_new"
    by (auto simp: scc_view_def collector_start_def scc_world_new_def pacer_system_new_def)
  then show ?thesis
    using scc_reach.start
    by (auto simp: view_ok_def collector_start_def pacer_system_new_def scc_new_def announced_past_def announcement_table_new_def announcement_slot_new_def)
qed

lemma collector_reaches:
  fixes w :: "'v collector"
  assumes "k \<le> MAX_THREADS" "length as \<le> 2 ^ 62" "\<forall>(i, a) \<in> set as. i < k" "collector_run S as (collector_start k) = Inr w"
  shows "collector_ok (length as) w" "length (c_threads w) = k" "view_ok (length as) w"
proof -
  have st: "collector_ok 0 (collector_start k :: 'v collector)" "length (c_threads (collector_start k :: 'v collector)) = k"
    using assms(1) by (simp_all add: collector_start_ok)
  show "collector_ok (length as) w" "length (c_threads w) = k"
    using collector_run_ok [OF st(1), of as S] st(2) assms(2-4) by auto
  show "view_ok (length as) w"
    using collector_run_view [OF st(1) view_ok_start, of as S w] st(2) assms(2-4) by simp
qed



section \<open>Outside the coalescer no thread waits\<close>

fun in_scc :: "collector_pc \<Rightarrow> bool" where
  "in_scc (In_Scc pc lat) = True"
| "in_scc _ = False"

text \<open>The most accesses a thread still needs, whatever the others do.\<close>

fun accesses_left :: "collector_pc \<Rightarrow> nat" where
  "accesses_left (Scanning Tick (Read_Slot n i m)) = MAX_THREADS + 8 + (n - i)"
| "accesses_left (Scanning Tick pc) = 2 * MAX_THREADS + 9"
| "accesses_left (Draining Tick safe) = MAX_THREADS + 8"
| "accesses_left (Store_Spi x d) = MAX_THREADS + 7"
| "accesses_left (Store_Delta d) = MAX_THREADS + 6"
| "accesses_left Load_Delta = MAX_THREADS + 5"
| "accesses_left (Scanning (Window bk) (Read_Slot n i m)) = 3 + (n - i)"
| "accesses_left (Scanning (Window bk) pc) = MAX_THREADS + 4"
| "accesses_left (Draining (Window bk) safe) = 3"
| "accesses_left Epoch_Load = 2"
| "accesses_left (Epoch_Cas cur) = 1"
| "accesses_left (Latency_Load ts lat) = 3"
| "accesses_left (Latency_Store ts v) = 2"
| "accesses_left (Store_Announce ts) = 1"
| "accesses_left _ = 0"

lemma left_local_code:
  "stride_pc t = Inr (t', pc) \<Longrightarrow> accesses_left pc \<le> 2 \<and> \<not> in_scc pc"
  "window_pass S t = Inr (t', pc) \<Longrightarrow> accesses_left pc \<le> MAX_THREADS + 5 \<and> \<not> in_scc pc"
  "tick_done S t = Inr (t', pc) \<Longrightarrow> accesses_left pc \<le> MAX_THREADS + 7 \<and> \<not> in_scc pc"
proof -
  show stride: "stride_pc t = Inr (t', pc) \<Longrightarrow> accesses_left pc \<le> 2 \<and> \<not> in_scc pc" for t t' pc
    by (auto simp: stride_pc_def Let_def split: if_splits)
  show pass: "window_pass S t = Inr (t', pc) \<Longrightarrow> accesses_left pc \<le> MAX_THREADS + 5 \<and> \<not> in_scc pc" for t t' pc
    by (cases S; cases "select_gc_mode_with_hysteresis (spi_ema t) (gc_mode t)") (auto simp: Let_def dest: stride)
  show "tick_done S t = Inr (t', pc) \<Longrightarrow> accesses_left pc \<le> MAX_THREADS + 7 \<and> \<not> in_scc pc"
    by (auto simp: tick_done_def dest!: pass split: if_splits option.splits)
qed

lemma access_left:
  assumes "collector_access S pc (sys, t, m) = Inr (sys', t', m', pc')" "\<not> in_scc pc" "pc \<noteq> At_Rest" "pc_ok pc"
    and "table_ok (announce_tbl sys)"
  shows "accesses_left pc' < accesses_left pc \<and> \<not> in_scc pc'"
proof (cases pc)
  case (Scanning stage x)
  with assms(1,4,5) show ?thesis
    by (cases stage; cases x) (auto simp: table_ok_def next_slot_def split: if_splits)
next
  case (Draining stage safe)
  with assms(1) show ?thesis by (cases stage) (auto simp: bind_res_Inr_iff dest!: left_local_code)
next
  case (Store_Delta d)
  with assms(1) show ?thesis by (auto simp: bind_res_Inr_iff dest!: left_local_code)
qed (use assms in \<open>auto simp: bind_res_Inr_iff split: if_splits\<close>)

lemma own_access_left:
  assumes "collector_ok n w" "n < 2 ^ 62" "i < length (c_threads w)" "\<not> in_scc (c_pc (c_threads w ! i))"
    "c_pc (c_threads w ! i) \<noteq> At_Rest" "collector_act S (i, Next_Access) w = Inr w'"
  shows "accesses_left (c_pc (c_threads w' ! i)) < accesses_left (c_pc (c_threads w ! i)) \<and> \<not> in_scc (c_pc (c_threads w' ! i))"
proof -
  note a = collector_ok_access [OF assms(1,3,2)]
  have p: "pc_ok (c_pc (c_threads w ! i))" "table_ok (announce_tbl (c_sys w))"
    using a access_okD(1) [OF a] by (simp_all add: access_ok_def)
  obtain sys' t' m' pc' where "collector_access S (c_pc (c_threads w ! i)) (c_sys w, c_t (c_threads w ! i), c_mem w) = Inr (sys', t', m', pc')"
    "c_pc (c_threads w' ! i) = pc'"
    using assms(3,6) by (auto simp: collector_act_def bind_res_Inr_iff)
  with access_left [OF _ assms(4,5) p] show ?thesis by blast
qed

lemma left_0: "accesses_left pc = 0 \<Longrightarrow> \<not> in_scc pc \<Longrightarrow> pc_ok pc \<Longrightarrow> pc = At_Rest"
  by (cases pc rule: accesses_left.cases) simp_all

lemma call_waits:
  assumes "collector_step S a (sys, th, m) = Inr (sys', th', m')" "a \<noteq> Next_Access" "c_pc th \<noteq> At_Rest"
  shows "th' = th"
  using assms by (cases a) (auto split: if_splits collector_pc.splits)

text \<open>A thread at work is at rest once it has had its accesses.\<close>

lemma finishes_in:
  assumes "collector_ok n w" "n + length bs \<le> 2 ^ 62" "\<forall>(j, a) \<in> set bs. j < length (c_threads w)" "i < length (c_threads w)"
    and "\<not> in_scc (c_pc (c_threads w ! i))" "accesses_left (c_pc (c_threads w ! i)) \<le> count_list bs (i, Next_Access)"
  shows "\<exists>bs1 bs2 w1. bs = bs1 @ bs2 \<and> collector_run S bs1 w = Inr w1 \<and> c_pc (c_threads w1 ! i) = At_Rest"
  using assms
proof (induction bs arbitrary: n w)
  case Nil
  have "pc_ok (c_pc (c_threads w ! i))" using Nil.prems(1,4) by (simp add: collector_ok_def)
  with Nil.prems(5,6) have "c_pc (c_threads w ! i) = At_Rest" by (intro left_0) simp_all
  then show ?case by (simp add: exI [of _ w])
next
  case (Cons x bs)
  show ?case
  proof (cases "c_pc (c_threads w ! i) = At_Rest")
    case True
    show ?thesis by (rule exI [of _ "[]"], rule exI [of _ "x # bs"], rule exI [of _ w]) (simp add: True)
  next
    case False
    obtain l a where x: "x = (l, a)" by (cases x)
    have l: "l < length (c_threads w)" "n < 2 ^ 62" using Cons.prems(2,3) by (auto simp: x)
    obtain sys' th' m' where st: "collector_step S a (c_sys w, c_threads w ! l, c_mem w) = Inr (sys', th', m')"
      "collector_act S (l, a) w = Inr \<lparr>c_sys = sys', c_mem = m', c_threads = (c_threads w)[l := th']\<rparr>"
      "collector_ok (n + 1) \<lparr>c_sys = sys', c_mem = m', c_threads = (c_threads w)[l := th']\<rparr>"
      using collector_act_ok [OF Cons.prems(1) l(2,1), of S a] by blast
    let ?w = "\<lparr>c_sys = sys', c_mem = m', c_threads = (c_threads w)[l := th']\<rparr>"
    have "\<not> in_scc (c_pc (c_threads ?w ! i)) \<and> accesses_left (c_pc (c_threads ?w ! i)) \<le> count_list bs (i, Next_Access)"
    proof (cases "l = i \<and> a = Next_Access")
      case True
      then have "collector_act S (i, Next_Access) w = Inr ?w" using st(2) by simp
      from own_access_left [OF Cons.prems(1) l(2) Cons.prems(4,5) False this] Cons.prems(6) True show ?thesis by (simp add: x)
    next
      case other: False
      have "c_threads ?w ! i = c_threads w ! i"
        using call_waits [OF st(1)] other False l(1) by (cases "l = i") auto
      with Cons.prems(5,6) other show ?thesis by (auto simp: x)
    qed
    then obtain bs1 bs2 w1 where "bs = bs1 @ bs2" "collector_run S bs1 ?w = Inr w1" "c_pc (c_threads w1 ! i) = At_Rest"
      using Cons.IH [OF st(3)] Cons.prems(2-4) by auto
    then show ?thesis
      by - (rule exI [of _ "x # bs1"], rule exI [of _ bs2], rule exI [of _ w1], simp add: x st(2))
  qed
qed

text \<open>C8: Writing never waits. From any reachable state, and whatever the other threads do, a thread that is not inside
  \<open>Scc::take_snapshot\<close>, so one that retires a node at any point of its scan, drain, window pass or epoch step, or that
  announces its snapshot, has finished its operation by the time it has had 521 accesses of its own.\<close>

theorem retiring_is_wait_free:
  assumes "k \<le> MAX_THREADS" "length as + length bs \<le> 2 ^ 62" "\<forall>(j, a) \<in> set (as @ bs). j < k" "i < k"
    and "collector_run S as (collector_start k) = Inr w" "\<not> in_scc (c_pc (c_threads w ! i))"
    and "521 \<le> count_list bs (i, Next_Access)"
  shows "\<exists>bs1 bs2 w1. bs = bs1 @ bs2 \<and> collector_run S bs1 w = Inr w1 \<and> c_pc (c_threads w1 ! i) = At_Rest"
proof -
  have w: "collector_ok (length as) w" "length (c_threads w) = k"
    using collector_reaches(1,2) [OF assms(1) _ _ assms(5)] assms(2,3) by auto
  have "pc_ok (c_pc (c_threads w ! i))" using w assms(4) by (simp add: collector_ok_def)
  then have "accesses_left (c_pc (c_threads w ! i)) \<le> 521"
    by (cases "c_pc (c_threads w ! i)" rule: accesses_left.cases) (auto simp: MAX_THREADS_def)
  with assms(7) have "accesses_left (c_pc (c_threads w ! i)) \<le> count_list bs (i, Next_Access)" by simp
  from finishes_in [OF w(1) assms(2) _ _ assms(6) this] w(2) assms(3,4) show ?thesis by auto
qed

lemma count_list_same: "count_list (replicate k x) x = k"
  by (induction k) simp_all

theorem retiring_is_wait_free_witness:
  "\<exists>bs1 bs2 w w1. replicate 521 (1, Next_Access) = bs1 @ bs2 \<and>
    collector_run PacerContinuous [(1, Call_Prepare (7 :: nat)), (1, Call_Retire)] (collector_start 2) = Inr w \<and>
    c_pc (c_threads w ! 1) = Scanning Tick Read_Count \<and>
    collector_run PacerContinuous bs1 w = Inr w1 \<and> c_pc (c_threads w1 ! 1) = At_Rest"
proof -
  obtain w where w: "collector_run PacerContinuous [(1, Call_Prepare (7 :: nat)), (1, Call_Retire)] (collector_start 2) = Inr w"
    "c_pc (c_threads w ! 1) = Scanning Tick Read_Count"
    by (simp add: start_two collector_act_def prepare_unfold retire_pc_def Let_def)
  have "count_list (replicate 521 (1 :: nat, Next_Access :: nat collector_op)) (1, Next_Access) = 521"
    by (rule count_list_same)
  with retiring_is_wait_free [OF _ _ _ _ w(1), of "replicate 521 (1, Next_Access)" 1] w show ?thesis
    by (auto simp: MAX_THREADS_def)
qed

section \<open>Every operation can finish\<close>

text \<open>A thread inside the coalescer, left alone, leaves it when the coalescer lets it.\<close>

lemma alone_leaves_scc:
  assumes "solo n (scc sys) (global_epoch sys) pc = (s', Done ts)" "\<And>x. pc \<noteq> Done x"
  shows "\<exists>k. alone S k (sys, t, m, In_Scc pc lat) = Inr (sys\<lparr>scc := s'\<rparr>, t, m, Latency_Load ts lat)"
  using leads_solo [OF assms leads_now] unfolding leads_def by blast

lemma alone_run:
  assumes "i < length (c_threads w)" "c_threads w ! i = \<lparr>c_t = t, c_node = nd, c_pc = pc\<rparr>"
    and "alone S k (c_sys w, t, c_mem w, pc) = Inr y"
  shows "collector_run S (replicate k (i, Next_Access)) w = Inr (with_thread w i nd y)"
proof -
  have "with_thread w i nd (c_sys w, t, c_mem w, pc) = w"
    using assms(1,2) by (simp add: with_thread_def list_update_same_conv)
  with collector_run_thread [OF assms(1), of S k nd "(c_sys w, t, c_mem w, pc)"] assms(3) show ?thesis by simp
qed

text \<open>Running the coalescer's part of one thread changes nothing that the invariant speaks of.\<close>

lemma with_thread_ok:
  assumes "collector_ok n w" "i < length (c_threads w)" "c_threads w ! i = \<lparr>c_t = t, c_node = nd, c_pc = pc\<rparr>" "pc_ok pc'"
  shows "collector_ok n (with_thread w i nd ((c_sys w)\<lparr>scc := s'\<rparr>, t, c_mem w, pc'))"
proof -
  have "map as_thread ((c_threads w)[i := \<lparr>c_t = t, c_node = nd, c_pc = pc'\<rparr>]) = map as_thread (c_threads w)"
    using assms(2,3) by (simp add: map_update list_update_same_conv as_thread_def)
  then show ?thesis
    using assms(1,4) set_update_subset_insert [of "c_threads w" i "\<lparr>c_t = t, c_node = nd, c_pc = pc'\<rparr>"]
    by (auto simp: collector_ok_def as_fine_def with_thread_def)
qed

lemma leaves_scc:
  assumes w: "collector_ok n w" "i < length (c_threads w)" "c_pc (c_threads w ! i) = In_Scc pc lat"
    and d: "solo l (scc (c_sys w)) (global_epoch (c_sys w)) pc = (s', Done ts)"
  obtains k w' where "collector_run S (replicate k (i, Next_Access)) w = Inr w'" "collector_ok n w'"
    "scc (c_sys w') = s'" "global_epoch (c_sys w') = global_epoch (c_sys w)" "length (c_threads w') = length (c_threads w)"
    "c_pc (c_threads w' ! i) = Latency_Load ts lat" "\<And>j. j \<noteq> i \<Longrightarrow> c_threads w' ! j = c_threads w ! j"
proof -
  obtain t nd where th: "c_threads w ! i = \<lparr>c_t = t, c_node = nd, c_pc = In_Scc pc lat\<rparr>"
    using w(3) by (cases "c_threads w ! i") simp
  have "pc_ok (In_Scc pc lat)" using w by (metis collector_ok_def nth_mem)
  then obtain k where k: "alone S k (c_sys w, t, c_mem w, In_Scc pc lat) = Inr ((c_sys w)\<lparr>scc := s'\<rparr>, t, c_mem w, Latency_Load ts lat)"
    using alone_leaves_scc [OF d, of S t "c_mem w" lat] by auto
  let ?w = "with_thread w i nd ((c_sys w)\<lparr>scc := s'\<rparr>, t, c_mem w, Latency_Load ts lat)"
  show thesis
    by (rule that [of k ?w])
      (use alone_run [OF w(2) th k] with_thread_ok [OF w(1,2) th, of "Latency_Load ts lat" s'] w(2) in
        \<open>simp_all add: with_thread_def\<close>)
qed

text \<open>After which it needs three accesses more; a thread outside needs those that are left.\<close>

lemma finishes_alone:
  assumes "collector_ok n w" "n + 521 \<le> 2 ^ 62" "i < length (c_threads w)" "\<not> in_scc (c_pc (c_threads w ! i))"
  shows "\<exists>k w1. collector_run S (replicate k (i, Next_Access)) w = Inr w1 \<and> c_pc (c_threads w1 ! i) = At_Rest"
proof -
  let ?l = "accesses_left (c_pc (c_threads w ! i))"
  have "pc_ok (c_pc (c_threads w ! i))" using assms(1,3) by (simp add: collector_ok_def)
  then have "?l \<le> 521"
    by (cases "c_pc (c_threads w ! i)" rule: accesses_left.cases) (auto simp: MAX_THREADS_def)
  then obtain bs1 bs2 w1 where b: "replicate ?l (i, Next_Access) = bs1 @ bs2" "collector_run S bs1 w = Inr w1"
    "c_pc (c_threads w1 ! i) = At_Rest"
    using finishes_in [OF assms(1), of "replicate ?l (i, Next_Access)" i S] assms(2-4) by (auto simp: count_list_same)
  have "bs1 = replicate (length bs1) (i, Next_Access)"
    using arg_cong [OF b(1), of "take (length bs1)"] b(1) by (metis append_eq_conv_conj length_append length_replicate take_replicate min.absorb1 le_add1)
  then show ?thesis using b(2,3) by metis
qed

definition accesses_only :: "(nat \<times> 'v collector_op) list \<Rightarrow> bool" where
  "accesses_only bs \<longleftrightarrow> list_all (\<lambda>x. snd x = Next_Access) bs"

lemma accesses_only_simps [simp]:
  "accesses_only (replicate k (i, Next_Access))"
  "accesses_only (xs @ ys) \<longleftrightarrow> accesses_only xs \<and> accesses_only ys"
  by (auto simp: accesses_only_def list_all_iff)

lemma leaves_and_finishes:
  assumes w: "collector_ok n w" "n + 521 \<le> 2 ^ 62" "i < length (c_threads w)"
    and e: "even (window_gen (scc (c_sys w)))" "\<not> claimed (scc_pc_of (c_pc (c_threads w ! i)))"
  shows "\<exists>bs w1. accesses_only bs \<and> collector_run S bs w = Inr w1 \<and> c_pc (c_threads w1 ! i) = At_Rest"
proof (cases "in_scc (c_pc (c_threads w ! i))")
  case False
  from finishes_alone [OF w this, of S] show ?thesis by (meson accesses_only_simps(1))
next
  case True
  then obtain pc lat where pc: "c_pc (c_threads w ! i) = In_Scc pc lat" by (cases "c_pc (c_threads w ! i)") auto
  have "pc_ok (In_Scc pc lat)" using w(1,3) pc by (metis collector_ok_def nth_mem)
  then have "pc \<noteq> Idle" "\<not> claimed pc" using e(2) pc by simp_all
  then obtain l s' ts where d: "solo l (scc (c_sys w)) (global_epoch (c_sys w)) pc = (s', Done ts)"
    using solo_finishes [OF e(1)] by blast
  obtain k w1 where w1: "collector_run S (replicate k (i, Next_Access)) w = Inr w1" "collector_ok n w1"
    "length (c_threads w1) = length (c_threads w)" "c_pc (c_threads w1 ! i) = Latency_Load ts lat"
    by (rule leaves_scc [where S = S, OF w(1,3) pc d])
  obtain k' w2 where "collector_run S (replicate k' (i, Next_Access)) w1 = Inr w2" "c_pc (c_threads w2 ! i) = At_Rest"
    using finishes_alone [OF w1(2) w(2), of i S] w1(3,4) w(3) by auto
  with w1(1) show ?thesis
    by (intro exI [of _ "replicate k (i, Next_Access) @ replicate k' (i, Next_Access)"] exI [of _ w2]) (simp add: collector_run_append)
qed

text \<open>A writer in the critical section can leave it.\<close>

lemma critical_section_clears:
  assumes w: "collector_ok n w" "i < length (c_threads w)" and v: "scc_reach (scc_view w)"
  shows "\<exists>bs w1. accesses_only bs \<and> collector_run S bs w = Inr w1 \<and> collector_ok n w1 \<and> i < length (c_threads w1) \<and>
    even (window_gen (scc (c_sys w1))) \<and> \<not> claimed (scc_pc_of (c_pc (c_threads w1 ! i)))"
proof -
  have inv: "\<And>j. pc_inv (scc (c_sys w)) (global_epoch (c_sys w)) (w_pc (scc_view w) j)"
    "\<And>j l. claimed (w_pc (scc_view w) j) \<Longrightarrow> claimed (w_pc (scc_view w) l) \<Longrightarrow> j = l"
    "odd (window_gen (scc (c_sys w))) \<Longrightarrow> \<exists>j. claimed (w_pc (scc_view w) j)"
    using reach_inv [OF v, unfolded world_inv_def parts_inv_def] by (auto simp: scc_view_def)
  have view: "w_pc (scc_view w) j = scc_pc_of (c_pc (c_threads w ! j))" if "j < length (c_threads w)" for j
    using that by (simp add: scc_view_def)
  show ?thesis
  proof (cases "odd (window_gen (scc (c_sys w)))")
    case False
    then have "\<not> claimed (scc_pc_of (c_pc (c_threads w ! i)))" using claimed_odd [OF inv(1)] view [OF w(2)] by metis
    with False w show ?thesis by (intro exI [of _ "[]"] exI [of _ w]) (simp add: accesses_only_def)
  next
    case True
    then obtain j where j: "claimed (w_pc (scc_view w) j)" using inv(3) by blast
    then have jl: "j < length (c_threads w)" by (cases "j < length (c_threads w)") (simp_all add: scc_view_def)
    then obtain pc lat where pc: "c_pc (c_threads w ! j) = In_Scc pc lat" "claimed pc"
      using j view [OF jl] by (cases "c_pc (c_threads w ! j)") auto
    have "pc_inv (scc (c_sys w)) (global_epoch (c_sys w)) pc" using inv(1) [of j] view [OF jl] pc(1) by simp
    from solo_claimed [OF this pc(2)] obtain s' ts where
      d: "solo 7 (scc (c_sys w)) (global_epoch (c_sys w)) pc = (s', Done ts)" "even (window_gen s')" by blast
    obtain l w1 where w1: "collector_run S (replicate l (j, Next_Access)) w = Inr w1" "collector_ok n w1"
      "scc (c_sys w1) = s'" "length (c_threads w1) = length (c_threads w)" "c_pc (c_threads w1 ! j) = Latency_Load ts lat"
      "\<And>l. l \<noteq> j \<Longrightarrow> c_threads w1 ! l = c_threads w ! l"
      by (rule leaves_scc [where S = S, OF w(1) jl pc(1) d(1)]) (rule that)
    have "\<not> claimed (scc_pc_of (c_pc (c_threads w1 ! i)))"
    proof (cases "i = j")
      case False
      then have "\<not> claimed (w_pc (scc_view w) i)" using inv(2) j by blast
      then show ?thesis using w1(6) [OF False] view [OF w(2)] by simp
    qed (use w1(5) in simp)
    with w1 w(2) d(2) show ?thesis
      by (intro exI [of _ "replicate l (j, Next_Access)"] exI [of _ w1]) simp
  qed
qed

text \<open>C11: No operation of the collector is stuck for good. From every reachable state, and whatever point a thread has
  reached, there are accesses, calling no new operation, after which its operation is over.\<close>

theorem operations_can_finish:
  assumes "k \<le> MAX_THREADS" "length as + 521 \<le> 2 ^ 62" "\<forall>(j, a) \<in> set as. j < k" "i < k"
    and "collector_run S as (collector_start k) = Inr w"
  shows "\<exists>bs w1. accesses_only bs \<and> collector_run S bs w = Inr w1 \<and> c_pc (c_threads w1 ! i) = At_Rest"
proof -
  have "length as \<le> 2 ^ 62" using assms(2) by simp
  note w = collector_reaches [OF assms(1) this assms(3,5)]
  have i: "i < length (c_threads w)" "scc_reach (scc_view w)" using w assms(4) by (simp_all add: view_ok_def)
  obtain bs w1 where w1: "accesses_only bs" "collector_run S bs w = Inr w1" "collector_ok (length as) w1"
    "i < length (c_threads w1)" "even (window_gen (scc (c_sys w1)))" "\<not> claimed (scc_pc_of (c_pc (c_threads w1 ! i)))"
    using critical_section_clears [OF w(1) i] by blast
  from leaves_and_finishes [OF w1(3) assms(2) w1(4,5,6)] obtain bs' w2 where
    "accesses_only bs'" "collector_run S bs' w1 = Inr w2" "c_pc (c_threads w2 ! i) = At_Rest" by blast
  with w1(1,2) show ?thesis by (intro exI [of _ "bs @ bs'"] exI [of _ w2]) (simp add: collector_run_append)
qed

theorem operations_can_finish_witness:
  "\<exists>w bs w1. collector_run PacerDiscrete gap_accesses (collector_start 2) = Inr w \<and> accesses_only bs \<and>
    collector_run PacerDiscrete bs w = Inr (w1 :: nat collector) \<and> c_pc (c_threads w1 ! 1) = At_Rest"
proof -
  have k: "2 \<le> MAX_THREADS" "length gap_accesses + 521 \<le> 2 ^ 62" by (simp_all add: MAX_THREADS_def gap_accesses_def)
  obtain w :: "nat collector" where w: "collector_run PacerDiscrete gap_accesses (collector_start 2) = Inr w"
    using collector_start_run [OF k(1) gap_accesses_short, of PacerDiscrete] by blast
  from operations_can_finish [OF k gap_accesses_short(2) _ w, of 1] w show ?thesis by auto
qed

end
