(* ===== verification/Scc_Weak.thy ===== *)
theory Scc_Weak
  imports Scc_Steps
begin

text \<open>
  \<open>Scc::take_snapshot\<close> with the memory orderings the code gives its accesses. The accesses of \<open>Scc_Steps\<close>
  are written out as a program, access by access with its ordering, and run on a memory of views: a location
  holds a message for each store, a thread may load any message that is not older than what it knows of, and
  acquiring the message of a releasing store it learns what the storing thread knew. A read-modify-write
  takes the place directly behind the message it reads. Accesses to the global epoch, all sequentially
  consistent, are those of one variable. Loads do not overtake later stores of their thread (the model has no
  load buffering). The theory shows that the odd and even generations still admit one writer
  at a time, that a call returns no timestamp but one the epoch has held, and that the second rests on the
  releasing store that publishes the window.
\<close>

section \<open>The program\<close>

datatype location = L_Gen | L_Ts | L_Open | L_Hit | L_Total | L_W | L_P99

datatype ordering = O_Relaxed | O_Acquire | O_Release

datatype instr =
    I_Load ordering location "u64 \<Rightarrow> scc_pc"
  | I_Store ordering location u64 scc_pc
  | I_Add location scc_pc
  | I_Cas location u64 u64 scc_pc scc_pc
  | I_Epoch "u64 \<Rightarrow> scc_pc"
  | I_None scc_pc

text \<open>The first argument is the ordering of the store that publishes a window; the code's is \<open>O_Release\<close>. An
  \<open>I_Add\<close> is relaxed; an \<open>I_Cas\<close> acquires and releases when it succeeds and acquires when it fails.\<close>

fun scc_program :: "ordering \<Rightarrow> scc_pc \<Rightarrow> instr" where
  "scc_program po Idle = I_None Idle"
| "scc_program po (Enter now) = I_Add L_Total (Load_Gen now)"
| "scc_program po (Load_Gen now) =
     I_Load O_Acquire L_Gen (\<lambda>gen. if gen mod 2 = 1 then Load_Gen now else Load_Ts now gen)"
| "scc_program po (Load_Ts now gen) = I_Load O_Acquire L_Ts (Load_Open now gen)"
| "scc_program po (Load_Open now gen ts) = I_Load O_Acquire L_Open (Load_W now gen ts)"
| "scc_program po (Load_W now gen ts opened_at) =
     I_Load O_Relaxed L_W (\<lambda>w. if gen \<noteq> 0 \<and> saturating_sub now opened_at < w then Count_Hit ts else Load_Epoch now gen)"
| "scc_program po (Count_Hit ts) = I_Add L_Hit (Done ts)"
| "scc_program po (Load_Epoch now gen) = I_Epoch (Claim now gen)"
| "scc_program po (Claim now gen new_ts) =
     I_Cas L_Gen gen (gen + 1) (Load_Total now gen new_ts) (Load_Gen now)"
| "scc_program po (Load_Total now gen new_ts) =
     I_Load O_Relaxed L_Total (\<lambda>t. if t = 0 then Load_P99 now gen new_ts 0 else Load_Hits now gen new_ts t)"
| "scc_program po (Load_Hits now gen new_ts t) =
     I_Load O_Relaxed L_Hit (\<lambda>h. Load_P99 now gen new_ts (f64_of_u64 h / f64_of_u64 t))"
| "scc_program po (Load_P99 now gen new_ts hit) =
     I_Load O_Relaxed L_P99 (\<lambda>p. Store_W now gen new_ts (compute_w hit p))"
| "scc_program po (Store_W now gen new_ts w) = I_Store O_Relaxed L_W w (Store_Ts now gen new_ts)"
| "scc_program po (Store_Ts now gen new_ts) = I_Store O_Release L_Ts new_ts (Store_Open now gen new_ts)"
| "scc_program po (Store_Open now gen new_ts) = I_Store O_Release L_Open now (Publish gen new_ts)"
| "scc_program po (Publish gen new_ts) = I_Store po L_Gen (gen + 2) (Done new_ts)"
| "scc_program po (Done ts) = I_None (Done ts)"

section \<open>Sequentially consistent memory\<close>

fun get :: "scc \<Rightarrow> location \<Rightarrow> u64" where
  "get s L_Gen = window_gen s"
| "get s L_Ts = current_ts s"
| "get s L_Open = window_open_at s"
| "get s L_Hit = hit_count s"
| "get s L_Total = total_count s"
| "get s L_W = adaptive_w_ns s"
| "get s L_P99 = p99_ns s"

fun put :: "scc \<Rightarrow> location \<Rightarrow> u64 \<Rightarrow> scc" where
  "put s L_Gen x = s\<lparr>window_gen := x\<rparr>"
| "put s L_Ts x = s\<lparr>current_ts := x\<rparr>"
| "put s L_Open x = s\<lparr>window_open_at := x\<rparr>"
| "put s L_Hit x = s\<lparr>hit_count := x\<rparr>"
| "put s L_Total x = s\<lparr>total_count := x\<rparr>"
| "put s L_W x = s\<lparr>adaptive_w_ns := x\<rparr>"
| "put s L_P99 x = s\<lparr>p99_ns := x\<rparr>"

lemma get_put: "get (put s l x) l' = (if l' = l then x else get s l')"
  by (cases l; cases l') simp_all

fun sc_exec :: "scc \<Rightarrow> u64 \<Rightarrow> instr \<Rightarrow> scc \<times> scc_pc" where
  "sc_exec s e (I_Load md l k) = (s, k (get s l))"
| "sc_exec s e (I_Store md l x pc) = (put s l x, pc)"
| "sc_exec s e (I_Add l pc) = (put s l (get s l + 1), pc)"
| "sc_exec s e (I_Cas l old new ok bad) = (if get s l = old then (put s l new, ok) else (s, bad))"
| "sc_exec s e (I_Epoch k) = (s, k e)"
| "sc_exec s e (I_None pc) = (s, pc)"

text \<open>One program: on a sequentially consistent memory the accesses with their orderings are, at every control point,
  the steps of \<open>Scc_Steps\<close>.\<close>

theorem program_is_scc_steps: "sc_exec s e (scc_program po pc) = scc_thread_step s e pc"
  by (cases pc) (simp_all add: Let_def)

lemma sc_exec_program: "sc_exec s e (scc_program po pc) = scc_thread_step s e pc"
  by (cases pc) (simp_all add: Let_def)

section \<open>A memory of views\<close>

type_synonym view = "location \<Rightarrow> nat"
type_synonym weak_memory = "location \<Rightarrow> nat \<Rightarrow> (u64 \<times> view) option"

definition learn :: "view \<Rightarrow> view \<Rightarrow> location \<Rightarrow> nat \<Rightarrow> view" where
  "learn V mv l t = (\<lambda>l'. max (V l') (mv l'))(l := t)"

definition only_at :: "location \<Rightarrow> nat \<Rightarrow> view" where
  "only_at l t = (\<lambda>_. 0)(l := t)"

definition add_message :: "weak_memory \<Rightarrow> location \<Rightarrow> nat \<Rightarrow> u64 \<Rightarrow> view \<Rightarrow> weak_memory" where
  "add_message mem l t x mv = mem(l := (mem l)(t \<mapsto> (x, mv)))"

text \<open>One access of a thread with view \<open>V\<close> at the position \<open>t\<close> of the location's messages: the message it reads, or the place
  of the one it stores. None when the access is not possible there.\<close>

fun weak_exec :: "weak_memory \<Rightarrow> u64 \<Rightarrow> view \<Rightarrow> instr \<Rightarrow> nat \<Rightarrow> (weak_memory \<times> view \<times> scc_pc) option" where
  "weak_exec mem e V (I_Load md l k) t =
     (case mem l t of
        Some (x, mv) \<Rightarrow> if V l \<le> t then Some (mem, if md = O_Acquire then learn V mv l t else V(l := t), k x) else None
      | None \<Rightarrow> None)"
| "weak_exec mem e V (I_Store md l x pc) t =
     (if V l < t \<and> mem l t = None
      then (let V' = V(l := t) in Some (add_message mem l t x (if md = O_Release then V' else only_at l t), V', pc))
      else None)"
| "weak_exec mem e V (I_Add l pc) t =
     (case mem l t of
        Some (x, mv) \<Rightarrow>
          if V l \<le> t \<and> mem l (t + 1) = None
          then Some (add_message mem l (t + 1) (x + 1) (learn mv mv l (t + 1)), V(l := t + 1), pc) else None
      | None \<Rightarrow> None)"
| "weak_exec mem e V (I_Cas l old new ok bad) t =
     (case mem l t of
        Some (x, mv) \<Rightarrow>
          if V l \<le> t
          then if x = old
            then if mem l (t + 1) = None
              then (let V' = learn V mv l (t + 1) in Some (add_message mem l (t + 1) new V', V', ok)) else None
            else Some (mem, learn V mv l t, bad)
          else None
      | None \<Rightarrow> None)"
| "weak_exec mem e V (I_Epoch k) t = Some (mem, V, k e)"
| "weak_exec mem e V (I_None pc) t = Some (mem, V, pc)"

record weak_world =
  k_mem :: weak_memory
  k_epoch :: u64
  k_view :: "nat \<Rightarrow> view"
  k_pc :: "nat \<Rightarrow> scc_pc"

definition weak_start :: weak_world where
  "weak_start = \<lparr>k_mem = (\<lambda>l. [0 \<mapsto> (get scc_new l, \<lambda>_. 0)]), k_epoch = 1, k_view = (\<lambda>_ _. 0), k_pc = (\<lambda>_. Idle)\<rparr>"

text \<open>As in \<open>Scc_Steps\<close>, a thread may call, run an access, return, or record a latency, and the epoch advances.\<close>

definition weak_run :: "ordering \<Rightarrow> nat \<Rightarrow> nat \<Rightarrow> weak_world \<Rightarrow> weak_world option" where
  "weak_run po i t w =
     map_option (\<lambda>(mem', V', pc'). w\<lparr>k_mem := mem', k_view := (k_view w)(i := V'), k_pc := (k_pc w)(i := pc')\<rparr>)
       (weak_exec (k_mem w) (k_epoch w) (k_view w i) (scc_program po (k_pc w i)) t)"

inductive weak_reach :: "ordering \<Rightarrow> weak_world \<Rightarrow> bool" for po where
  start: "weak_reach po weak_start"
| call: "weak_reach po w \<Longrightarrow> k_pc w i = Idle \<Longrightarrow> weak_reach po (w\<lparr>k_pc := (k_pc w)(i := Enter now)\<rparr>)"
| run: "weak_reach po w \<Longrightarrow> weak_run po i t w = Some w' \<Longrightarrow> weak_reach po w'"
| ret: "weak_reach po w \<Longrightarrow> k_pc w i = Done ts \<Longrightarrow> weak_reach po (w\<lparr>k_pc := (k_pc w)(i := Idle)\<rparr>)"
| tick: "weak_reach po w \<Longrightarrow> k_epoch w \<noteq> u64_max \<Longrightarrow> weak_reach po (w\<lparr>k_epoch := k_epoch w + 1\<rparr>)"
| latency: "weak_reach po w \<Longrightarrow> k_view w i L_P99 < t \<Longrightarrow> k_mem w L_P99 t = None \<Longrightarrow>
    weak_reach po (w\<lparr>k_mem := add_message (k_mem w) L_P99 t v (only_at L_P99 t), k_view := (k_view w)(i := (k_view w i)(L_P99 := t))\<rparr>)"

section \<open>The invariant\<close>

fun weak_pc_inv :: "u64 \<Rightarrow> view \<Rightarrow> scc_pc \<Rightarrow> bool" where
  "weak_pc_inv e V (Load_Ts now g) \<longleftrightarrow> even g \<and> (g \<noteq> 0 \<longrightarrow> 0 < V L_Ts)"
| "weak_pc_inv e V (Load_Open now g ts) \<longleftrightarrow> even g \<and> (g \<noteq> 0 \<longrightarrow> valid_ts e ts)"
| "weak_pc_inv e V (Load_W now g ts opened_at) \<longleftrightarrow> even g \<and> (g \<noteq> 0 \<longrightarrow> valid_ts e ts)"
| "weak_pc_inv e V (Count_Hit ts) \<longleftrightarrow> valid_ts e ts"
| "weak_pc_inv e V (Load_Epoch now g) \<longleftrightarrow> even g"
| "weak_pc_inv e V (Claim now g n) \<longleftrightarrow> even g \<and> valid_ts e n"
| "weak_pc_inv e V (Load_Total now g n) \<longleftrightarrow> even g \<and> valid_ts e n"
| "weak_pc_inv e V (Load_Hits now g n t) \<longleftrightarrow> even g \<and> valid_ts e n"
| "weak_pc_inv e V (Load_P99 now g n h) \<longleftrightarrow> even g \<and> valid_ts e n"
| "weak_pc_inv e V (Store_W now g n w) \<longleftrightarrow> even g \<and> valid_ts e n"
| "weak_pc_inv e V (Store_Ts now g n) \<longleftrightarrow> even g \<and> valid_ts e n"
| "weak_pc_inv e V (Store_Open now g n) \<longleftrightarrow> even g \<and> valid_ts e n \<and> 0 < V L_Ts"
| "weak_pc_inv e V (Publish g n) \<longleftrightarrow> even g \<and> valid_ts e n \<and> 0 < V L_Ts"
| "weak_pc_inv e V (Done ts) \<longleftrightarrow> valid_ts e ts"
| "weak_pc_inv e V _ \<longleftrightarrow> True"

text \<open>The messages of the data: all but the first hold a timestamp of the epoch, and who has acquired a published
  generation knows of one of them.\<close>

definition data_inv :: "weak_memory \<Rightarrow> u64 \<Rightarrow> bool" where
  "data_inv mem e \<longleftrightarrow> e \<noteq> 0 \<and> (\<forall>t x mv. mem L_Ts t = Some (x, mv) \<longrightarrow> t \<noteq> 0 \<longrightarrow> valid_ts e x) \<and>
     (\<forall>t x mv. mem L_Gen t = Some (x, mv) \<longrightarrow> even x \<longrightarrow> x \<noteq> 0 \<longrightarrow> 0 < mv L_Ts)"

text \<open>The messages of the generation: \<open>tp\<close> is the last; each other even one has been claimed. The last is odd when, and only when,
  a thread has claimed, and that thread stored it.\<close>

definition gen_inv :: "weak_memory \<Rightarrow> (nat \<Rightarrow> view) \<Rightarrow> (nat \<Rightarrow> scc_pc) \<Rightarrow> bool" where
  "gen_inv mem views pcs \<longleftrightarrow> (\<exists>tp g mv. mem L_Gen tp = Some (g, mv) \<and> (\<forall>t. tp < t \<longrightarrow> mem L_Gen t = None) \<and>
     (\<forall>t x mv. mem L_Gen t = Some (x, mv) \<longrightarrow> t \<noteq> tp \<longrightarrow> even x \<longrightarrow> mem L_Gen (t + 1) \<noteq> None) \<and>
     (\<forall>i. claimed (pcs i) \<longrightarrow> odd g \<and> views i L_Gen = tp) \<and>
     (\<forall>i j. claimed (pcs i) \<longrightarrow> claimed (pcs j) \<longrightarrow> i = j))"

definition weak_inv :: "weak_world \<Rightarrow> bool" where
  "weak_inv w \<longleftrightarrow> data_inv (k_mem w) (k_epoch w) \<and> gen_inv (k_mem w) (k_view w) (k_pc w) \<and>
     (\<forall>i. weak_pc_inv (k_epoch w) (k_view w i) (k_pc w i))"

lemma weak_inv_start: "weak_inv weak_start"
  by (auto simp: weak_inv_def weak_start_def data_inv_def gen_inv_def scc_new_def intro: exI [of _ 0])

text \<open>An access, as far as the invariant sees it.\<close>

lemma own_weak_access:
  assumes "data_inv mem e" "weak_pc_inv e V pc" "weak_exec mem e V (scc_program O_Release pc) t = Some (mem', V', pc')"
  shows "data_inv mem' e" "weak_pc_inv e V' pc'"
  using assms
  by (cases pc; fastforce simp: data_inv_def learn_def only_at_def add_message_def Let_def odd_iff_mod valid_ts_def split: if_splits option.splits)+

lemma gen_access:
  assumes "weak_exec mem e V (scc_program po pc) t = Some (mem', V', pc')"
  obtains (other) "mem' L_Gen = mem L_Gen" "claimed pc' \<longleftrightarrow> claimed pc" "claimed pc \<Longrightarrow> V' L_Gen = V L_Gen"
  | (claims) now g n mv where "pc = Claim now g n" "mem L_Gen t = Some (g, mv)" "mem L_Gen (t + 1) = None"
      "mem' L_Gen = (mem L_Gen)(t + 1 \<mapsto> (g + 1, V'))" "V' L_Gen = t + 1"
  | (publishes) g n mv where "pc = Publish g n" "V L_Gen < t" "mem L_Gen t = None"
      "mem' L_Gen = (mem L_Gen)(t \<mapsto> (g + 2, mv))" "\<not> claimed pc'"
proof -
  consider (claim) now g n where "pc = Claim now g n" | (publish) g n where "pc = Publish g n"
    | (rest) "\<forall>now g n. pc \<noteq> Claim now g n" "\<forall>g n. pc \<noteq> Publish g n" by blast
  then show thesis
  proof cases
    case claim
    then obtain x mv where x: "mem L_Gen t = Some (x, mv)" using assms by (auto split: option.splits)
    show thesis
    proof (cases "x = g")
      case True
      with claim x assms show thesis
        by (intro claims [of now g n mv]) (auto simp: add_message_def learn_def Let_def split: if_splits)
    next
      case False
      with claim x assms show thesis by (intro other) (auto split: if_splits)
    qed
  next
    case publish
    with assms show thesis
      by (intro publishes [of g n "if po = O_Release then V(L_Gen := t) else only_at L_Gen t"])
        (auto simp: add_message_def Let_def split: if_splits)
  next
    case rest
    then have "mem' L_Gen = mem L_Gen \<and> (claimed pc' \<longleftrightarrow> claimed pc) \<and> (claimed pc \<longrightarrow> V' L_Gen = V L_Gen)"
      using assms by (cases pc) (auto simp: add_message_def learn_def Let_def split: if_splits option.splits)
    then show thesis by (intro other) auto
  qed
qed

lemma gen_inv_other:
  assumes "gen_inv mem views pcs" "mem' L_Gen = mem L_Gen" "claimed pc' \<longleftrightarrow> claimed (pcs i)" "claimed (pcs i) \<Longrightarrow> V' L_Gen = views i L_Gen"
  shows "gen_inv mem' (views(i := V')) (pcs(i := pc'))"
proof -
  have c: "claimed ((pcs(i := pc')) j) \<longleftrightarrow> claimed (pcs j)" for j using assms(3) by simp
  have v: "claimed (pcs j) \<Longrightarrow> (views(i := V')) j L_Gen = views j L_Gen" for j
    using assms(4) by (cases "j = i") simp_all
  show ?thesis
    using assms(1) unfolding gen_inv_def c assms(2) by (elim exE conjE) (intro exI conjI, assumption+, auto simp: v assms(4))
qed

lemma gen_inv_claim:
  assumes inv: "gen_inv mem views pcs" and "mem L_Gen t = Some (g, mv)" "even g" "mem L_Gen (t + 1) = None"
    and mem': "mem' L_Gen = (mem L_Gen)(t + 1 \<mapsto> (g + 1, V'))" and V': "V' L_Gen = t + 1"
  shows "gen_inv mem' (views(i := V')) (pcs(i := pc'))"
proof -
  obtain tp h mv' where tp: "mem L_Gen tp = Some (h, mv')" "\<forall>u. tp < u \<longrightarrow> mem L_Gen u = None"
    "\<forall>u x m. mem L_Gen u = Some (x, m) \<longrightarrow> u \<noteq> tp \<longrightarrow> even x \<longrightarrow> mem L_Gen (u + 1) \<noteq> None"
    "\<forall>i. claimed (pcs i) \<longrightarrow> odd h \<and> views i L_Gen = tp"
    using inv unfolding gen_inv_def by blast
  have t: "t = tp" using tp(3) assms(2-4) by metis
  then have "h = g" using tp(1) assms(2) by simp
  then have none: "\<not> claimed (pcs j)" for j using tp(4) assms(3) by blast
  show ?thesis
    unfolding gen_inv_def mem'
  proof (intro exI conjI)
    show "((mem L_Gen)(t + 1 \<mapsto> (g + 1, V'))) (t + 1) = Some (g + 1, V')" by simp
    show "\<forall>u. t + 1 < u \<longrightarrow> ((mem L_Gen)(t + 1 \<mapsto> (g + 1, V'))) u = None" using tp(2) t by auto
    show "\<forall>u x m. ((mem L_Gen)(t + 1 \<mapsto> (g + 1, V'))) u = Some (x, m) \<longrightarrow> u \<noteq> t + 1 \<longrightarrow> even x \<longrightarrow>
        ((mem L_Gen)(t + 1 \<mapsto> (g + 1, V'))) (u + 1) \<noteq> None"
      using tp(3) t by auto
    show "\<forall>j. claimed ((pcs(i := pc')) j) \<longrightarrow> odd (g + 1) \<and> (views(i := V')) j L_Gen = t + 1"
      using none assms(3) V' by auto
    show "\<forall>j k. claimed ((pcs(i := pc')) j) \<longrightarrow> claimed ((pcs(i := pc')) k) \<longrightarrow> j = k"
      using none by auto
  qed
qed

lemma gen_inv_publish:
  assumes inv: "gen_inv mem views pcs" and "claimed (pcs i)" "views i L_Gen < t" "\<not> claimed pc'"
    and mem': "mem' L_Gen = (mem L_Gen)(t \<mapsto> y)"
  shows "gen_inv mem' (views(i := V')) (pcs(i := pc'))"
proof -
  obtain tp h mv where tp: "mem L_Gen tp = Some (h, mv)" "\<forall>u. tp < u \<longrightarrow> mem L_Gen u = None"
    "\<forall>u x m. mem L_Gen u = Some (x, m) \<longrightarrow> u \<noteq> tp \<longrightarrow> even x \<longrightarrow> mem L_Gen (u + 1) \<noteq> None"
    "\<forall>i. claimed (pcs i) \<longrightarrow> odd h \<and> views i L_Gen = tp" "\<forall>i j. claimed (pcs i) \<longrightarrow> claimed (pcs j) \<longrightarrow> i = j"
    using inv unfolding gen_inv_def by blast
  have t: "tp < t" "odd h" using tp(4) assms(2,3) by auto
  have none: "\<not> claimed ((pcs(i := pc')) j)" for j using tp(5) assms(2,4) by auto
  obtain x m where y: "y = (x, m)" by (cases y)
  show ?thesis
    unfolding gen_inv_def mem'
  proof (intro exI conjI)
    show "((mem L_Gen)(t \<mapsto> y)) t = Some (x, m)" by (simp add: y)
    show "\<forall>u. t < u \<longrightarrow> ((mem L_Gen)(t \<mapsto> y)) u = None" using tp(2) t by auto
    show "\<forall>u x m. ((mem L_Gen)(t \<mapsto> y)) u = Some (x, m) \<longrightarrow> u \<noteq> t \<longrightarrow> even x \<longrightarrow> ((mem L_Gen)(t \<mapsto> y)) (u + 1) \<noteq> None"
    proof (intro allI impI)
      fix u x m
      assume u: "((mem L_Gen)(t \<mapsto> y)) u = Some (x, m)" "u \<noteq> t" "even x"
      then have "mem L_Gen u = Some (x, m)" by simp
      moreover have "u \<noteq> tp" using calculation tp(1) t(2) u(3) by auto
      ultimately show "((mem L_Gen)(t \<mapsto> y)) (u + 1) \<noteq> None" using tp(3) u(3) by auto
    qed
  qed (use none in blast)+
qed

lemma weak_inv_run:
  assumes "weak_inv w" "weak_run O_Release i t w = Some w'"
  shows "weak_inv w'"
proof -
  obtain mem' V' pc' where x: "weak_exec (k_mem w) (k_epoch w) (k_view w i) (scc_program O_Release (k_pc w i)) t = Some (mem', V', pc')"
    "w' = w\<lparr>k_mem := mem', k_view := (k_view w)(i := V'), k_pc := (k_pc w)(i := pc')\<rparr>"
    using assms(2) by (auto simp: weak_run_def)
  have inv: "data_inv (k_mem w) (k_epoch w)" "gen_inv (k_mem w) (k_view w) (k_pc w)" "\<And>j. weak_pc_inv (k_epoch w) (k_view w j) (k_pc w j)"
    using assms(1) by (simp_all add: weak_inv_def)
  note own = own_weak_access [OF inv(1,3) x(1)]
  from x(1) have "gen_inv mem' ((k_view w)(i := V')) ((k_pc w)(i := pc'))"
  proof (cases rule: gen_access)
    case other
    then show ?thesis by (intro gen_inv_other [OF inv(2)]) auto
  next
    case (claims now g n mv)
    then have "even g" using inv(3) [of i] by simp
    with claims show ?thesis by (intro gen_inv_claim [OF inv(2)]) auto
  next
    case (publishes g n mv)
    then show ?thesis by (intro gen_inv_publish [OF inv(2), of i t pc' mem' "(g + 2, mv)" V']) auto
  qed
  with own inv(3) show ?thesis by (auto simp: weak_inv_def x(2))
qed

lemma epoch_up: "e \<noteq> u64_max \<Longrightarrow> (e :: u64) \<le> e + 1 \<and> e + 1 \<noteq> 0"
  using unat_less_u64_max [of e] word_less_nat_alt [of e u64_max]
  by (auto simp: word_le_nat_alt unat_word_ariths unsigned_minus_1_eq_mask mask_eq_exp_minus_1 unat_eq_zero [symmetric] simp del: unat_eq_zero)

lemma weak_reach_inv: "weak_reach O_Release w \<Longrightarrow> weak_inv w"
proof (induction rule: weak_reach.induct)
  case (call w i now)
  have "gen_inv (k_mem w) ((k_view w)(i := k_view w i)) ((k_pc w)(i := Enter now))"
    by (rule gen_inv_other) (use call in \<open>simp_all add: weak_inv_def\<close>)
  with call show ?case by (simp add: weak_inv_def)
next
  case (ret w i ts)
  have "gen_inv (k_mem w) ((k_view w)(i := k_view w i)) ((k_pc w)(i := Idle))"
    by (rule gen_inv_other) (use ret in \<open>simp_all add: weak_inv_def\<close>)
  with ret show ?case by (simp add: weak_inv_def)
next
  case (tick w)
  note e = epoch_up [OF tick(2)]
  have v: "valid_ts (k_epoch w) ts \<Longrightarrow> valid_ts (k_epoch w + 1) ts" for ts using e by (auto simp: valid_ts_def)
  then have "weak_pc_inv (k_epoch w) V pc \<Longrightarrow> weak_pc_inv (k_epoch w + 1) V pc" for V pc by (cases pc) auto
  with tick e v show ?case by (auto simp: weak_inv_def data_inv_def)
next
  case (latency w i t v)
  let ?mem = "add_message (k_mem w) L_P99 t v (only_at L_P99 t)" and ?V = "(k_view w i)(L_P99 := t)"
  have "gen_inv ?mem ((k_view w)(i := ?V)) ((k_pc w)(i := k_pc w i))"
    by (rule gen_inv_other) (use latency in \<open>simp_all add: weak_inv_def add_message_def\<close>)
  moreover have "weak_pc_inv (k_epoch w) ?V pc = weak_pc_inv (k_epoch w) (k_view w i) pc" for pc by (cases pc) simp_all
  ultimately show ?case using latency by (auto simp: weak_inv_def data_inv_def add_message_def)
qed (auto intro: weak_inv_start weak_inv_run)

section \<open>The consistent executions are among them\<close>

text \<open>The newest message of each location is the value of the consistent memory, and no view is ahead of it.\<close>

definition newest :: "(location \<Rightarrow> nat) \<Rightarrow> weak_memory \<Rightarrow> scc \<Rightarrow> bool" where
  "newest tp mem s \<longleftrightarrow> (\<forall>l. \<exists>mv. mem l (tp l) = Some (get s l, mv)) \<and> (\<forall>l t. tp l < t \<longrightarrow> mem l t = None) \<and>
     (\<forall>l t x mv. mem l t = Some (x, mv) \<longrightarrow> (\<forall>l'. mv l' \<le> tp l'))"

definition follows :: "scc_world \<Rightarrow> weak_world \<Rightarrow> bool" where
  "follows v w \<longleftrightarrow> k_epoch w = w_epoch v \<and> k_pc w = w_pc v \<and>
     (\<exists>tp. newest tp (k_mem w) (w_scc v) \<and> (\<forall>i l. k_view w i l \<le> tp l))"

lemma newest_load:
  assumes "newest tp mem s" "\<forall>l. V l \<le> tp l"
  obtains mv where "mem l (tp l) = Some (get s l, mv)" "V l \<le> tp l" "\<forall>l'. learn V mv l (tp l) l' \<le> tp l'" "\<forall>l'. (V(l := tp l)) l' \<le> tp l'"
proof -
  obtain mv where mv: "mem l (tp l) = Some (get s l, mv)" using assms(1) unfolding newest_def by blast
  then have "\<forall>l'. mv l' \<le> tp l'" using assms(1) unfolding newest_def by blast
  with mv assms(2) show thesis by (intro that [of mv]) (auto simp: learn_def)
qed

lemma newest_add:
  assumes "newest tp mem s" "\<forall>l'. mv l' \<le> (tp(l := tp l + 1)) l'"
  shows "newest (tp(l := tp l + 1)) (add_message mem l (tp l + 1) x mv) (put s l x)"
proof -
  have "mem l' t = Some (y, mv') \<Longrightarrow> mv' k \<le> (tp(l := tp l + 1)) k" for l' t y mv' k
    using assms(1) by (fastforce simp: newest_def intro: le_SucI)
  then show ?thesis
    using assms by (auto simp: newest_def add_message_def get_put split: if_splits)
qed

lemma top_up: "\<forall>l'. V l' \<le> tp l' \<Longrightarrow> (V :: view) l' \<le> (tp(l := tp l + 1)) l'"
  by (simp add: le_SucI)

text \<open>Every access of the consistent machine can be made at the newest message.\<close>

lemma weak_access_newest:
  assumes n: "newest tp mem s" "\<forall>l. V l \<le> tp l" and st: "sc_exec s e i = (s', pc')"
  shows "\<exists>t mem' V' tp'. weak_exec mem e V i t = Some (mem', V', pc') \<and> newest tp' mem' s' \<and> (\<forall>l. V' l \<le> tp' l) \<and> (\<forall>l. tp l \<le> tp' l)"
proof (cases i)
  case (I_Load md l k)
  obtain mv where "mem l (tp l) = Some (get s l, mv)" "V l \<le> tp l" "\<forall>l'. learn V mv l (tp l) l' \<le> tp l'" "\<forall>l'. (V(l := tp l)) l' \<le> tp l'"
    by (rule newest_load [OF n])
  with I_Load st n(1) show ?thesis
    by (intro exI [of _ "tp l"] exI [of _ mem] exI [of _ "if md = O_Acquire then learn V mv l (tp l) else V(l := tp l)"] exI [of _ tp]) auto
next
  case (I_Store md l x pc)
  let ?tp = "tp(l := tp l + 1)" and ?V = "V(l := tp l + 1)"
  let ?mv = "if md = O_Release then ?V else only_at l (tp l + 1)"
  have "mem l (tp l + 1) = None" "V l < tp l + 1" using n by (auto simp: newest_def le_imp_less_Suc)
  moreover have "\<forall>l'. ?mv l' \<le> ?tp l'" "\<forall>l'. ?V l' \<le> ?tp l'" using n(2) by (auto simp: only_at_def)
  from newest_add [OF n(1) this(1)] this(2) have
    "newest ?tp (add_message mem l (tp l + 1) x ?mv) (put s l x)" "\<forall>l'. ?V l' \<le> ?tp l'" by blast+
  ultimately show ?thesis
    using I_Store st by (intro exI [of _ "tp l + 1"] exI [of _ "add_message mem l (tp l + 1) x ?mv"] exI [of _ ?V] exI [of _ ?tp]) (auto simp: Let_def)
next
  case (I_Add l pc)
  let ?tp = "tp(l := tp l + 1)"
  obtain mv where mv: "mem l (tp l) = Some (get s l, mv)" "V l \<le> tp l" using newest_load [OF n] by blast
  have m: "\<forall>l'. mv l' \<le> tp l'" using n(1) mv(1) unfolding newest_def by blast
  have "mem l (tp l + 1) = None" using n by (auto simp: newest_def)
  moreover have "newest ?tp (add_message mem l (tp l + 1) (get s l + 1) (learn mv mv l (tp l + 1))) (put s l (get s l + 1))"
    by (rule newest_add [OF n(1)]) (use m in \<open>auto simp: learn_def\<close>)
  moreover have "\<forall>l'. (V(l := tp l + 1)) l' \<le> ?tp l'" using n(2) by auto
  ultimately show ?thesis
    using I_Add st mv by (intro exI [of _ "tp l"] exI [of _ "add_message mem l (tp l + 1) (get s l + 1) (learn mv mv l (tp l + 1))"]
      exI [of _ "V(l := tp l + 1)"] exI [of _ ?tp]) auto
next
  case (I_Cas l old new ok bad)
  obtain mv where mv: "mem l (tp l) = Some (get s l, mv)" "V l \<le> tp l" "\<forall>l'. learn V mv l (tp l) l' \<le> tp l'"
    by (rule newest_load [OF n])
  show ?thesis
  proof (cases "get s l = old")
    case False
    with I_Cas st mv n(1) show ?thesis
      by (intro exI [of _ "tp l"] exI [of _ mem] exI [of _ "learn V mv l (tp l)"] exI [of _ tp]) auto
  next
    case True
    let ?tp = "tp(l := tp l + 1)" and ?V = "learn V mv l (tp l + 1)"
    have "\<forall>l'. mv l' \<le> tp l'" using n(1) mv(1) unfolding newest_def by blast
    then have V: "\<forall>l'. ?V l' \<le> ?tp l'" using n(2) by (auto simp: learn_def)
    have "mem l (tp l + 1) = None" using n by (auto simp: newest_def)
    with True I_Cas st mv newest_add [OF n(1) V] V show ?thesis
      by (intro exI [of _ "tp l"] exI [of _ "add_message mem l (tp l + 1) new ?V"] exI [of _ ?V] exI [of _ ?tp]) (auto simp: Let_def)
  qed
qed (use n st in \<open>auto intro: exI [of _ tp]\<close>)

lemma follows_run:
  assumes "follows v w" "scc_thread_step (w_scc v) (w_epoch v) (w_pc v i) = (s', pc')"
  shows "\<exists>t w'. weak_run po i t w = Some w' \<and> follows (v\<lparr>w_scc := s', w_pc := (w_pc v)(i := pc')\<rparr>) w'"
proof -
  obtain tp where f: "k_epoch w = w_epoch v" "k_pc w = w_pc v" "newest tp (k_mem w) (w_scc v)" "\<forall>i l. k_view w i l \<le> tp l"
    using assms(1) by (auto simp: follows_def)
  have "sc_exec (w_scc v) (w_epoch v) (scc_program po (w_pc v i)) = (s', pc')"
    using assms(2) by (simp add: sc_exec_program)
  from weak_access_newest [OF f(3) _ this, of "k_view w i"] f(4) obtain t mem' V' tp' where
    x: "weak_exec (k_mem w) (w_epoch v) (k_view w i) (scc_program po (w_pc v i)) t = Some (mem', V', pc')"
    "newest tp' mem' s'" "\<forall>l. V' l \<le> tp' l" "\<forall>l. tp l \<le> tp' l" by blast
  let ?w = "w\<lparr>k_mem := mem', k_view := (k_view w)(i := V'), k_pc := (k_pc w)(i := pc')\<rparr>"
  have "k_view w j l \<le> tp' l" for j l using f(4) x(4) by (meson order.trans)
  with x(2,3) f have "follows (v\<lparr>w_scc := s', w_pc := (w_pc v)(i := pc')\<rparr>) ?w"
    by (auto simp: follows_def)
  with x(1) f show ?thesis by (intro exI [of _ t] exI [of _ ?w]) (simp add: weak_run_def)
qed

lemma follows_start: "follows scc_world_new weak_start"
  by (auto simp: follows_def newest_def scc_world_new_def weak_start_def intro!: exI [of _ "\<lambda>_. 0"])

lemma weak_follows: "scc_reach v \<Longrightarrow> \<exists>w. weak_reach po w \<and> follows v w"
proof (induction rule: scc_reach.induct)
  case start
  show ?case using weak_reach.start follows_start by blast
next
  case (step v v')
  obtain w where w: "weak_reach po w" "follows v w" using step.IH by blast
  show ?case
    using step.hyps(2)
  proof (cases rule: scc_world_step.cases)
    case (call i now)
    then have "follows v' (w\<lparr>k_pc := (k_pc w)(i := Enter now)\<rparr>)" "k_pc w i = Idle" using w(2) by (auto simp: follows_def)
    then show ?thesis using weak_reach.call [OF w(1)] by blast
  next
    case (run i s' pc')
    obtain t w' where "weak_run po i t w = Some w'" "follows v' w'"
      using follows_run [OF w(2) run(2)] run(1) by blast
    then show ?thesis using weak_reach.run [OF w(1)] by blast
  next
    case (ret i ts)
    then have "follows v' (w\<lparr>k_pc := (k_pc w)(i := Idle)\<rparr>)" "k_pc w i = Done ts" using w(2) by (auto simp: follows_def)
    then show ?thesis using weak_reach.ret [OF w(1)] by blast
  next
    case tick
    then have "follows v' (w\<lparr>k_epoch := k_epoch w + 1\<rparr>)" "k_epoch w \<noteq> u64_max" using w(2) by (auto simp: follows_def)
    then show ?thesis using weak_reach.tick [OF w(1)] by blast
  next
    case (latency x)
    obtain tp where f: "k_epoch w = w_epoch v" "k_pc w = w_pc v" "newest tp (k_mem w) (w_scc v)" "\<forall>i l. k_view w i l \<le> tp l"
      using w(2) by (auto simp: follows_def)
    let ?t = "tp L_P99 + 1"
    let ?w = "w\<lparr>k_mem := add_message (k_mem w) L_P99 ?t x (only_at L_P99 ?t), k_view := (k_view w)(0 := (k_view w 0)(L_P99 := ?t))\<rparr>"
    have "k_mem w L_P99 ?t = None" "k_view w 0 L_P99 < ?t" using f(3,4) by (auto simp: newest_def le_imp_less_Suc)
    then have "weak_reach po ?w" by (intro weak_reach.latency [OF w(1)])
    moreover have "newest (tp(L_P99 := ?t)) (k_mem ?w) (w_scc v')"
      using newest_add [OF f(3), of "only_at L_P99 ?t" L_P99 x] by (simp add: only_at_def latency)
    moreover have "k_view ?w i l \<le> (tp(L_P99 := ?t)) l" for i l using f(4) by (auto intro: le_SucI)
    ultimately have "follows v' ?w"
      unfolding follows_def using f(1,2) latency by (intro conjI exI [of _ "tp(L_P99 := ?t)"] allI) simp_all
    with \<open>weak_reach po ?w\<close> show ?thesis by blast
  qed
qed

text \<open>Accesses chosen by thread and position.\<close>

fun weak_runs :: "ordering \<Rightarrow> (nat \<times> nat) list \<Rightarrow> weak_world \<Rightarrow> weak_world option" where
  "weak_runs po [] w = Some w"
| "weak_runs po ((i, t) # xs) w = (case weak_run po i t w of None \<Rightarrow> None | Some w' \<Rightarrow> weak_runs po xs w')"

lemma weak_reach_runs: "weak_reach po w \<Longrightarrow> weak_runs po xs w = Some w' \<Longrightarrow> weak_reach po w'"
  by (induction po xs w rule: weak_runs.induct) (auto intro: weak_reach.run split: option.splits)

definition two_calls :: weak_world where
  "two_calls = weak_start\<lparr>k_pc := (\<lambda>_. Idle)(0 := Enter 0, 1 := Enter 0)\<rparr>"

lemma two_calls_reach: "weak_reach po two_calls"
proof -
  have "k_pc weak_start 0 = Idle" by (simp add: weak_start_def)
  note one = weak_reach.call [OF weak_reach.start this, of po 0]
  have "k_pc (weak_start\<lparr>k_pc := (k_pc weak_start)(0 := Enter 0)\<rparr>) 1 = Idle" by (simp add: weak_start_def)
  from weak_reach.call [OF one this, of 0] show ?thesis by (simp add: two_calls_def weak_start_def)
qed

section \<open>Properties\<close>

text \<open>The weak executions include the consistent ones, whatever the ordering of the publishing store: every reachable state
  of \<open>Scc_Steps\<close> is matched by one of the weak machine with the same control points, the same epoch and, as newest
  messages, the same values.\<close>

theorem weak_covers_consistent:
  assumes "scc_reach v"
  shows "\<exists>w. weak_reach po w \<and> follows v w"
  using assms by (rule weak_follows)

theorem weak_covers_consistent_witness: "\<exists>w. weak_reach O_Release w \<and> follows first_done w"
  by (rule weak_covers_consistent [OF first_done_reach])

text \<open>C13: One writer at a time, on weak memory: with the orderings of the code, however stale the generations that threads load,
  no two threads are between claiming a window and publishing it.\<close>

theorem weak_single_writer:
  assumes "weak_reach O_Release w" "claimed (k_pc w i)" "claimed (k_pc w j)"
  shows "i = j"
proof -
  have "gen_inv (k_mem w) (k_view w) (k_pc w)" using weak_reach_inv [OF assms(1)] by (simp add: weak_inv_def)
  then have "\<forall>i j. claimed (k_pc w i) \<longrightarrow> claimed (k_pc w j) \<longrightarrow> i = j" by (auto simp: gen_inv_def)
  with assms(2,3) show ?thesis by blast
qed

theorem weak_single_writer_witness:
  "\<exists>w. weak_reach O_Release w \<and> claimed (k_pc w 0) \<and> \<not> claimed (k_pc w 1)"
proof -
  obtain w where r: "weak_runs O_Release [(0, 0), (0, 0), (0, 0), (0, 0), (0, 0), (0, 0), (0, 0)] two_calls = Some w"
    and c: "claimed (k_pc w 0)"
    by (simp add: two_calls_def weak_start_def weak_run_def add_message_def learn_def Let_def scc_new_def)
  have w: "weak_reach O_Release w" by (rule weak_reach_runs [OF two_calls_reach r])
  from weak_single_writer [OF w c, of 1] w c show ?thesis by auto
qed

text \<open>C12: Publish implies visible: with the orderings of the code a call returns a timestamp other than zero that the epoch has
  reached, even when what it loads is stale.\<close>

theorem weak_returns_past_epoch:
  assumes "weak_reach O_Release w" "k_pc w i = Done ts"
  shows "ts \<noteq> 0 \<and> ts \<le> k_epoch w"
proof -
  have "weak_pc_inv (k_epoch w) (k_view w i) (k_pc w i)" using weak_reach_inv [OF assms(1)] by (simp add: weak_inv_def)
  with assms(2) show ?thesis by (simp add: valid_ts_def)
qed

theorem weak_returns_past_epoch_witness: "\<exists>w. weak_reach O_Release w \<and> k_pc w 0 = Done 1 \<and> (1 :: u64) \<le> k_epoch w"
proof -
  obtain w where w: "weak_reach O_Release w" "follows first_done w" using weak_follows [OF first_done_reach] by blast
  then have "k_pc w 0 = Done 1" by (simp add: follows_def first_done_def)
  with weak_returns_past_epoch [OF w(1) this] w(1) show ?thesis by blast
qed

lemma relaxed_run:
  "\<exists>w. weak_runs O_Relaxed
     [(0, 0), (0, 0), (0, 0), (0, 0), (0, 0), (0, 0), (0, 0), (0, 1), (0, 0), (0, 0), (0, 1), (0, 1), (0, 1), (0, 2),
      (1, 1), (1, 2), (1, 0), (1, 0), (1, 0), (1, 0)] two_calls = Some w \<and> k_pc w 1 = Done 0"
  by (simp add: two_calls_def weak_start_def weak_run_def add_message_def learn_def only_at_def Let_def scc_new_def SCC_MIN_WINDOW_NS_def)

text \<open>The publishing store has to release. Were it relaxed, a call could load the new generation and then the data as it was
  before any window was opened, and return zero, the value that stands for no snapshot at all.\<close>

theorem relaxed_publication_returns_zero: "\<exists>w. weak_reach O_Relaxed w \<and> k_pc w 1 = Done 0"
  using relaxed_run weak_reach_runs [OF two_calls_reach] by blast

end
