(* ===== verification/Float64_Sqrt.thy ===== *)
theory Float64_Sqrt
  imports Float64
begin

text \<open>
  \<open>f64::sqrt\<close>, which IEEE 754 requires to be correctly rounded. The significand of the root is found bit
  by bit from the top, and then rounded: a root can never lie exactly between two neighbours, since the
  square of such a point has more than 53 significant bits.
\<close>

section \<open>Integer roots, bit by bit\<close>

fun sqrt_bits :: "nat \<Rightarrow> rat \<Rightarrow> int \<Rightarrow> int" where
  "sqrt_bits 0 y s = s"
| "sqrt_bits (Suc k) y s = (let s' = s + 2 ^ k in sqrt_bits k y (if (of_int s')\<^sup>2 \<le> y then s' else s))"

lemma sqrt_bits_Suc:
  "sqrt_bits (Suc k) y s =
     (if (of_int (s + 2 ^ k))\<^sup>2 \<le> y then sqrt_bits k y (s + 2 ^ k) else sqrt_bits k y s)"
  by (simp add: Let_def)

lemma sqrt_bits_root:
  assumes "(of_int s)\<^sup>2 \<le> y" "y < (of_int (s + 2 ^ k))\<^sup>2"
  shows "(of_int (sqrt_bits k y s))\<^sup>2 \<le> y \<and> y < (of_int (sqrt_bits k y s + 1))\<^sup>2"
  using assms
proof (induction k arbitrary: s)
  case (Suc k)
  have s: "s + 2 ^ Suc k = s + 2 ^ k + 2 ^ k" by simp
  show ?case
  proof (cases "(of_int (s + 2 ^ k))\<^sup>2 \<le> y")
    case True
    then show ?thesis using Suc.IH [of "s + 2 ^ k"] Suc.prems(2)
      unfolding s sqrt_bits_Suc by (simp only: if_True)
  next
    case False
    then have "y < (of_int (s + 2 ^ k))\<^sup>2" by (simp only: not_le)
    then show ?thesis using Suc.IH [OF Suc.prems(1)]
      unfolding sqrt_bits_Suc if_not_P [OF False] by blast
  qed
qed simp

lemma sqrt_bits_ge: "s \<le> sqrt_bits k y s"
proof (induction k arbitrary: s)
  case (Suc k)
  have "s \<le> s + 2 ^ k" by simp
  with Suc [of s] Suc [of "s + 2 ^ k"] show ?case
    unfolding sqrt_bits.simps Let_def by (auto simp only: split: if_split intro: order.trans)
qed simp

declare sqrt_bits.simps [simp del]

section \<open>The rounded root\<close>

text \<open>The unit in the last place of the root of \<open>x\<close>: the root of a number with exponent \<open>e\<close> has
  the exponent \<open>e div 2\<close>, and is never subnormal.\<close>

definition sqrt_ulp_exp :: "rat \<Rightarrow> int" where
  "sqrt_ulp_exp x = ilog2 x div 2 - 52"

definition rne_sqrt :: "rat \<Rightarrow> rat" where
  "rne_sqrt x =
     (let u = sqrt_ulp_exp x; y = x / 2 powi (2 * u); s = sqrt_bits 53 y 0
      in of_int (if y \<le> (of_int s + 1 / 2)\<^sup>2 then s else s + 1) * 2 powi u)"

fun f64_sqrt :: "f64 \<Rightarrow> f64" where
  "f64_sqrt (Fin x) = (if x = 0 then Fin 0 else if x < 0 then NaN else Fin (rne_sqrt x))"
| "f64_sqrt PInf = PInf"
| "f64_sqrt _ = NaN"

section \<open>It is the nearest\<close>

lemma powi_twice: "(2 :: rat) powi (2 * u) = (2 powi u)\<^sup>2"
  by (simp add: power_int_mult power2_eq_square flip: powi_add)

text \<open>The significand before rounding.\<close>

lemma sqrt_significand:
  assumes "0 < x"
  obtains s y where "y = x / 2 powi (2 * sqrt_ulp_exp x)" "s = sqrt_bits 53 y 0" "0 \<le> s"
    "(of_int s)\<^sup>2 \<le> y" "y < (of_int s + 1)\<^sup>2"
proof -
  let ?u = "sqrt_ulp_exp x" let ?y = "x / 2 powi (2 * ?u)"
  have "x < 2 powi (ilog2 x + 1)" by (rule ilog2_bounds(2) [OF assms])
  also have "\<dots> \<le> 2 powi (106 + 2 * ?u)" by (rule powi_mono) (simp add: sqrt_ulp_exp_def)
  also have "\<dots> = 2 ^ 106 * 2 powi (2 * ?u)" by (simp add: powi_add)
  finally have "?y < (of_int (0 + 2 ^ 53))\<^sup>2" by (simp add: pos_divide_less_eq)
  moreover have "(of_int 0)\<^sup>2 \<le> ?y" using assms by simp
  ultimately show ?thesis using sqrt_bits_root [of 0 ?y 53] sqrt_bits_ge [of 0 53 ?y] that [OF refl refl] by simp
qed

lemma root_rounding:
  fixes y :: rat
  assumes "0 \<le> s" "(of_int s)\<^sup>2 \<le> y" "y < (of_int s + 1)\<^sup>2"
  shows "s = 0 \<or> (of_int s - 1 / 2)\<^sup>2 \<le> y" and "y \<le> (of_int s + 1 + 1 / 2)\<^sup>2"
    and "\<not> y \<le> (of_int s + 1 / 2)\<^sup>2 \<Longrightarrow> (of_int s + 1 - 1 / 2)\<^sup>2 \<le> y"
proof -
  have half: "(of_int s + 1 - 1 / 2 :: rat) = of_int s + 1 / 2" by simp
  show "(of_int s + 1 - 1 / 2)\<^sup>2 \<le> y" if "\<not> y \<le> (of_int s + 1 / 2)\<^sup>2"
    using that unfolding half by linarith
  have "(of_int s - 1 / 2)\<^sup>2 \<le> (of_int s :: rat)\<^sup>2" if "s \<noteq> 0"
    using assms(1) that by (intro power_mono) auto
  then show "s = 0 \<or> (of_int s - 1 / 2)\<^sup>2 \<le> y" using assms(2) by linarith
  have "(of_int s + 1)\<^sup>2 \<le> (of_int s + 1 + 1 / 2 :: rat)\<^sup>2"
    using assms(1) by (intro power_mono) auto
  then show "y \<le> (of_int s + 1 + 1 / 2)\<^sup>2" using assms(3) by linarith
qed

text \<open>The result is within half a unit of the root, stated without the irrational root itself.\<close>

lemma rne_sqrt_nearest:
  assumes "0 < x"
  shows "rne_sqrt x - 2 powi sqrt_ulp_exp x / 2 \<le> 0 \<or> (rne_sqrt x - 2 powi sqrt_ulp_exp x / 2)\<^sup>2 \<le> x"
    and "x \<le> (rne_sqrt x + 2 powi sqrt_ulp_exp x / 2)\<^sup>2" and "0 \<le> rne_sqrt x"
proof -
  define p where "p = (2 :: rat) powi sqrt_ulp_exp x"
  obtain s y where s: "y = x / 2 powi (2 * sqrt_ulp_exp x)" "s = sqrt_bits 53 y 0" "0 \<le> s"
    "(of_int s)\<^sup>2 \<le> y" "y < (of_int s + 1)\<^sup>2"
    by (rule sqrt_significand [OF assms])
  define r where "r = (if y \<le> (of_int s + 1 / 2)\<^sup>2 then s else s + 1)"
  have p: "0 < p" by (simp add: p_def)
  have x: "x = y * p\<^sup>2" unfolding s(1) powi_twice p_def by simp
  have rs: "rne_sqrt x = of_int r * p"
    unfolding rne_sqrt_def r_def Let_def p_def s(1,2) [symmetric] by (rule refl)
  have r: "0 \<le> r" "r = 0 \<or> (of_int r - 1 / 2)\<^sup>2 \<le> y" "y \<le> (of_int r + 1 / 2)\<^sup>2"
    using s(3) root_rounding [OF s(3-5)] by (simp_all add: r_def)
  show "0 \<le> rne_sqrt x" unfolding rs using r(1) p by simp
  have "(of_int r * p + p / 2)\<^sup>2 = (of_int r + 1 / 2)\<^sup>2 * p\<^sup>2"
    by (simp add: power2_eq_square algebra_simps)
  moreover have "y * p\<^sup>2 \<le> (of_int r + 1 / 2)\<^sup>2 * p\<^sup>2" using r(3) by (rule mult_right_mono) simp
  ultimately show "x \<le> (rne_sqrt x + 2 powi sqrt_ulp_exp x / 2)\<^sup>2"
    unfolding rs p_def [symmetric] x [symmetric] by (simp only: x [symmetric])
  have "(of_int r * p - p / 2)\<^sup>2 = (of_int r - 1 / 2)\<^sup>2 * p\<^sup>2"
    by (simp add: power2_eq_square algebra_simps)
  moreover have "(of_int r - 1 / 2)\<^sup>2 * p\<^sup>2 \<le> y * p\<^sup>2" if "r \<noteq> 0"
    using r(2) that by (intro mult_right_mono) simp_all
  ultimately have "r = 0 \<or> (of_int r * p - p / 2)\<^sup>2 \<le> x" by (metis x)
  then show "rne_sqrt x - 2 powi sqrt_ulp_exp x / 2 \<le> 0 \<or> (rne_sqrt x - 2 powi sqrt_ulp_exp x / 2)\<^sup>2 \<le> x"
    unfolding rs p_def [symmetric] using p by auto
qed

lemma root_below:
  fixes y :: rat
  assumes "0 \<le> s" "(of_int s)\<^sup>2 \<le> y" "y \<le> (of_int N)\<^sup>2" "0 \<le> N"
  shows "s \<le> N" and "s = N \<Longrightarrow> y \<le> (of_int s + 1 / 2)\<^sup>2"
proof -
  have "(of_int s :: rat)\<^sup>2 \<le> (of_int N)\<^sup>2" using assms(2,3) by (rule order.trans)
  then have "s\<^sup>2 \<le> N\<^sup>2" by (simp only: of_int_power [symmetric] of_int_le_iff)
  then show "s \<le> N" using assms(4) by (rule power2_le_imp_le)
  have "(of_int s :: rat)\<^sup>2 \<le> (of_int s + 1 / 2)\<^sup>2" using assms(1) by (intro power_mono) auto
  then show "y \<le> (of_int s + 1 / 2)\<^sup>2" if "s = N" using assms(3) unfolding that [symmetric] by linarith
qed

text \<open>Rounding does not carry a root past an integer.\<close>

lemma rne_sqrt_below:
  assumes "0 < x" "x \<le> (of_nat n)\<^sup>2" "n < 2 ^ 52"
  shows "rne_sqrt x \<le> of_nat n"
proof -
  define u where "u = sqrt_ulp_exp x"
  obtain s y where s: "y = x / 2 powi (2 * u)" "s = sqrt_bits 53 y 0" "0 \<le> s" "(of_int s)\<^sup>2 \<le> y"
    unfolding u_def by (rule sqrt_significand [OF assms(1)])
  have "(of_nat n :: rat)\<^sup>2 < (2 ^ 52)\<^sup>2"
    using assms(3) by (intro power_strict_mono) (simp_all add: of_nat_less_numeral_power_cancel_iff)
  then have "2 powi ilog2 x < (2 :: rat) powi 104"
    using ilog2_bounds(1) [OF assms(1)] assms(2) by (simp only: power_int_numeral flip: power_mult)  simp
  then have "ilog2 x < 104" by (rule powi_less_imp)
  then have "u \<le> 0" by (simp add: u_def sqrt_ulp_exp_def)
  then obtain k where k: "u = - int k" by (metis nonpos_int_cases)
  define N where "N = int n * 2 ^ k"
  have p: "(2 :: rat) powi u = 1 / 2 ^ k" by (simp add: k power_int_minus_divide)
  have "y \<le> (of_int N)\<^sup>2"
    using assms(2) by (simp add: s(1) powi_twice p N_def power_mult_distrib power_divide mult_right_mono)
  then have le: "s \<le> N" "s = N \<Longrightarrow> y \<le> (of_int s + 1 / 2)\<^sup>2"
    using s(3,4) root_below [of s y N] by (auto simp: N_def)
  have "rne_sqrt x = of_int (if y \<le> (of_int s + 1 / 2)\<^sup>2 then s else s + 1) * 2 powi u"
    unfolding rne_sqrt_def Let_def u_def [symmetric] s(1,2) [symmetric] by (rule refl)
  also have "\<dots> \<le> of_int N * 2 powi u"
    using le by (intro mult_right_mono) (simp_all only: of_int_le_iff powi_nonneg, cases "s = N", auto)
  also have "\<dots> = of_nat n" by (simp add: N_def p)
  finally show ?thesis .
qed

end
