(* ===== verification/Sweep.thy ===== *)
theory Sweep
  imports Bench_Synth Float64_Sqrt
begin

text \<open>
  The sweep of \<open>src/examples/sweep.rs\<close>: the synthetic benchmark for every number of threads, share of
  snapshots and strategy, repeated five times, with the mean of every figure and the standard deviation
  of the throughput. What a run does depends on its schedule and its measured duration, which are
  arguments, as in \<open>Bench_Synth\<close>. Printing and the pause between the repeats have no effect on the state.
\<close>

section \<open>Mean and standard deviation\<close>

definition f64_sum :: "f64 list \<Rightarrow> f64" where
  "f64_sum xs = foldl (+) (Fin 0) xs"

text \<open>\<open>powi(2)\<close> is one multiplication.\<close>

definition mean_stddev :: "f64 list \<Rightarrow> f64 \<times> f64" where
  "mean_stddev xs =
     (let n = f64_of_nat (length xs);
          mean = f64_sum xs / n;
          var = f64_sum (map (\<lambda>x. (x - mean) * (x - mean)) xs) / n
      in (mean, f64_sqrt var))"

section \<open>The configurations\<close>

definition REPEATS :: nat where "REPEATS = 5"

definition THREAD_COUNTS :: "nat list" where "THREAD_COUNTS = [1, 4, 8]"

definition SNAP_FRACTIONS :: "f64 list" where
  "SNAP_FRACTIONS = [f64_lit 0, f64_lit (1 / 10), f64_lit (3 / 10), f64_lit (6 / 10), f64_lit (9 / 10)]"

definition strategies :: "(strategy \<times> string) list" where
  "strategies = [(BatchEbr, ''Batch-EBR (DEBRA)''), (TokenAf, ''token_af''),
     (PacerDiscrete, ''PACER-Discrete''), (PacerContinuous, ''PACER-Continuous'')]"

section \<open>The runs\<close>

text \<open>A repeat: its measured duration and its schedule.\<close>

type_synonym repeat = "f64 \<times> (nat \<times> u64 \<times> u64) list"

record sweep_row =
  row_name :: string
  row_threads :: nat
  row_snap :: f64
  mops_mean :: f64
  mops_sd :: f64
  peak_mean :: f64
  free_mean :: f64
  lat_mean :: f64

fun run_repeats :: "strategy \<Rightarrow> nat \<Rightarrow> f64 \<Rightarrow> repeat list \<Rightarrow> bench_result list res option" where
  "run_repeats S threads snap [] = Some (Inr [])"
| "run_repeats S threads snap ((secs, sched) # reps) =
     bind_run (run_bench_synthetic S threads snap secs sched) (\<lambda>r.
       bind_run (run_repeats S threads snap reps) (\<lambda>rs. Some (Inr (r # rs))))"

definition sweep_row_of :: "string \<Rightarrow> nat \<Rightarrow> f64 \<Rightarrow> bench_result list \<Rightarrow> sweep_row" where
  "sweep_row_of name threads snap rs =
     (let (mops_m, mops_d) = mean_stddev (map throughput_mops rs);
          (peak_m, _) = mean_stddev (map (\<lambda>r. f64_of_nat (peak_limbo_len r)) rs);
          (free_m, _) = mean_stddev (map pct_time_in_free rs);
          (lat_m, _) = mean_stddev (map (\<lambda>r. f64_of_u64 (p99_snapshot_ns r) / f64_lit 1000) rs)
      in \<lparr>row_name = name, row_threads = threads, row_snap = snap, mops_mean = mops_m, mops_sd = mops_d,
          peak_mean = peak_m, free_mean = free_m, lat_mean = lat_m\<rparr>)"

definition sweep_configs :: "(nat \<times> f64 \<times> strategy \<times> string) list" where
  "sweep_configs = [(threads, snap, s). threads \<leftarrow> THREAD_COUNTS, snap \<leftarrow> SNAP_FRACTIONS, s \<leftarrow> strategies]"

fun sweep_rows :: "(nat \<Rightarrow> f64 \<Rightarrow> strategy \<Rightarrow> repeat list) \<Rightarrow> (nat \<times> f64 \<times> strategy \<times> string) list \<Rightarrow>
    sweep_row list res option" where
  "sweep_rows reps [] = Some (Inr [])"
| "sweep_rows reps ((threads, snap, S, name) # configs) =
     bind_run (run_repeats S threads snap (reps threads snap S)) (\<lambda>rs.
       bind_run (sweep_rows reps configs) (\<lambda>rows. Some (Inr (sweep_row_of name threads snap rs # rows))))"

definition sweep :: "(nat \<Rightarrow> f64 \<Rightarrow> strategy \<Rightarrow> repeat list) \<Rightarrow> sweep_row list res option" where
  "sweep reps = sweep_rows reps sweep_configs"

section \<open>Means lie among the samples\<close>

lemma round_between:
  assumes "of_nat a \<le> x" "x \<le> of_nat b" "b \<le> 2 ^ 53"
  shows "f64_between (of_nat a) (of_nat b) (f64_of_rat x)"
proof -
  have "(of_nat a :: rat) \<le> of_nat b" using assms(1,2) by (rule order.trans)
  then have g: "a \<le> 2 ^ 53" using assms(3) by simp
  have "(of_nat b :: rat) \<le> of_nat (2 ^ 53)" using assms(3) by (simp only: of_nat_le_iff)
  also have "(of_nat (2 ^ 53) :: rat) < overflow_bound"
    using overflow_bound_gt(2) by (rule order.strict_trans [rotated]) simp
  finally have b: "of_nat b < overflow_bound" .
  have "- overflow_bound < 0" using overflow_bound_gt(1) by linarith
  then have "- overflow_bound < of_nat a" by (rule order.strict_trans2) simp
  then show ?thesis
    using f64_of_rat_between [OF on_grid_of_nat [OF g] on_grid_of_nat [OF assms(3)] assms(1,2)] b by simp
qed

lemma partial_sum_between:
  assumes "\<forall>x \<in> set xs. f64_between (of_nat a) (of_nat b) x" "(k + length xs) * b \<le> 2 ^ 53"
    and "of_nat (k * a) \<le> s" "s \<le> of_nat (k * b)"
  shows "f64_between (of_nat ((k + length xs) * a)) (of_nat ((k + length xs) * b)) (foldl (+) (Fin s) xs)"
  using assms
proof (induction xs arbitrary: k s)
  case (Cons x xs)
  obtain r where r: "x = Fin r" "of_nat a \<le> r" "r \<le> of_nat b" using Cons.prems(1) by (auto elim: f64_betweenE)
  have "Suc k * b \<le> (k + length (x # xs)) * b" by (rule mult_le_mono1) simp
  then have "Suc k * b \<le> 2 ^ 53" using Cons.prems(2) by (rule order.trans)
  then have "f64_between (of_nat (Suc k * a)) (of_nat (Suc k * b)) (f64_of_rat (s + r))"
    using Cons.prems(3,4) r(2,3) by (intro round_between) simp_all
  then obtain s' where s': "f64_of_rat (s + r) = Fin s'" "of_nat (Suc k * a) \<le> s'" "s' \<le> of_nat (Suc k * b)"
    by (rule f64_betweenE)
  have "(Suc k + length xs) * b \<le> 2 ^ 53" using Cons.prems(2) by simp
  from Cons.IH [OF _ this s'(2,3)] Cons.prems(1) show ?case by (simp add: r(1) s'(1))
qed simp

lemma factor_le: "0 < n \<Longrightarrow> n * b \<le> N \<Longrightarrow> b \<le> (N :: nat)"
  by (cases n) simp_all

lemma mean_between:
  assumes "xs \<noteq> []" "\<forall>x \<in> set xs. f64_between (of_nat a) (of_nat b) x" "length xs * b \<le> 2 ^ 53" "length xs \<le> 2 ^ 53"
  shows "f64_between (of_nat a) (of_nat b) (f64_sum xs / f64_of_nat (length xs))"
proof -
  let ?n = "length xs"
  have n: "0 < (of_nat ?n :: rat)" using assms(1) by simp
  obtain s where s: "f64_sum xs = Fin s" "of_nat (?n * a) \<le> s" "s \<le> of_nat (?n * b)"
    using partial_sum_between [OF assms(2), of 0 0] assms(3) by (auto simp: f64_sum_def elim: f64_betweenE)
  have "b \<le> 2 ^ 53" using assms(1,3) factor_le [of ?n b] by simp
  then have "f64_between (of_nat a) (of_nat b) (f64_of_rat (s / of_nat ?n))"
    using s(2,3) n by (intro round_between) (simp_all add: pos_le_divide_eq pos_divide_le_eq mult.commute)
  then show ?thesis using n by (simp add: s(1) f64_of_nat_small [OF assms(4)])
qed

lemma deviation_between:
  assumes "f64_between (of_nat a) (of_nat b) x" "f64_between (of_nat a) (of_nat b) m" "(b - a)\<^sup>2 \<le> 2 ^ 53"
  shows "f64_between (of_nat 0) (of_nat ((b - a)\<^sup>2)) ((x - m) * (x - m))"
proof -
  obtain r q where r: "x = Fin r" "m = Fin q" "of_nat a \<le> r" "r \<le> of_nat b" "of_nat a \<le> q" "q \<le> of_nat b"
    using assms(1,2) by (auto elim!: f64_betweenE)
  have "(of_nat a :: rat) \<le> of_nat b" using r(3,4) by (rule order.trans)
  then have d: "(of_nat (b - a) :: rat) = of_nat b - of_nat a" by (simp add: of_nat_diff)
  have small: "b - a \<le> 2 ^ 53" using self_le_power [of "b - a" 2] assms(3) by (cases "b - a = 0") auto
  then have g: "on_grid (of_nat (b - a))" by (rule on_grid_of_nat)
  have q: "- of_nat (b - a) \<le> r - q" "r - q \<le> of_nat (b - a)" using r(3-6) unfolding d by linarith+
  have "\<bar>r - q\<bar> \<le> of_nat (2 ^ 53)"
    using q small by (meson abs_leI le_imp_less_Suc minus_le_iff of_nat_le_iff order.trans)
  also have "of_nat (2 ^ 53) \<le> (2 :: rat) ^ 65" by simp
  finally have e: "x - m = Fin (rne (r - q))" by (simp add: r(1,2) modest_no_overflow)
  have "- of_nat (b - a) \<le> rne (r - q)" "rne (r - q) \<le> of_nat (b - a)"
    using rne_between [OF on_grid_minus [OF g] q(1)] rne_below [OF g q(2)] by simp_all
  then have "\<bar>rne (r - q)\<bar> \<le> of_nat (b - a)" by linarith
  then have "(rne (r - q))\<^sup>2 \<le> of_nat ((b - a)\<^sup>2)"
    using power_mono [of "\<bar>rne (r - q)\<bar>" "of_nat (b - a)" 2] by simp
  then show ?thesis unfolding e fin_arith power2_eq_square [symmetric]
    using assms(3) by (intro round_between) simp_all
qed

lemma root_between:
  assumes "f64_between (of_nat 0) (of_nat (d\<^sup>2)) v" "d\<^sup>2 \<le> 2 ^ 53"
  shows "f64_between (of_nat 0) (of_nat d) (f64_sqrt v)"
proof -
  obtain x where x: "v = Fin x" "0 \<le> x" "x \<le> of_nat (d\<^sup>2)" using assms(1) by (auto elim: f64_betweenE)
  have "d < 2 ^ 52"
    by (rule power2_less_imp_less) (use assms(2) in simp_all)
  then show ?thesis
    using x rne_sqrt_nearest(3) [of x] rne_sqrt_below [of x d] by (cases "x = 0") simp_all
qed

text \<open>Samples between two whole numbers have their mean between them, and a deviation of at
  most their distance; so identical whole samples have themselves as mean and deviation 0.\<close>

lemma mean_stddev_between:
  assumes "xs \<noteq> []" "\<forall>x \<in> set xs. f64_between (of_nat a) (of_nat b) x" "length xs \<le> 2 ^ 53"
    and "length xs * b \<le> 2 ^ 53" "length xs * (b - a)\<^sup>2 \<le> 2 ^ 53"
  shows "f64_between (of_nat a) (of_nat b) (fst (mean_stddev xs))"
    and "f64_between 0 (of_nat (b - a)) (snd (mean_stddev xs))"
proof -
  let ?m = "f64_sum xs / f64_of_nat (length xs)"
  let ?ds = "map (\<lambda>x. (x - ?m) * (x - ?m)) xs"
  have m: "f64_between (of_nat a) (of_nat b) ?m" using assms by (intro mean_between)
  then show "f64_between (of_nat a) (of_nat b) (fst (mean_stddev xs))" by (simp add: mean_stddev_def Let_def)
  have d: "(b - a)\<^sup>2 \<le> 2 ^ 53" using assms(1,5) factor_le [of "length xs" "(b - a)\<^sup>2"] by simp
  have "\<forall>y \<in> set ?ds. f64_between (of_nat 0) (of_nat ((b - a)\<^sup>2)) y"
    using deviation_between [OF _ m d] assms(2) by auto
  then have "f64_between (of_nat 0) (of_nat ((b - a)\<^sup>2)) (f64_sum ?ds / f64_of_nat (length ?ds))"
    using assms by (intro mean_between) simp_all
  from root_between [OF this d] show "f64_between 0 (of_nat (b - a)) (snd (mean_stddev xs))"
    by (simp add: mean_stddev_def Let_def)
qed

section \<open>The sweep\<close>

text \<open>A row says which configuration it is of, and has a peak the strategy allows.\<close>

definition row_ok :: "nat \<times> f64 \<times> strategy \<times> string \<Rightarrow> sweep_row \<Rightarrow> bool" where
  "row_ok c row = (case c of (threads, snap, S, name) \<Rightarrow>
     row_threads row = threads \<and> row_snap row = snap \<and> row_name row = name \<and>
     f64_between 0 (case S of PacerDiscrete \<Rightarrow> 7 | BatchEbr \<Rightarrow> 255 | _ \<Rightarrow> 0) (peak_mean row))"

definition repeats_ok :: "nat \<Rightarrow> repeat list \<Rightarrow> bool" where
  "repeats_ok threads reps \<longleftrightarrow> (\<forall>(secs, sched) \<in> set reps. length sched \<le> 2 ^ 62 \<and> (\<forall>(i, now, lat) \<in> set sched. i < threads))"

lemma run_repeats_ok:
  assumes "threads \<le> MAX_THREADS" "repeats_ok threads reps"
  shows "\<exists>rs. run_repeats S threads snap reps = Some (Inr rs) \<and> length rs = length reps \<and>
    (\<forall>r \<in> set rs. peak_limbo_len r \<le> peak_bound S)"
  using assms(2)
proof (induction reps)
  case (Cons rep reps)
  obtain secs sched where rep: "rep = (secs, sched)" by (cases rep)
  have "length sched \<le> 2 ^ 62" "\<forall>(i, now, lat) \<in> set sched. i < threads"
    using Cons.prems by (auto simp: repeats_ok_def rep)
  from bench_run_ok [OF assms(1) this, of S snap secs] Cons show ?case
    by (auto simp: rep repeats_ok_def)
qed simp

lemma peak_column:
  assumes "rs \<noteq> []" "length rs \<le> 2 ^ 20" "\<forall>r \<in> set rs. peak_limbo_len r \<le> b" "b \<le> 255"
  shows "f64_between 0 (of_nat b) (peak_mean (sweep_row_of name threads snap rs))"
proof -
  let ?xs = "map (\<lambda>r. f64_of_nat (peak_limbo_len r)) rs"
  have "\<forall>x \<in> set ?xs. f64_between (of_nat 0) (of_nat b) x"
    using assms(3,4) by (auto simp: f64_of_nat_small)
  moreover have "length ?xs * b \<le> 2 ^ 20 * 255" "length ?xs * (b - 0)\<^sup>2 \<le> 2 ^ 20 * 255\<^sup>2"
    using mult_le_mono [of "length rs" "2 ^ 20" b 255] mult_le_mono [of "length rs" "2 ^ 20" "b\<^sup>2" "255\<^sup>2"]
      power_mono [of b 255 2] assms(2,4) by simp_all
  ultimately show ?thesis
    using mean_stddev_between(1) [of ?xs 0 b] assms(1,2)
    by (simp add: sweep_row_of_def Let_def case_prod_beta)
qed

lemma row_of_runs:
  assumes "rs \<noteq> []" "length rs \<le> 2 ^ 20" "\<forall>r \<in> set rs. peak_limbo_len r \<le> peak_bound S"
  shows "row_ok (threads, snap, S, name) (sweep_row_of name threads snap rs)"
proof -
  have "peak_bound S \<le> 255" by (cases S) simp_all
  from peak_column [OF assms this, of name threads snap]
  have "f64_between 0 (case S of PacerDiscrete \<Rightarrow> 7 | BatchEbr \<Rightarrow> 255 | _ \<Rightarrow> 0) (peak_mean (sweep_row_of name threads snap rs))"
    by (cases S) simp_all
  then show ?thesis by (simp add: row_ok_def sweep_row_of_def Let_def case_prod_beta)
qed

lemma sweep_rows_ok:
  assumes "\<forall>(threads, snap, S, name) \<in> set configs. threads \<le> MAX_THREADS \<and>
    length (reps threads snap S) = REPEATS \<and> repeats_ok threads (reps threads snap S)"
  shows "\<exists>rows. sweep_rows reps configs = Some (Inr rows) \<and> list_all2 row_ok configs rows"
  using assms
proof (induction configs)
  case (Cons c configs)
  obtain threads snap S name where c: "c = (threads, snap, S, name)" by (cases c) auto
  have ok: "threads \<le> MAX_THREADS" "length (reps threads snap S) = REPEATS" "repeats_ok threads (reps threads snap S)"
    using Cons.prems by (simp_all add: c)
  obtain rs where rs: "run_repeats S threads snap (reps threads snap S) = Some (Inr rs)" "length rs = REPEATS"
    "\<forall>r \<in> set rs. peak_limbo_len r \<le> peak_bound S"
    using run_repeats_ok [OF ok(1,3), of S snap] ok(2) by metis
  have "row_ok c (sweep_row_of name threads snap rs)"
    unfolding c by (rule row_of_runs) (use rs in \<open>auto simp: REPEATS_def\<close>)
  then show ?case using Cons rs(1) by (auto simp: c)
qed simp

lemma sweep_configs_small:
  "\<forall>(threads, snap, S, name) \<in> set sweep_configs. threads \<le> MAX_THREADS" "length sweep_configs = 60"
  by (auto simp: sweep_configs_def THREAD_COUNTS_def MAX_THREADS_def SNAP_FRACTIONS_def strategies_def)

text \<open>The mean and the standard deviation of the sweep lie within the range of the samples, in spite of
  rounding: samples between two whole numbers have their mean between them and a deviation of at most their
  distance. Identical whole samples have exactly that mean, and deviation 0.\<close>

theorem mean_stddev_within_range:
  assumes "xs \<noteq> []" "\<forall>x \<in> set xs. f64_between (of_nat a) (of_nat b) x"
    and "length xs * b \<le> 2 ^ 53" "length xs * (b - a)\<^sup>2 \<le> 2 ^ 53" "length xs \<le> 2 ^ 53"
  shows "f64_between (of_nat a) (of_nat b) (fst (mean_stddev xs)) \<and>
    f64_between 0 (of_nat (b - a)) (snd (mean_stddev xs))"
  using mean_stddev_between [OF assms(1,2,5,3,4)] by blast

theorem mean_stddev_within_range_witness:
  "mean_stddev [Fin 7, Fin 7, Fin 7, Fin 7, Fin 7] = (Fin 7, Fin 0)"
  using mean_stddev_within_range [of "[Fin 7, Fin 7, Fin 7, Fin 7, Fin 7]" 7 7]
  by (cases "mean_stddev [Fin 7, Fin 7, Fin 7, Fin 7, Fin 7]") (auto elim!: f64_betweenE)


definition one_repeat :: "nat \<Rightarrow> f64 \<Rightarrow> strategy \<Rightarrow> repeat list" where
  "one_repeat threads snap S = replicate REPEATS (Fin (1 / 4), [(0, 10, 5), (threads - 1, 20, 7)])"


end
