(* ===== verification/Abtree_Ffi.thy ===== *)
theory Abtree_Ffi
  imports Backlog "HOL-Library.Multiset"
begin

text \<open>
  The Rust side of the tree benchmark, \<open>src/src/abtree_ffi.rs\<close>: \<open>AbtreeFFI\<close> wraps Brown's
  lock-free (a,b)-tree, whose nodes are retired into the limbo bag of the calling thread and freed by
  the collector. The layer between, \<open>src/cpp/abtree_glue.cpp\<close>, keeps three thread-local values and
  turns the tree's calls to \<open>retire\<close> into calls back into Rust; it is modelled as far as the Rust
  code relies on it. The tree itself is third-party code and a parameter: for each operation, its
  result, its next state, and the nodes it retires in order, each with the first word of its memory.
  Operations of several threads interleave one call at a time.
\<close>

section \<open>The tree\<close>

text \<open>\<open>lib_insert stamp tid key\<close>: the stamp is what \<open>PacerAllocator::allocate\<close> writes at offset 0 of the
  nodes the operation allocates.\<close>

record 'tree abtree_lib =
  lib_new :: "u32 \<Rightarrow> 'tree option"
  lib_insert :: "u64 \<Rightarrow> u32 \<Rightarrow> u64 \<Rightarrow> 'tree \<Rightarrow> bool \<times> 'tree \<times> (u64 \<times> addr) list"
  lib_erase :: "u64 \<Rightarrow> u32 \<Rightarrow> u64 \<Rightarrow> 'tree \<Rightarrow> bool \<times> 'tree \<times> (u64 \<times> addr) list"
  lib_find :: "u32 \<Rightarrow> u64 \<Rightarrow> 'tree \<Rightarrow> bool"

section \<open>The glue\<close>

datatype retire_fn = Pacer_Retire_Cb

text \<open>The context is the address of the thread's state, here the slot that names it.\<close>

record glue_tls =
  tl_retire_fn :: "retire_fn option"
  tl_retire_ctx :: nat
  tl_epoch_ptr :: u64

definition glue_tls_init :: glue_tls where
  "glue_tls_init = \<lparr>tl_retire_fn = None, tl_retire_ctx = 0, tl_epoch_ptr = 0\<rparr>"

definition abtree_register_thread :: "retire_fn \<Rightarrow> nat \<Rightarrow> u64 \<Rightarrow> glue_tls \<Rightarrow> glue_tls" where
  "abtree_register_thread f ctx epoch tls =
     tls\<lparr>tl_retire_fn := Some f, tl_retire_ctx := ctx, tl_epoch_ptr := epoch\<rparr>"

definition abtree_set_epoch :: "u64 \<Rightarrow> glue_tls \<Rightarrow> glue_tls" where
  "abtree_set_epoch epoch tls = tls\<lparr>tl_epoch_ptr := epoch\<rparr>"

text \<open>The callback, and the free function it passes on.\<close>

definition pacer_retire_cb :: "u64 \<Rightarrow> addr \<Rightarrow> thread_local_state \<Rightarrow> thread_local_state" where
  "pacer_retire_cb birth ptr t =
     t\<lparr>limbo_bag := limbo_push_raw (limbo_bag t) birth ptr ''abtree_free_node''\<rparr>"

text \<open>\<open>PacerReclaimer::retire\<close>: a thread that never registered deletes the node at once.\<close>

fun glue_retire :: "glue_tls \<Rightarrow> u64 \<times> addr \<Rightarrow> thread_local_state \<times> 'v memory \<Rightarrow> thread_local_state \<times> 'v memory" where
  "glue_retire tls (birth, ptr) (t, m) =
     (case tl_retire_fn tls of
        None \<Rightarrow> (t, m\<lparr>foreign_frees := foreign_frees m @ [(''operator delete'', ptr)]\<rparr>)
      | Some Pacer_Retire_Cb \<Rightarrow> (pacer_retire_cb birth ptr t, m))"

definition abtree_insert ::
  "'tree abtree_lib \<Rightarrow> glue_tls \<Rightarrow> u32 \<Rightarrow> u64 \<Rightarrow> 'tree \<times> thread_local_state \<times> 'v memory
    \<Rightarrow> u32 \<times> 'tree \<times> thread_local_state \<times> 'v memory" where
  "abtree_insert lib tls i key = (\<lambda>(tree, t, m).
     let (ok, tree', retired) = lib_insert lib (tl_epoch_ptr tls) i key tree;
         (t', m') = fold (glue_retire tls) retired (t, m)
     in (if ok then 1 else 0, tree', t', m'))"

definition abtree_remove ::
  "'tree abtree_lib \<Rightarrow> glue_tls \<Rightarrow> u32 \<Rightarrow> u64 \<Rightarrow> 'tree \<times> thread_local_state \<times> 'v memory
    \<Rightarrow> u32 \<times> 'tree \<times> thread_local_state \<times> 'v memory" where
  "abtree_remove lib tls i key = (\<lambda>(tree, t, m).
     let (ok, tree', retired) = lib_erase lib (tl_epoch_ptr tls) i key tree;
         (t', m') = fold (glue_retire tls) retired (t, m)
     in (if ok then 1 else 0, tree', t', m'))"

definition abtree_contains :: "'tree abtree_lib \<Rightarrow> u32 \<Rightarrow> u64 \<Rightarrow> 'tree \<Rightarrow> u32" where
  "abtree_contains lib i key tree = (if lib_find lib i key tree then 1 else 0)"

section \<open>The wrapper\<close>

record 'tree abtree_ffi =
  raw :: 'tree
  ffi_epoch :: u64

definition abtree_ffi_new :: "'tree abtree_lib \<Rightarrow> nat \<Rightarrow> 'tree abtree_ffi res" where
  "abtree_ffi_new lib num_threads =
     (case lib_new lib (of_nat num_threads) of
        None \<Rightarrow> Inl AssertionFailed
      | Some tree \<Rightarrow> Inr \<lparr>raw = tree, ffi_epoch = 1\<rparr>)"

definition ffi_register_thread :: "'tree abtree_ffi \<Rightarrow> thread_local_state \<Rightarrow> glue_tls \<Rightarrow> glue_tls" where
  "ffi_register_thread ffi t tls = abtree_register_thread Pacer_Retire_Cb (tid t) (ffi_epoch ffi) tls"

text \<open>What \<open>insert\<close> and \<open>remove\<close> do after the call of the tree.\<close>

definition ffi_maintain ::
  "pacer_system \<Rightarrow> thread_local_state \<Rightarrow> 'v memory \<Rightarrow> (pacer_system \<times> thread_local_state \<times> 'v memory) res" where
  "ffi_maintain sys t m =
     bind_res (drain_discrete_tick sys t m) (\<lambda>(freed, t1, m1).
       if op_counter t1 mod WINDOW_SIZE = 0
       then (let (sys1, t2) = resample_spi sys t1 in
             bind_res (reclaim_discrete sys1 t2) (\<lambda>(n, sys2, t3). Inr (sys2, t3, m1)))
       else Inr (sys, t1, m1))"

text \<open>The state a call works on: the shared system, the wrapper, the glue's thread-local values, the
  thread's state, and the memory.\<close>

type_synonym ('tree, 'v) ffi_call =
  "pacer_system \<times> 'tree abtree_ffi \<times> glue_tls \<times> thread_local_state \<times> 'v memory"

definition ffi_insert ::
  "'tree abtree_lib \<Rightarrow> u64 \<Rightarrow> ('tree, 'v) ffi_call \<Rightarrow> (bool \<times> ('tree, 'v) ffi_call) res" where
  "ffi_insert lib key = (\<lambda>(sys, ffi, tls, t, m).
     let ts = ffi_epoch ffi;
         tls1 = abtree_set_epoch ts tls;
         t1 = t\<lparr>win_writes := win_writes t + 1, op_counter := op_counter t + 1\<rparr>;
         (r, tree', t2, m2) = abtree_insert lib tls1 (of_nat (tid t1)) key (raw ffi, t1, m)
     in bind_res (ffi_maintain sys t2 m2) (\<lambda>(sys', t3, m3).
          Inr (r \<noteq> 0, sys', \<lparr>raw = tree', ffi_epoch = ts + 1\<rparr>, tls1, t3, m3)))"

definition ffi_remove ::
  "'tree abtree_lib \<Rightarrow> u64 \<Rightarrow> ('tree, 'v) ffi_call \<Rightarrow> (bool \<times> ('tree, 'v) ffi_call) res" where
  "ffi_remove lib key = (\<lambda>(sys, ffi, tls, t, m).
     let ts = ffi_epoch ffi;
         tls1 = abtree_set_epoch ts tls;
         t1 = t\<lparr>win_writes := win_writes t + 1, op_counter := op_counter t + 1\<rparr>;
         (r, tree', t2, m2) = abtree_remove lib tls1 (of_nat (tid t1)) key (raw ffi, t1, m)
     in bind_res (ffi_maintain sys t2 m2) (\<lambda>(sys', t3, m3).
          Inr (r \<noteq> 0, sys', \<lparr>raw = tree', ffi_epoch = ts + 1\<rparr>, tls1, t3, m3)))"

definition ffi_insert_no_gc ::
  "'tree abtree_lib \<Rightarrow> u64 \<Rightarrow> ('tree, 'v) ffi_call \<Rightarrow> bool \<times> ('tree, 'v) ffi_call" where
  "ffi_insert_no_gc lib key = (\<lambda>(sys, ffi, tls, t, m).
     let t1 = t\<lparr>op_counter := op_counter t + 1\<rparr>;
         (r, tree', t2, m2) = abtree_insert lib tls (of_nat (tid t1)) key (raw ffi, t1, m)
     in (r \<noteq> 0, sys, ffi\<lparr>raw := tree'\<rparr>, tls, t2, m2))"

definition ffi_remove_no_gc ::
  "'tree abtree_lib \<Rightarrow> u64 \<Rightarrow> ('tree, 'v) ffi_call \<Rightarrow> bool \<times> ('tree, 'v) ffi_call" where
  "ffi_remove_no_gc lib key = (\<lambda>(sys, ffi, tls, t, m).
     let t1 = t\<lparr>op_counter := op_counter t + 1\<rparr>;
         (r, tree', t2, m2) = abtree_remove lib tls (of_nat (tid t1)) key (raw ffi, t1, m)
     in (r \<noteq> 0, sys, ffi\<lparr>raw := tree'\<rparr>, tls, t2, m2))"

definition ffi_contains :: "'tree abtree_lib \<Rightarrow> u64 \<Rightarrow> nat \<Rightarrow> 'tree abtree_ffi \<Rightarrow> bool" where
  "ffi_contains lib key i ffi \<longleftrightarrow> abtree_contains lib (of_nat i) key (raw ffi) \<noteq> 0"

text \<open>A call of the wrapper.\<close>

datatype ffi_op = Insert u64 | Remove u64 | Insert_No_Gc u64 | Remove_No_Gc u64 | Contains u64

fun ffi_step :: "'tree abtree_lib \<Rightarrow> ffi_op \<Rightarrow> ('tree, 'v) ffi_call \<Rightarrow> (bool \<times> ('tree, 'v) ffi_call) res" where
  "ffi_step lib (Insert key) c = ffi_insert lib key c"
| "ffi_step lib (Remove key) c = ffi_remove lib key c"
| "ffi_step lib (Insert_No_Gc key) c = Inr (ffi_insert_no_gc lib key c)"
| "ffi_step lib (Remove_No_Gc key) c = Inr (ffi_remove_no_gc lib key c)"
| "ffi_step lib (Contains key) (sys, ffi, tls, t, m) =
     Inr (ffi_contains lib key (tid t) ffi, sys, ffi, tls, t, m)"

section \<open>What a call does\<close>

text \<open>The nodes an operation retires, as the entries they become in the bag.\<close>

definition retired_entries :: "(u64 \<times> addr) list \<Rightarrow> limbo_bag" where
  "retired_entries = map (\<lambda>(birth, ptr). (birth, Foreign ptr ''abtree_free_node''))"

lemma retire_all:
  assumes "tl_retire_fn tls \<noteq> None"
  shows "fold (glue_retire tls) retired (t, m) =
    (t\<lparr>limbo_bag := limbo_bag t @ retired_entries retired\<rparr>, m)"
proof -
  obtain f where "tl_retire_fn tls = Some f" using assms by blast
  then have f: "tl_retire_fn tls = Some Pacer_Retire_Cb" by (cases f) simp
  show ?thesis
  proof (induction retired arbitrary: t)
    case Nil
    then show ?case by (simp add: retired_entries_def)
  next
    case (Cons x retired)
    obtain b p where x: "x = (b, p)" by (cases x)
    show ?case
      by (simp add: x f Cons pacer_retire_cb_def limbo_push_raw_def) (simp add: retired_entries_def)
  qed
qed

text \<open>The maintenance is a drain with the mode's budget and the pass of the window.\<close>

definition drained_thread :: "pacer_system \<Rightarrow> thread_local_state \<Rightarrow> nat \<times> thread_local_state" where
  "drained_thread sys t =
     (let n = drain_count sys t (tick_budget (gc_mode t) (hold_ticks t))
      in (n, t\<lparr>hold_ticks := tick_hold (gc_mode t) (hold_ticks t), limbo_bag := drop n (limbo_bag t)\<rparr>))"

lemma drained_thread_keeps [simp]:
  "spi_ema (snd (drained_thread sys t)) = spi_ema t" "op_counter (snd (drained_thread sys t)) = op_counter t"
  "no_window_overflow (snd (drained_thread sys t)) = no_window_overflow t"
  "tid (snd (drained_thread sys t)) = tid t" "gc_mode (snd (drained_thread sys t)) = gc_mode t"
  "win_writes (snd (drained_thread sys t)) = win_writes t" "win_snaps (snd (drained_thread sys t)) = win_snaps t"
  "limbo_bag (snd (drained_thread sys t)) = drop (fst (drained_thread sys t)) (limbo_bag t)"
  "never_read (snd (drained_thread sys t)) = never_read t"
  by (simp_all add: drained_thread_def no_window_overflow_def never_read_def Let_def)

lemma maintain_correct:
  assumes "table_ok (announce_tbl sys)" "bag_ok (limbo_bag t) m" "spi_ok (spi_ema t)" "no_window_overflow t"
    and "after_window sys (snd (drained_thread sys t)) = (sys', t')"
  shows "ffi_maintain sys t m = Inr (sys', t', free_all (take (fst (drained_thread sys t)) (limbo_bag t)) m)"
proof -
  let ?n = "fst (drained_thread sys t)" and ?t = "snd (drained_thread sys t)"
  have d: "drain_discrete_tick sys t m = Inr (?n, ?t, free_all (take ?n (limbo_bag t)) m)"
    using discrete_tick_policy [OF assms(1,2)] by (simp add: drained_thread_def Let_def)
  show ?thesis
  proof (cases "op_counter t mod WINDOW_SIZE = 0")
    case False
    then show ?thesis using d assms(5) by (auto simp: ffi_maintain_def after_window_def)
  next
    case True
    obtain sys1 t1 where r: "resample_spi sys ?t = (sys1, t1)" by fastforce
    have "spi_ok (spi_ema t1)" using resample_keeps(1) [OF _ _ r] assms(3,4) by simp
    from reclaim_discrete_bookkeep [OF this, of sys1] r True d assms(5) show ?thesis
      by (simp add: ffi_maintain_def after_window_def)
  qed
qed

text \<open>The calls that change the tree with maintenance, as calls of the library.\<close>

fun update_call :: "'tree abtree_lib \<Rightarrow> ffi_op \<Rightarrow> u64 \<Rightarrow> u32 \<Rightarrow> 'tree \<Rightarrow> bool \<times> 'tree \<times> (u64 \<times> addr) list" where
  "update_call lib (Insert key) stamp i tree = lib_insert lib stamp i key tree"
| "update_call lib (Remove key) stamp i tree = lib_erase lib stamp i key tree"
| "update_call lib (Insert_No_Gc key) stamp i tree = lib_insert lib stamp i key tree"
| "update_call lib (Remove_No_Gc key) stamp i tree = lib_erase lib stamp i key tree"
| "update_call lib (Contains key) stamp i tree = (lib_find lib i key tree, tree, [])"

fun maintains :: "ffi_op \<Rightarrow> bool" where
  "maintains (Insert _) = True"
| "maintains (Remove _) = True"
| "maintains _ = False"

text \<open>A thread that holds tree nodes only, after at most \<open>n\<close> calls.\<close>

definition tree_thread :: "nat \<Rightarrow> thread_local_state \<Rightarrow> bool" where
  "tree_thread n t \<longleftrightarrow> spi_ok (spi_ema t) \<and> unat (win_writes t) + unat (win_snaps t) \<le> n \<and>
     owned_addrs (limbo_bag t) = []"

lemma owned_retired [simp]: "owned_addrs (retired_entries ret) = []"
  by (induction ret) (auto simp: retired_entries_def)

lemma foreign_retired [simp]: "foreign_calls (retired_entries ret) = map (\<lambda>x. (''abtree_free_node'', snd x)) ret"
  by (induction ret) (auto simp: retired_entries_def)

lemma foreign_calls_append [simp]: "foreign_calls (xs @ ys) = foreign_calls xs @ foreign_calls ys"
  by (simp add: foreign_calls_def List.map_filter_def)

lemma no_owned_take_drop:
  assumes "owned_addrs q = []"
  shows "owned_addrs (take n q) = []" "owned_addrs (drop n q) = []"
  using assms owned_addrs_append [of "take n q" "drop n q"] by simp_all

lemma free_foreign:
  "owned_addrs q = [] \<Longrightarrow> free_all q m = m\<lparr>foreign_frees := foreign_frees m @ foreign_calls q\<rparr>"
  by (simp add: free_all_def restrict_map_def)

lemma bag_ok_foreign [simp]: "owned_addrs q = [] \<Longrightarrow> bag_ok q m"
  by (simp add: bag_ok_def)

lemma tree_thread_window: "tree_thread n t \<Longrightarrow> n < 2 ^ 62 \<Longrightarrow> no_window_overflow t"
  by (simp add: tree_thread_def no_window_overflow_def)

text \<open>What a call of \<open>insert\<close> or \<open>remove\<close> does, in one piece.\<close>

definition called :: "thread_local_state \<Rightarrow> (u64 \<times> addr) list \<Rightarrow> thread_local_state" where
  "called t ret = t\<lparr>win_writes := win_writes t + 1, op_counter := op_counter t + 1,
     limbo_bag := limbo_bag t @ retired_entries ret\<rparr>"

lemma called_simps [simp]:
  "op_counter (called t ret) = op_counter t + 1" "gc_mode (called t ret) = gc_mode t"
  "hold_ticks (called t ret) = hold_ticks t" "limbo_bag (called t ret) = limbo_bag t @ retired_entries ret"
  "spi_ema (called t ret) = spi_ema t" "win_snaps (called t ret) = win_snaps t"
  "win_writes (called t ret) = win_writes t + 1" "tid (called t ret) = tid t"
  "never_read (called t ret) = never_read t"
  by (simp_all add: called_def never_read_def)

lemma tree_thread_called:
  assumes "tree_thread n t" "n < 2 ^ 62"
  shows "tree_thread (n + 1) (called t ret)"
proof -
  have "unat (win_writes t + 1) = unat (win_writes t) + 1"
    using assms by (intro unat_add_1 [of _ n]) (auto simp: tree_thread_def)
  with assms show ?thesis by (simp add: tree_thread_def)
qed

lemma ffi_update:
  assumes "table_ok (announce_tbl sys)" "tl_retire_fn tls \<noteq> None" "tree_thread n t" "n < 2 ^ 62 - 1"
    and "maintains op" "update_call lib op (ffi_epoch ffi) (of_nat (tid t)) (raw ffi) = (ok, tree', ret)"
    and "after_window sys (snd (drained_thread sys (called t ret))) = (sys', t')"
  defines "k \<equiv> fst (drained_thread sys (called t ret))"
  shows "ffi_step lib op (sys, ffi, tls, t, m) =
    Inr (ok, sys', \<lparr>raw = tree', ffi_epoch = ffi_epoch ffi + 1\<rparr>, abtree_set_epoch (ffi_epoch ffi) tls, t',
         m\<lparr>foreign_frees := foreign_frees m @ foreign_calls (take k (limbo_bag t @ retired_entries ret))\<rparr>)"
proof -
  have t: "tree_thread (n + 1) (called t ret)" using assms(3,4) by (intro tree_thread_called) simp_all
  then have o: "owned_addrs (limbo_bag t @ retired_entries ret) = []" by (simp add: tree_thread_def)
  have mt: "ffi_maintain sys (called t ret) m =
      Inr (sys', t', m\<lparr>foreign_frees := foreign_frees m @ foreign_calls (take k (limbo_bag t @ retired_entries ret))\<rparr>)"
    using maintain_correct [OF assms(1) _ _ _ assms(7), of m] t tree_thread_window [OF t] assms(4) o
    by (simp add: k_def tree_thread_def free_foreign no_owned_take_drop)
  have r: "tl_retire_fn (abtree_set_epoch (ffi_epoch ffi) tls) \<noteq> None"
    "tl_epoch_ptr (abtree_set_epoch (ffi_epoch ffi) tls) = ffi_epoch ffi"
    using assms(2) by (simp_all add: abtree_set_epoch_def)
  have c: "t\<lparr>win_writes := win_writes t + 1, op_counter := op_counter t + 1, limbo_bag := limbo_bag t @ retired_entries ret\<rparr>
      = called t ret"
    by (simp add: called_def)
  show ?thesis
  proof (cases op)
    case (Insert key)
    with assms(6) show ?thesis
      by (simp add: ffi_insert_def abtree_insert_def r retire_all [OF r(1)] c mt Let_def)
  next
    case (Remove key)
    with assms(6) show ?thesis
      by (simp add: ffi_remove_def abtree_remove_def r retire_all [OF r(1)] c mt Let_def)
  qed (use assms(5) in simp_all)
qed

lemma ffi_other:
  assumes "tl_retire_fn tls \<noteq> None" "\<not> maintains op"
    and "update_call lib op (tl_epoch_ptr tls) (of_nat (tid t)) (raw ffi) = (ok, tree', ret)"
  shows "ffi_step lib op (sys, ffi, tls, t, m) =
    Inr (ok, sys, ffi\<lparr>raw := tree'\<rparr>, tls,
         t\<lparr>op_counter := (case op of Contains _ \<Rightarrow> op_counter t | _ \<Rightarrow> op_counter t + 1),
           limbo_bag := limbo_bag t @ retired_entries ret\<rparr>, m)"
proof (cases op)
  case (Contains key)
  with assms show ?thesis by (auto simp: ffi_contains_def abtree_contains_def retired_entries_def)
next
  case (Insert_No_Gc key)
  with assms(3) show ?thesis
    by (simp add: ffi_insert_no_gc_def abtree_insert_def retire_all [OF assms(1)])
next
  case (Remove_No_Gc key)
  with assms(3) show ?thesis
    by (simp add: ffi_remove_no_gc_def abtree_remove_def retire_all [OF assms(1)])
qed (use assms(2) in simp_all)

section \<open>Several threads\<close>

text \<open>Threads that share the system, the tree and the memory, each with its own thread-local values. A
  schedule says which thread makes which call next.\<close>

record ('tree, 'v) ffi_state =
  f_sys :: pacer_system
  f_ffi :: "'tree abtree_ffi"
  f_mem :: "'v memory"
  f_threads :: "(glue_tls \<times> thread_local_state) list"

definition ffi_act :: "'tree abtree_lib \<Rightarrow> nat \<times> ffi_op \<Rightarrow> ('tree, 'v) ffi_state \<Rightarrow> ('tree, 'v) ffi_state res" where
  "ffi_act lib = (\<lambda>(i, op) s.
     let (tls, t) = f_threads s ! i
     in bind_res (ffi_step lib op (f_sys s, f_ffi s, tls, t, f_mem s)) (\<lambda>(b, sys', ffi', tls', t', m').
          Inr \<lparr>f_sys = sys', f_ffi = ffi', f_mem = m', f_threads = (f_threads s)[i := (tls', t')]\<rparr>))"

fun ffi_run :: "'tree abtree_lib \<Rightarrow> (nat \<times> ffi_op) list \<Rightarrow> ('tree, 'v) ffi_state \<Rightarrow> ('tree, 'v) ffi_state res" where
  "ffi_run lib [] s = Inr s"
| "ffi_run lib (a # as) s = bind_res (ffi_act lib a s) (ffi_run lib as)"

definition ffi_ok :: "nat \<Rightarrow> ('tree, 'v) ffi_state \<Rightarrow> bool" where
  "ffi_ok n s \<longleftrightarrow> table_ok (announce_tbl (f_sys s)) \<and>
     (\<forall>(tls, t) \<in> set (f_threads s). tl_retire_fn tls \<noteq> None \<and> tree_thread n t)"

text \<open>The effect of a call: it returns; of the thread's bag and what the call retires, \<open>k\<close> entries are freed.\<close>

definition call_effect ::
  "'tree abtree_lib \<Rightarrow> nat \<Rightarrow> ffi_op \<Rightarrow> ('tree, 'v) ffi_state \<Rightarrow> (u64 \<times> addr) list \<Rightarrow> nat
    \<Rightarrow> thread_local_state \<Rightarrow> ('tree, 'v) ffi_state \<Rightarrow> bool" where
  "call_effect lib i op s ret k t' s' \<longleftrightarrow> (let (tls, t) = f_threads s ! i; X = limbo_bag t @ retired_entries ret in
     (\<exists>ok. update_call lib op (if maintains op then ffi_epoch (f_ffi s) else tl_epoch_ptr tls) (of_nat (tid t))
        (raw (f_ffi s)) = (ok, raw (f_ffi s'), ret)) \<and>
     (\<exists>tls'. f_threads s' = (f_threads s)[i := (tls', t')] \<and> tl_retire_fn tls' \<noteq> None) \<and>
     limbo_bag t' = drop k X \<and>
     f_mem s' = (f_mem s)\<lparr>foreign_frees := foreign_frees (f_mem s) @ foreign_calls (take k X)\<rparr> \<and>
     announce_tbl (f_sys s') = announce_tbl (f_sys s) \<and>
     ffi_epoch (f_ffi s') = ffi_epoch (f_ffi s) + (if maintains op then 1 else 0) \<and>
     op_counter t' = op_counter t + (case op of Contains _ \<Rightarrow> 0 | _ \<Rightarrow> 1) \<and>
     (never_read t \<longrightarrow> never_read t') \<and>
     (maintains op \<longrightarrow> k = fst (drained_thread (f_sys s) (called t ret)) \<and>
        (\<exists>t1. after_window (f_sys s) (snd (drained_thread (f_sys s) (called t ret))) = (f_sys s', t1))) \<and>
     (\<not> maintains op \<longrightarrow> k = 0 \<and> global_epoch (f_sys s') = global_epoch (f_sys s)))"

lemma ffi_ok_update:
  fixes s s' :: "('tree, 'v) ffi_state"
  assumes "ffi_ok n s" "f_threads s' = (f_threads s)[i := (tls', t')]" "tl_retire_fn tls' \<noteq> None"
    and "tree_thread (n + 1) t'" "announce_tbl (f_sys s') = announce_tbl (f_sys s)"
  shows "ffi_ok (n + 1) s'"
proof -
  have "tree_thread n u \<Longrightarrow> tree_thread (n + 1) u" for u by (auto simp: tree_thread_def)
  then show ?thesis
    using assms(1,3,4) set_update_subset_insert [of "f_threads s" i "(tls', t')"]
    unfolding ffi_ok_def assms(2,5) by blast
qed

lemma ffi_act_other:
  fixes s :: "('tree, 'v) ffi_state"
  assumes ok: "ffi_ok n s" and th: "f_threads s ! i = (tls, t)" and t: "tl_retire_fn tls \<noteq> None" "tree_thread n t"
    and not_maintains: "\<not> maintains op"
  shows "\<exists>s' ret k t'. ffi_act lib (i, op) s = Inr s' \<and> ffi_ok (n + 1) s' \<and> call_effect lib i op s ret k t' s'"
proof -
  obtain b tree' ret where u: "update_call lib op (tl_epoch_ptr tls) (of_nat (tid t)) (raw (f_ffi s)) = (b, tree', ret)"
    by (metis prod_cases3)
  define t' where "t' = t\<lparr>op_counter := (case op of Contains _ \<Rightarrow> op_counter t | _ \<Rightarrow> op_counter t + 1),
         limbo_bag := limbo_bag t @ retired_entries ret\<rparr>"
  define s' where "s' = \<lparr>f_sys = f_sys s, f_ffi = (f_ffi s)\<lparr>raw := tree'\<rparr>, f_mem = f_mem s,
    f_threads = (f_threads s)[i := (tls, t')]\<rparr>"
  have "ffi_act lib (i, op) s = Inr s'"
    by (simp add: ffi_act_def th s'_def t'_def ffi_other [OF t(1) not_maintains u])
  moreover have "tree_thread (n + 1) t'" using t(2) by (simp add: tree_thread_def t'_def)
  then have "ffi_ok (n + 1) s'" by (intro ffi_ok_update [OF ok _ t(1)]) (simp_all add: s'_def)
  moreover have "call_effect lib i op s ret 0 t' s'"
    using u t(1) not_maintains unfolding call_effect_def th s'_def
    by (cases op) (auto simp: t'_def never_read_def)
  ultimately show ?thesis by blast
qed

lemma ffi_act_maintains:
  fixes s :: "('tree, 'v) ffi_state"
  assumes ok: "ffi_ok n s" and th: "f_threads s ! i = (tls, t)" and t: "tl_retire_fn tls \<noteq> None" "tree_thread n t"
    and table: "table_ok (announce_tbl (f_sys s))" and n: "n < 2 ^ 62 - 1" and maintains: "maintains op"
  shows "\<exists>s' ret k t'. ffi_act lib (i, op) s = Inr s' \<and> ffi_ok (n + 1) s' \<and> call_effect lib i op s ret k t' s'"
proof -
  obtain b tree' ret where u: "update_call lib op (ffi_epoch (f_ffi s)) (of_nat (tid t)) (raw (f_ffi s)) = (b, tree', ret)"
    by (metis prod_cases3)
  obtain sys' t' where a: "after_window (f_sys s) (snd (drained_thread (f_sys s) (called t ret))) = (sys', t')"
    by fastforce
  define k where "k = fst (drained_thread (f_sys s) (called t ret))"
  define tls' where "tls' = abtree_set_epoch (ffi_epoch (f_ffi s)) tls"
  define s' where "s' = \<lparr>f_sys = sys', f_ffi = \<lparr>raw = tree', ffi_epoch = ffi_epoch (f_ffi s) + 1\<rparr>,
    f_mem = (f_mem s)\<lparr>foreign_frees := foreign_frees (f_mem s) @ foreign_calls (take k (limbo_bag t @ retired_entries ret))\<rparr>,
    f_threads = (f_threads s)[i := (tls', t')]\<rparr>"
  have step: "ffi_act lib (i, op) s = Inr s'"
    by (simp add: ffi_act_def th s'_def k_def tls'_def ffi_update [OF table t n maintains u a] del: foreign_calls_append)
  have c: "tree_thread (n + 1) (called t ret)" using t(2) n by (intro tree_thread_called) simp_all
  then have w: "spi_ok (spi_ema (snd (drained_thread (f_sys s) (called t ret))))"
    "no_window_overflow (snd (drained_thread (f_sys s) (called t ret)))"
    using tree_thread_window [OF c] n by (simp_all add: tree_thread_def)
  note keep = after_window_keeps [OF w a]
  have bag: "limbo_bag t' = drop k (limbo_bag t @ retired_entries ret)" using keep(2) by (simp add: k_def)
  have "unat (win_writes t') + unat (win_snaps t') \<le> n + 1"
    using keep(9) c by (auto simp: tree_thread_def)
  then have tt: "tree_thread (n + 1) t'"
    using keep(1) c by (simp add: tree_thread_def bag no_owned_take_drop)
  have tls: "tl_retire_fn tls' \<noteq> None" using t(1) by (simp add: tls'_def abtree_set_epoch_def)
  have "ffi_ok (n + 1) s'" by (rule ffi_ok_update [OF ok _ tls tt]) (simp_all add: s'_def keep(6))
  moreover have "never_read t \<longrightarrow> never_read t'"
    using after_window_never_read [OF _ w(2) a] by simp
  then have "call_effect lib i op s ret k t' s'"
    using u tls maintains bag keep(4,6) a unfolding call_effect_def th s'_def
    by (cases op) (auto simp: k_def)
  ultimately show ?thesis using step by blast
qed

lemma ffi_act_ok:
  fixes s :: "('tree, 'v) ffi_state"
  assumes "ffi_ok n s" "n < 2 ^ 62 - 1" "i < length (f_threads s)"
  shows "\<exists>s' ret k t'. ffi_act lib (i, op) s = Inr s' \<and> ffi_ok (n + 1) s' \<and> call_effect lib i op s ret k t' s'"
proof -
  obtain tls t where th: "f_threads s ! i = (tls, t)" by fastforce
  then have "(tls, t) \<in> set (f_threads s)" using assms(3) by (metis nth_mem)
  then have t: "tl_retire_fn tls \<noteq> None" "tree_thread n t" "table_ok (announce_tbl (f_sys s))"
    using assms(1) by (auto simp: ffi_ok_def)
  show ?thesis
    using ffi_act_other [OF assms(1) th t(1,2)] ffi_act_maintains [OF assms(1) th t assms(2)] by (cases "maintains op")
qed

section \<open>Accounting\<close>

text \<open>Every call of a free function so far, and the nodes still in some bag.\<close>

definition pending :: "('tree, 'v) ffi_state \<Rightarrow> (free_fn \<times> addr) list" where
  "pending s = foreign_frees (f_mem s) @ concat (map (\<lambda>(tls, t). foreign_calls (limbo_bag t)) (f_threads s))"

lemma mset_concat_update:
  "i < length xss \<Longrightarrow> mset (concat (xss[i := ys])) + mset (xss ! i) = mset (concat xss) + mset ys"
proof (induction xss arbitrary: i)
  case (Cons xs xss)
  then show ?case by (cases i) (simp_all add: add.commute add.left_commute)
qed simp

lemma mset_shift: "A + d = B + Y \<Longrightarrow> x + Y = d + r \<Longrightarrow> A + x = B + (r :: 'a multiset)"
proof -
  assume "A + d = B + Y" "x + Y = d + r"
  then have "A + x + d = B + r + d" by (metis add.assoc add.commute)
  then show ?thesis by simp
qed

text \<open>The documented contract of the tree: a node is retired once. \<open>R tree\<close> is what the tree has retired so far.\<close>

definition retires_once :: "'tree abtree_lib \<Rightarrow> ('tree \<Rightarrow> addr set) \<Rightarrow> bool" where
  "retires_once lib R \<longleftrightarrow> (\<forall>op stamp i tree ok tree' ret. update_call lib op stamp i tree = (ok, tree', ret) \<longrightarrow>
     distinct (map snd ret) \<and> set (map snd ret) \<inter> R tree = {} \<and> R tree' = R tree \<union> set (map snd ret))"

lemma call_effect_pending:
  assumes "call_effect lib i op s ret k t' s'" "i < length (f_threads s)"
  shows "mset (pending s') = mset (pending s) + mset (map (\<lambda>x. (''abtree_free_node'', snd x)) ret)"
proof -
  obtain tls t where th: "f_threads s ! i = (tls, t)" by fastforce
  let ?X = "limbo_bag t @ retired_entries ret"
  let ?f = "\<lambda>(tls, t). foreign_calls (limbo_bag t)"
  obtain tls' where e: "f_threads s' = (f_threads s)[i := (tls', t')]" "limbo_bag t' = drop k ?X"
    "f_mem s' = (f_mem s)\<lparr>foreign_frees := foreign_frees (f_mem s) @ foreign_calls (take k ?X)\<rparr>"
    using assms(1) by (auto simp: call_effect_def th)
  have "mset (concat (map ?f (f_threads s'))) + mset (foreign_calls (limbo_bag t))
      = mset (concat (map ?f (f_threads s))) + mset (foreign_calls (drop k ?X))"
    using mset_concat_update [of i "map ?f (f_threads s)" "foreign_calls (drop k ?X)"] assms(2)
    by (simp add: e(1,2) map_update th)
  moreover have "mset (foreign_calls (take k ?X)) + mset (foreign_calls (drop k ?X))
      = mset (foreign_calls (limbo_bag t)) + mset (foreign_calls (retired_entries ret))"
    by (metis append_take_drop_id foreign_calls_append mset_append)
  ultimately have "mset (concat (map ?f (f_threads s'))) + mset (foreign_calls (take k ?X))
      = mset (concat (map ?f (f_threads s))) + mset (foreign_calls (retired_entries ret))"
    by (rule mset_shift)
  then show ?thesis by (simp add: pending_def e(3) ac_simps del: foreign_calls_append take_append)
qed

text \<open>An invariant that every call keeps holds after any schedule.\<close>

lemma ffi_run_induct:
  fixes s :: "('tree, 'v) ffi_state"
  assumes "ffi_ok n s" "n + length as < 2 ^ 62" "\<forall>(i, op) \<in> set as. i < length (f_threads s)" "I n s"
    and step: "\<And>n i op s s' ret k t'. ffi_ok n s \<Longrightarrow> n < 2 ^ 62 - 1 \<Longrightarrow> (i, op) \<in> set as \<Longrightarrow> i < length (f_threads s) \<Longrightarrow>
      I n s \<Longrightarrow> call_effect lib i op s ret k t' s' \<Longrightarrow> ffi_ok (n + 1) s' \<Longrightarrow> I (n + 1) s'"
  shows "\<exists>s'. ffi_run lib as s = Inr s' \<and> ffi_ok (n + length as) s' \<and> I (n + length as) s' \<and>
    length (f_threads s') = length (f_threads s)"
  using assms
proof (induction as arbitrary: n s)
  case (Cons a as)
  obtain i op where a: "a = (i, op)" by fastforce
  have n: "n < 2 ^ 62 - 1" "i < length (f_threads s)" using Cons.prems(2,3) by (auto simp: a)
  obtain s1 ret k t' where s1: "ffi_act lib (i, op) s = Inr s1" "ffi_ok (n + 1) s1" "call_effect lib i op s ret k t' s1"
    using ffi_act_ok [OF Cons.prems(1) n] by blast
  have len: "length (f_threads s1) = length (f_threads s)"
    using s1(3) by (auto simp: call_effect_def Let_def split: prod.splits)
  have I: "I (n + 1) s1" by (rule Cons.prems(5) [OF Cons.prems(1) n(1) _ n(2) Cons.prems(4) s1(3,2)]) (simp add: a)
  have "\<exists>s'. ffi_run lib as s1 = Inr s' \<and> ffi_ok (n + 1 + length as) s' \<and> I (n + 1 + length as) s' \<and>
    length (f_threads s') = length (f_threads s1)"
  proof (rule Cons.IH [OF s1(2) _ _ I])
    show "n + 1 + length as < 2 ^ 62" using Cons.prems(2) by simp
    show "\<forall>(i, op) \<in> set as. i < length (f_threads s1)" using Cons.prems(3) by (simp add: len)
  qed (rule Cons.prems(5), auto)
  then show ?case using s1(1) by (auto simp: a len)
qed auto

section \<open>Properties\<close>

text \<open>Threads just registered.\<close>

definition ffi_start :: "'tree \<Rightarrow> nat \<Rightarrow> ('tree, 'v) ffi_state" where
  "ffi_start tree n =
     (let sys = pacer_system_new\<lparr>announce_tbl := announcement_table_new\<lparr>active_count := of_nat n\<rparr>\<rparr>;
          ffi = \<lparr>raw = tree, ffi_epoch = 1\<rparr>
      in \<lparr>f_sys = sys, f_ffi = ffi, f_mem = empty_memory,
          f_threads = map (\<lambda>i. (ffi_register_thread ffi (thread_local_state_new i) glue_tls_init, thread_local_state_new i)) [0..<n]\<rparr>)"

lemma ffi_start_threads [simp]: "length (f_threads (ffi_start tree n)) = n"
  by (simp add: ffi_start_def Let_def)

lemma ffi_start_ok:
  assumes "n \<le> MAX_THREADS"
  shows "ffi_ok 0 (ffi_start tree n)" "pending (ffi_start tree n) = []" "quiet (f_sys (ffi_start tree n))"
    "(tls, t) \<in> set (f_threads (ffi_start tree n)) \<Longrightarrow> never_read t \<and> limbo_bag t = [] \<and> op_counter t = 0"
proof -
  have "unat (of_nat n :: u32) = n"
    using assms by (simp add: MAX_THREADS_def unat_of_nat take_bit_eq_mod)
  then show "ffi_ok 0 (ffi_start tree n)"
    using assms by (auto simp: ffi_ok_def ffi_start_def Let_def table_ok_def announcement_table_new_def tree_thread_def
        thread_local_state_new_def limbo_bag_new_def ffi_register_thread_def abtree_register_thread_def pacer_system_new_def)
  show "pending (ffi_start tree n) = []"
    by (simp add: pending_def ffi_start_def Let_def empty_memory_def thread_local_state_new_def limbo_bag_new_def)
  have "announced (announcement_table_new\<lparr>active_count := c\<rparr>) i = None" for i c
    by (simp add: announced_def announcement_table_new_def announcement_slot_new_def)
  then show "quiet (f_sys (ffi_start tree n))"
    by (simp add: quiet_iff ffi_start_def Let_def pacer_system_new_def)
  show "(tls, t) \<in> set (f_threads (ffi_start tree n)) \<Longrightarrow> never_read t \<and> limbo_bag t = [] \<and> op_counter t = 0"
    by (auto simp: ffi_start_def Let_def never_read_def thread_local_state_new_def limbo_bag_new_def)
qed

lemma ffi_frees_once_ok:
  fixes tree :: 'tree
  assumes "retires_once lib R" "num_threads \<le> MAX_THREADS" "\<forall>(i, op) \<in> set as. i < num_threads" "length as < 2 ^ 62"
  shows "\<exists>s :: ('tree, 'v) ffi_state. ffi_run lib as (ffi_start tree num_threads) = Inr s \<and> distinct (pending s) \<and>
    set (pending s) \<subseteq> {''abtree_free_node''} \<times> R (raw (f_ffi s))"
proof -
  let ?I = "\<lambda>n (s :: ('tree, 'v) ffi_state). distinct (pending s) \<and> set (pending s) \<subseteq> {''abtree_free_node''} \<times> R (raw (f_ffi s))"
  have "\<exists>s'. ffi_run lib as (ffi_start tree num_threads) = Inr s' \<and> ffi_ok (0 + length as) s' \<and> ?I (0 + length as) s' \<and>
    length (f_threads s') = length (f_threads (ffi_start tree num_threads :: ('tree, 'v) ffi_state))"
  proof (rule ffi_run_induct [OF ffi_start_ok(1) [OF assms(2)], where I = ?I])
    show "0 + length as < 2 ^ 62" using assms(4) by simp
    show "\<forall>(i, op) \<in> set as. i < length (f_threads (ffi_start tree num_threads))" using assms(3) by simp
    show "?I 0 (ffi_start tree num_threads)" by (simp add: ffi_start_ok(2) [OF assms(2)])
    fix n i op ret k t' and s s' :: "('tree, 'v) ffi_state"
    assume I: "?I n s" and e: "call_effect lib i op s ret k t' s'" and i: "i < length (f_threads s)"
    obtain op stamp j ok where "update_call lib op stamp j (raw (f_ffi s)) = (ok, raw (f_ffi s'), ret)"
      using e by (auto simp: call_effect_def Let_def split: prod.splits)
    then have R: "distinct (map snd ret)" "set (map snd ret) \<inter> R (raw (f_ffi s)) = {}"
      "R (raw (f_ffi s')) = R (raw (f_ffi s)) \<union> set (map snd ret)"
      using assms(1) unfolding retires_once_def by blast+
    let ?c = "map (\<lambda>x. (''abtree_free_node'', snd x)) ret"
    have m: "mset (pending s') = mset (pending s @ ?c)" using call_effect_pending [OF e i] by simp
    have "distinct ?c" using R(1) by (auto simp: distinct_map inj_on_def)
    then have "distinct (pending s @ ?c)" using I R(2) by auto
    moreover have "set (pending s') = set (pending s @ ?c)" using m by (metis set_mset_mset)
    ultimately show "?I (n + 1) s'" using mset_eq_imp_distinct_iff [OF m] I R(3) by auto
  qed
  then show ?thesis by blast
qed

text \<open>C20: No node of the tree is freed twice. If the tree retires every node at most once, then after any
  schedule of calls by up to 256 registered threads all calls have returned, and the calls made to the
  tree's free function together with the nodes still in some bag are all distinct.\<close>

theorem ffi_never_frees_twice:
  fixes tree :: 'tree
  assumes "retires_once lib R" "num_threads \<le> MAX_THREADS" "\<forall>(i, op) \<in> set as. i < num_threads" "length as < 2 ^ 62"
  shows "\<exists>s :: ('tree, 'v) ffi_state. ffi_run lib as (ffi_start tree num_threads) = Inr s \<and> distinct (pending s) \<and>
    set (pending s) \<subseteq> {''abtree_free_node''} \<times> R (raw (f_ffi s))"
  using assms by (rule ffi_frees_once_ok)

text \<open>A small tree to instantiate the parameter with: a set of keys, every change of which replaces and
  retires one node, numbered in order.\<close>

definition leaf_lib :: "(nat \<times> u64 list) abtree_lib" where
  "leaf_lib = \<lparr>lib_new = (\<lambda>n. Some (0, [])),
     lib_insert = (\<lambda>stamp i key (n, ks). if key \<in> set ks then (False, (n, ks), []) else (True, (Suc n, key # ks), [(stamp, n)])),
     lib_erase = (\<lambda>stamp i key (n, ks). if key \<in> set ks then (True, (Suc n, removeAll key ks), [(stamp, n)]) else (False, (n, ks), [])),
     lib_find = (\<lambda>i key (n, ks). key \<in> set ks)\<rparr>"

lemma leaf_lib_once: "retires_once leaf_lib (\<lambda>(n, ks). {..<n})"
  unfolding retires_once_def
proof (intro allI impI)
  fix op stamp i tree ok tree' ret
  assume "update_call leaf_lib op stamp i tree = (ok, tree', ret)"
  then show "distinct (map snd ret) \<and> set (map snd ret) \<inter> (case tree of (n, ks) \<Rightarrow> {..<n}) = {} \<and>
      (case tree' of (n, ks) \<Rightarrow> {..<n}) = (case tree of (n, ks) \<Rightarrow> {..<n}) \<union> set (map snd ret)"
    by (cases op) (auto simp: leaf_lib_def split: prod.splits if_splits)
qed

definition few_calls :: "(nat \<times> ffi_op) list" where
  "few_calls = [(0, Insert 7), (1, Remove 7), (1, Insert 8), (0, Contains 8), (0, Remove 8)]"

theorem ffi_never_frees_twice_witness:
  "\<exists>s :: (nat \<times> u64 list, nat) ffi_state. ffi_run leaf_lib few_calls (ffi_start (0, []) 2) = Inr s \<and> distinct (pending s)"
  using ffi_never_frees_twice [OF leaf_lib_once, of 2 few_calls "(0, [])"]
  by (auto simp: few_calls_def MAX_THREADS_def)

text \<open>Calls that collect: everything but the variants without maintenance.\<close>

fun collects :: "ffi_op \<Rightarrow> bool" where
  "collects (Insert_No_Gc _) = False"
| "collects (Remove_No_Gc _) = False"
| "collects _ = True"

text \<open>At most four nodes an operation, none with a first word that no drain can pass.\<close>

definition retires_few :: "'tree abtree_lib \<Rightarrow> bool" where
  "retires_few lib \<longleftrightarrow> (\<forall>op stamp i tree ok tree' ret. stamp \<noteq> u64_max \<longrightarrow>
     update_call lib op stamp i tree = (ok, tree', ret) \<longrightarrow> length ret \<le> 4 \<and> u64_max \<notin> fst ` set ret)"

text \<open>The wrapper's own clock.\<close>

definition calls_of :: "nat \<Rightarrow> ('tree, 'v) ffi_state \<Rightarrow> bool" where
  "calls_of n s \<longleftrightarrow> unat (ffi_epoch (f_ffi s)) \<le> n + 1"

lemma calls_of_step:
  assumes "calls_of n s" "n < 2 ^ 62" "call_effect lib i op s ret k t' s'"
  shows "calls_of (n + 1) s'"
proof -
  have "ffi_epoch (f_ffi s') = ffi_epoch (f_ffi s) + (if maintains op then 1 else 0)"
    using assms(3) by (auto simp: call_effect_def Let_def split: prod.splits)
  moreover have "unat (ffi_epoch (f_ffi s) + 1) = unat (ffi_epoch (f_ffi s)) + 1"
    using assms(1,2) by (intro unat_add_1 [of _ "n + 1"]) (simp_all add: calls_of_def)
  ultimately show ?thesis using assms(1) by (simp add: calls_of_def)
qed

lemma all_freed:
  assumes "never_read t" "limbo_bag t = []" "quiet sys" "length ret \<le> 4" "u64_max \<notin> fst ` set ret"
  shows "fst (drained_thread sys (called t ret)) = length ret"
proof -
  have "\<forall>e \<in> set (limbo_bag (called t ret)). fst e < safe_ts_of sys"
    using assms(2,3,5) unat_less_u64_max by (force simp: retired_entries_def safe_ts_of_none quiet_def)
  from drain_count_all [OF this] show ?thesis
    using assms(1,2,4) by (simp add: drained_thread_def Let_def never_read_def retired_entries_def)
qed

text \<open>The state between calls when no node waits.\<close>

definition all_collected :: "nat \<Rightarrow> ('tree, 'v) ffi_state \<Rightarrow> bool" where
  "all_collected n s \<longleftrightarrow> quiet (f_sys s) \<and> calls_of n s \<and> (\<forall>x \<in> set (f_threads s). never_read (snd x) \<and> limbo_bag (snd x) = [])"

lemma all_collected_start:
  assumes "n \<le> MAX_THREADS"
  shows "all_collected 0 (ffi_start tree n)"
  unfolding all_collected_def
  by (auto simp: ffi_start_ok(3) [OF assms] dest: ffi_start_ok(4) [OF assms])
    (simp add: calls_of_def ffi_start_def Let_def)

lemma all_collected_step:
  fixes s s' :: "('tree, 'v) ffi_state"
  assumes "retires_few lib" "collects op" "n < 2 ^ 62 - 1" "i < length (f_threads s)" "all_collected n s"
    and e: "call_effect lib i op s ret k t' s'"
  shows "all_collected (n + 1) s'"
proof -
  obtain tls t where th: "f_threads s ! i = (tls, t)" by fastforce
  have I: "quiet (f_sys s)" "calls_of n s" "\<forall>x \<in> set (f_threads s). never_read (snd x) \<and> limbo_bag (snd x) = []"
    using assms(5) by (simp_all add: all_collected_def)
  have t: "never_read t" "limbo_bag t = []" using bspec [OF I(3) nth_mem [OF assms(4)]] by (simp_all add: th)
  note e' = e [unfolded call_effect_def th Let_def prod.case]
  have "limbo_bag t' = []"
  proof (cases "maintains op")
    case True
    have "ffi_epoch (f_ffi s) < u64_max" using I(2) assms(3) by (intro less_u64_max [of _ "n + 1"]) (simp_all add: calls_of_def)
    then have "ffi_epoch (f_ffi s) \<noteq> u64_max" by simp
    moreover obtain ok where "update_call lib op (ffi_epoch (f_ffi s)) (of_nat (tid t)) (raw (f_ffi s)) = (ok, raw (f_ffi s'), ret)"
      using e' True by auto
    ultimately have "length ret \<le> 4" "u64_max \<notin> fst ` set ret"
      using assms(1) unfolding retires_few_def by blast+
    then show ?thesis using all_freed [OF t I(1)] e' True t(2) by (simp add: retired_entries_def)
  next
    case False
    with assms(2) have "ret = []" using e' by (cases op) auto
    then show ?thesis using e' False t(2) by (simp add: retired_entries_def)
  qed
  moreover obtain tls' where ths: "f_threads s' = (f_threads s)[i := (tls', t')]" using e' by blast
  ultimately have "\<forall>x \<in> set (f_threads s'). never_read (snd x) \<and> limbo_bag (snd x) = []"
    using I(3) e' t(1) set_update_subset_insert [of "f_threads s" i "(tls', t')"] by auto
  moreover have "quiet (f_sys s')" using I(1) e' by (simp add: quiet_def)
  moreover have "calls_of (n + 1) s'" using calls_of_step [OF I(2) _ e] assms(3) by simp
  ultimately show ?thesis by (simp add: all_collected_def)
qed


lemma leaf_lib_few: "retires_few leaf_lib"
  unfolding retires_few_def
proof (intro allI impI)
  fix op stamp i tree ok tree' ret
  assume "stamp \<noteq> u64_max" "update_call leaf_lib op stamp i tree = (ok, tree', ret)"
  then show "length ret \<le> 4 \<and> u64_max \<notin> fst ` set ret"
    by (cases op) (auto simp: leaf_lib_def split: prod.splits if_splits)
qed


text \<open>The collector's epoch moves once a window, as the stride of an index of zero divides the window.\<close>

lemma stride_zero: "compute_epoch_stride (Fin 0) = 16"
proof -
  have "stride_rat 0 = 16" by (simp add: stride_rat_def rne_grid on_grid_numeral)
  then have "uint (compute_epoch_stride (Fin 0)) = 16"
    using uint_stride(1) [of 0] by (simp add: round_away_def)
  then show ?thesis by (simp add: word_uint_eq_iff)
qed

lemma window_epoch:
  assumes "never_read t" "no_window_overflow t" "after_window sys t = (sys', t')"
  shows "global_epoch sys' = global_epoch sys + (if unat (op_counter t) mod 256 = 0 then 1 else 0)"
proof (cases "window_ends t")
  case True
  obtain sys1 t1 where r: "resample_spi sys t = (sys1, t1)" by fastforce
  have s: "spi_ok (spi_ema t)" using assms(1) by (simp add: never_read_def)
  note k = resample_keeps [OF s assms(2) r]
  have b: "bookkeep sys1 t1 = (sys', t')" using assms(3) True r by (simp add: after_window_def window_ends_def)
  have "never_read t'" by (rule after_window_never_read [OF assms])
  then have m: "next_mode t1 \<noteq> ConservativeHold" "spi_ema t1 = Fin 0"
    using bookkeep_keeps [OF b] by (auto simp: never_read_def)
  have "unat (op_counter t) mod 16 = 0"
    using True mod_mod_cancel [of 16 256 "unat (op_counter t)"] by (simp add: window_ends_iff)
  then have "strides t1"
    using k(4) m(2) by (simp add: strides_def stride_zero unat_eq_0 [symmetric] unat_mod_distrib)
  then show ?thesis using b m(1) k(9) True by (auto simp: bookkeep_def window_ends_iff)
next
  case False
  then show ?thesis using assms(3) by (simp add: after_window_def window_ends_def [symmetric]) (simp add: window_ends_iff)
qed

lemma sum_list_update_nat:
  "i < length xs \<Longrightarrow> sum_list (map f (xs[i := y])) + f (xs ! i) = sum_list (map f xs) + (f y :: nat)"
proof (induction xs arbitrary: i)
  case (Cons x xs)
  then show ?case by (cases i) (auto simp: add.commute add.left_commute)
qed simp

definition ops_of :: "glue_tls \<times> thread_local_state \<Rightarrow> nat" where
  "ops_of x = unat (op_counter (snd x))"

text \<open>The two clocks after calls of the threads, each of which has made at most \<open>n\<close>.\<close>

definition two_clocks :: "nat \<Rightarrow> ('tree, 'v) ffi_state \<Rightarrow> bool" where
  "two_clocks n s \<longleftrightarrow> (\<forall>x \<in> set (f_threads s). never_read (snd x) \<and> ops_of x \<le> n) \<and>
     ffi_epoch (f_ffi s) = of_nat (1 + (\<Sum>x \<leftarrow> f_threads s. ops_of x)) \<and>
     global_epoch (f_sys s) = of_nat (1 + (\<Sum>x \<leftarrow> f_threads s. ops_of x div 256))"

lemma two_clocks_start:
  assumes "n \<le> MAX_THREADS"
  shows "two_clocks 0 (ffi_start tree n :: ('tree, 'v) ffi_state)"
proof -
  define s0 :: "('tree, 'v) ffi_state" where "s0 = ffi_start tree n"
  have z: "(\<Sum>x \<leftarrow> f_threads s0. ops_of x) = 0" "(\<Sum>x \<leftarrow> f_threads s0. ops_of x div 256) = 0"
    by (simp_all add: s0_def ffi_start_def Let_def ops_of_def thread_local_state_new_def o_def)
  have e: "of_nat (1 + (\<Sum>x \<leftarrow> f_threads s0. ops_of x)) = (1 :: u64)"
    "of_nat (1 + (\<Sum>x \<leftarrow> f_threads s0. ops_of x div 256)) = (1 :: u64)"
    unfolding z by simp_all
  have "\<forall>x \<in> set (f_threads s0). never_read (snd x) \<and> ops_of x \<le> 0"
    unfolding s0_def by (auto simp: ops_of_def dest: ffi_start_ok(4) [OF assms])
  moreover have "ffi_epoch (f_ffi s0) = 1" "global_epoch (f_sys s0) = 1"
    by (simp_all add: s0_def ffi_start_def Let_def pacer_system_new_def)
  ultimately show ?thesis unfolding two_clocks_def s0_def [symmetric] e by blast
qed

text \<open>What a call does to the two clocks and to the count of its thread.\<close>

lemma call_ticks:
  fixes s s' :: "('tree, 'v) ffi_state"
  assumes "ffi_ok n s" "n < 2 ^ 62 - 1" "(tls, t) \<in> set (f_threads s)" "f_threads s ! i = (tls, t)" "collects op"
    and "never_read t" "ops_of (tls, t) \<le> n" and e: "call_effect lib i op s ret k t' s'"
  defines "d \<equiv> if maintains op then 1 else (0 :: nat)"
  shows "ops_of (tls', t') = ops_of (tls, t) + d" "ffi_epoch (f_ffi s') = ffi_epoch (f_ffi s) + of_nat d"
    "global_epoch (f_sys s') = global_epoch (f_sys s) + of_nat ((ops_of (tls, t) + d) div 256 - ops_of (tls, t) div 256)"
proof -
  note e' = e [unfolded call_effect_def assms(4) Let_def prod.case]
  have up: "unat (op_counter t + 1) = unat (op_counter t) + 1"
    using assms(2,7) by (intro unat_add_1 [of _ n]) (simp_all add: ops_of_def)
  show "ops_of (tls', t') = ops_of (tls, t) + d"
    using e' up assms(5) by (cases op) (auto simp: ops_of_def d_def)
  show "ffi_epoch (f_ffi s') = ffi_epoch (f_ffi s) + of_nat d" using e' by (simp add: d_def)
  show "global_epoch (f_sys s') = global_epoch (f_sys s) + of_nat ((ops_of (tls, t) + d) div 256 - ops_of (tls, t) div 256)"
  proof (cases "maintains op")
    case True
    have "tree_thread n t" using assms(1,3) by (auto simp: ffi_ok_def)
    then have tc: "tree_thread (n + 1) (called t ret)" using assms(2) by (intro tree_thread_called) simp_all
    obtain t1 where a: "after_window (f_sys s) (snd (drained_thread (f_sys s) (called t ret))) = (f_sys s', t1)"
      using e' True by blast
    have w: "never_read (snd (drained_thread (f_sys s) (called t ret)))"
      "no_window_overflow (snd (drained_thread (f_sys s) (called t ret)))"
      using assms(2,6) tree_thread_window [OF tc] by simp_all
    show ?thesis using window_epoch [OF w a] up True by (simp add: ops_of_def d_def div_Suc)
  qed (use e' in \<open>simp add: d_def\<close>)
qed

lemma two_clocks_step:
  fixes s s' :: "('tree, 'v) ffi_state"
  assumes "ffi_ok n s" "n < 2 ^ 62 - 1" "i < length (f_threads s)" "collects op" "two_clocks n s"
    and e: "call_effect lib i op s ret k t' s'"
  shows "two_clocks (n + 1) s'"
proof -
  obtain tls t where th: "f_threads s ! i = (tls, t)" by fastforce
  then have mem: "(tls, t) \<in> set (f_threads s)" using nth_mem [OF assms(3)] by simp
  have I: "\<forall>x \<in> set (f_threads s). never_read (snd x) \<and> ops_of x \<le> n"
    "ffi_epoch (f_ffi s) = of_nat (1 + (\<Sum>x \<leftarrow> f_threads s. ops_of x))"
    "global_epoch (f_sys s) = of_nat (1 + (\<Sum>x \<leftarrow> f_threads s. ops_of x div 256))"
    using assms(5) unfolding two_clocks_def by blast+
  have nr: "never_read t" "ops_of (tls, t) \<le> n" using bspec [OF I(1) mem] by simp_all
  note e' = e [unfolded call_effect_def th Let_def prod.case]
  obtain tls' where ths: "f_threads s' = (f_threads s)[i := (tls', t')]" using e' by blast
  define d where "d = (if maintains op then 1 else (0 :: nat))"
  note ticks = call_ticks(1) [OF assms(1,2) mem th assms(4) nr e, of tls', folded d_def]
    call_ticks(2,3) [OF assms(1,2) mem th assms(4) nr e, folded d_def]
  have le: "ops_of (tls, t) div 256 \<le> (ops_of (tls, t) + d) div 256" by (rule div_le_mono) simp
  note sums = sum_list_update_nat [OF assms(3), of ops_of "(tls', t')"]
    sum_list_update_nat [OF assms(3), of "\<lambda>x. ops_of x div 256" "(tls', t')"]
  have "sum_list (map ops_of (f_threads s')) = sum_list (map ops_of (f_threads s)) + d"
    using sums(1) ticks(1) by (simp add: ths th)
  moreover have "sum_list (map (\<lambda>x. ops_of x div 256) (f_threads s')) =
      sum_list (map (\<lambda>x. ops_of x div 256) (f_threads s)) + ((ops_of (tls, t) + d) div 256 - ops_of (tls, t) div 256)"
    using sums(2) le unfolding ths th ticks(1) by linarith
  moreover have "d \<le> 1" by (simp add: d_def)
  then have "\<forall>x \<in> set (f_threads s'). never_read (snd x) \<and> ops_of x \<le> n + 1"
    using I(1) nr e' ticks(1) set_update_subset_insert [of "f_threads s" i "(tls', t')"] unfolding ths by fastforce
  ultimately show ?thesis unfolding two_clocks_def using ticks(2,3) I(2,3) by simp
qed

text \<open>The program has two clocks. The wrapper stamps the nodes from its own epoch, which moves with every
  update; the snapshots of the collector are stamped from the global epoch, which the updates move only
  once in 256 of a thread's operations. So after any schedule of updates the collector's clock, and with
  it the timestamp of any snapshot, lags behind the nodes' by a factor of 256.\<close>

theorem ffi_clocks_drift:
  fixes tree :: 'tree
  assumes "num_threads \<le> MAX_THREADS" "\<forall>(i, op) \<in> set as. i < num_threads \<and> collects op" "length as < 2 ^ 62"
  shows "\<exists>s :: ('tree, 'v) ffi_state. ffi_run lib as (ffi_start tree num_threads) = Inr s \<and>
    ffi_epoch (f_ffi s) = of_nat (1 + (\<Sum>x \<leftarrow> f_threads s. ops_of x)) \<and>
    global_epoch (f_sys s) = of_nat (1 + (\<Sum>x \<leftarrow> f_threads s. ops_of x div 256))"
proof -
  let ?s0 = "ffi_start tree num_threads :: ('tree, 'v) ffi_state"
  have "\<exists>s'. ffi_run lib as ?s0 = Inr s' \<and> ffi_ok (0 + length as) s' \<and> two_clocks (0 + length as) s' \<and>
    length (f_threads s') = length (f_threads ?s0)"
  proof (rule ffi_run_induct [OF ffi_start_ok(1) [OF assms(1)], where I = two_clocks], goal_cases)
    case 3
    show ?case by (rule two_clocks_start [OF assms(1)])
  next
    case (4 n i op s s' ret k t')
    then have "collects op" using assms(2) by blast
    then show ?case by (rule two_clocks_step [OF 4(1,2,4) _ 4(5,6)])
  qed (use assms in auto)
  then show ?thesis unfolding two_clocks_def by blast
qed

theorem ffi_clocks_drift_witness:
  "\<exists>s :: (nat \<times> u64 list, nat) ffi_state. ffi_run leaf_lib few_calls (ffi_start (0, []) 2) = Inr s \<and>
     ffi_epoch (f_ffi s) = of_nat (1 + (\<Sum>x \<leftarrow> f_threads s. ops_of x))"
  using ffi_clocks_drift [of 2 few_calls leaf_lib "(0, [])"]
  by (fastforce simp: few_calls_def MAX_THREADS_def)

end
