(* ===== verification/Tree_Bench.thy ===== *)
theory Tree_Bench
  imports Abtree_Ffi Workload
begin

text \<open>
  The benchmark on the tree, \<open>src/src/bench.rs\<close>: \<open>run_once\<close> fills the tree, then lets the threads make
  random updates under one of three strategies, and reports the throughput and the largest backlog. The
  threads interleave one iteration at a time; a schedule says which thread iterates next and whether its
  clock has passed the warm-up. The tree is the parameter of \<open>Abtree_Ffi\<close>.
\<close>

section \<open>Constants and random numbers\<close>

definition KEY_RANGE :: u64 where "KEY_RANGE = 20000000"

definition INSERT_PCT :: f64 where "INSERT_PCT = f64_lit (50 / 100)"

definition RUN_SECS :: f64 where "RUN_SECS = f64_lit 5"

definition lcg :: "u64 \<Rightarrow> u64" where
  "lcg r = r * 6364136223846793005 + 1442695040888963407"

text \<open>The key and the kind of operation an iteration draws.\<close>

definition tb_draw :: "u64 \<Rightarrow> u64 \<times> bool \<times> u64" where
  "tb_draw rng =
     (let rng1 = lcg rng;
          key = rng1 mod KEY_RANGE;
          rng2 = lcg rng1;
          is_insert = (rng2 AND 0xFF < f64_to_u64 (INSERT_PCT * f64_lit 256))
      in (key, is_insert, rng2))"

section \<open>One iteration\<close>

datatype strat = Strat_Batch_Ebr | Strat_Token_Af | Strat_Pacer_Discrete

record run_result =
  mops :: f64
  peak_limbo :: nat

record tb_thread =
  tb_tls :: glue_tls
  tb_t :: thread_local_state
  tb_rng :: u64
  tb_local :: u64
  tb_ebr_ops :: u64

record ('tree, 'v) tb_state =
  tb_sys :: pacer_system
  tb_ffi :: "'tree abtree_ffi"
  tb_mem :: "'v memory"
  tb_ebr_ep :: u64
  tb_peak :: u64
  tb_threads :: "tb_thread list"

text \<open>An update without maintenance, under a timestamp drawn from the benchmark's own epoch.\<close>

definition tb_no_gc ::
  "'tree abtree_lib \<Rightarrow> bool \<Rightarrow> u64 \<Rightarrow> u64 \<Rightarrow> ('tree, 'v) ffi_call \<Rightarrow> ('tree, 'v) ffi_call" where
  "tb_no_gc lib is_insert key ts = (\<lambda>(sys, ffi, tls, t, m).
     let c = (sys, ffi, abtree_set_epoch ts tls, t, m)
     in snd (if is_insert then ffi_insert_no_gc lib key c else ffi_remove_no_gc lib key c))"

text \<open>Loading the epoch and exchanging it for its successor, in one piece.\<close>

definition ebr_bump :: "u64 \<Rightarrow> u64" where
  "ebr_bump ep = (let e = ep in if ep = e then e + 1 else ep)"

fun tb_update ::
  "strat \<Rightarrow> 'tree abtree_lib \<Rightarrow> bool \<Rightarrow> u64 \<Rightarrow> u64 \<times> u64 \<times> ('tree, 'v) ffi_call
    \<Rightarrow> (u64 \<times> u64 \<times> ('tree, 'v) ffi_call) res" where
  "tb_update Strat_Pacer_Discrete lib is_insert key (ep, ebr_ops, c) =
     bind_res (if is_insert then ffi_insert lib key c else ffi_remove lib key c) (\<lambda>(r, c'). Inr (ep, ebr_ops, c'))"
| "tb_update Strat_Batch_Ebr lib is_insert key (ep, ebr_ops, c) =
     (let ep1 = ep + 1;
          (sys, ffi, tls, t, m) = tb_no_gc lib is_insert key ep c;
          ebr_ops1 = ebr_ops + 1
      in if ebr_ops1 mod WINDOW_SIZE = 0
         then (let safe = saturating_sub ep1 2
               in bind_res (drain_bag t safe usize_max m) (\<lambda>(n, t', m').
                    Inr (ebr_bump ep1, ebr_ops1, sys, ffi, tls, t', m')))
         else Inr (ep1, ebr_ops1, sys, ffi, tls, t, m))"
| "tb_update Strat_Token_Af lib is_insert key (ep, ebr_ops, c) =
     (let ep1 = ep + 1;
          (sys, ffi, tls, t, m) = tb_no_gc lib is_insert key ep c;
          safe = saturating_sub ep1 2
      in bind_res (drain_bag t safe 1 m) (\<lambda>(n, t', m').
           let ebr_ops1 = ebr_ops + 1;
               ep2 = (if ebr_ops1 mod WINDOW_SIZE = 0 then ebr_bump ep1 else ep1)
           in Inr (ep2, ebr_ops1, sys, ffi, tls, t', m')))"

definition tb_iter ::
  "strat \<Rightarrow> 'tree abtree_lib \<Rightarrow> nat \<Rightarrow> bool \<Rightarrow> ('tree, 'v) tb_state \<Rightarrow> ('tree, 'v) tb_state res" where
  "tb_iter strat lib i counting s =
     (let th = tb_threads s ! i;
          (key, is_insert, rng') = tb_draw (tb_rng th)
      in bind_res (tb_update strat lib is_insert key
             (tb_ebr_ep s, tb_ebr_ops th, tb_sys s, tb_ffi s, tb_tls th, tb_t th, tb_mem s))
           (\<lambda>(ep', ebr_ops', sys', ffi', tls', t', m').
              let th' = \<lparr>tb_tls = tls', tb_t = t', tb_rng = rng',
                         tb_local = (if counting then tb_local th + 1 else tb_local th), tb_ebr_ops = ebr_ops'\<rparr>;
                  l = of_nat (limbo_len (limbo_bag t'));
                  peak' = (if tb_peak s < l then max (tb_peak s) l else tb_peak s)
              in Inr \<lparr>tb_sys = sys', tb_ffi = ffi', tb_mem = m', tb_ebr_ep = ep', tb_peak = peak',
                      tb_threads = (tb_threads s)[i := th']\<rparr>))"

fun tb_loop :: "strat \<Rightarrow> 'tree abtree_lib \<Rightarrow> (nat \<times> bool) list \<Rightarrow> ('tree, 'v) tb_state \<Rightarrow> ('tree, 'v) tb_state res" where
  "tb_loop strat lib [] s = Inr s"
| "tb_loop strat lib ((i, counting) # sched) s = bind_res (tb_iter strat lib i counting s) (tb_loop strat lib sched)"

section \<open>The whole run\<close>

text \<open>The insertions that fill the tree.\<close>

fun prepopulate :: "'tree abtree_lib \<Rightarrow> nat \<Rightarrow> u64 \<Rightarrow> ('tree, 'v) ffi_call \<Rightarrow> ('tree, 'v) ffi_call res" where
  "prepopulate lib 0 rng c = Inr c"
| "prepopulate lib (Suc n) rng c =
     (let rng1 = lcg rng
      in bind_res (ffi_insert lib (rng1 mod KEY_RANGE) c) (\<lambda>(r, c'). prepopulate lib n rng1 c'))"

fun tb_spawn :: "nat \<Rightarrow> nat \<Rightarrow> 'tree abtree_ffi \<Rightarrow> pacer_system \<Rightarrow> (pacer_system \<times> tb_thread list) res" where
  "tb_spawn tidx 0 ffi sys = Inr (sys, [])"
| "tb_spawn tidx (Suc n) ffi sys =
     (let (sys1, r) = register_thread sys in
      bind_res r (\<lambda>i.
        let t = thread_local_state_new i;
            th = \<lparr>tb_tls = ffi_register_thread ffi t glue_tls_init, tb_t = t,
                  tb_rng = (of_nat tidx * 2654435761) XOR 0xdeadbeef00000000, tb_local = 0, tb_ebr_ops = 0\<rparr>
        in bind_res (tb_spawn (Suc tidx) n ffi sys1) (\<lambda>(sys2, ths). Inr (sys2, th # ths))))"

text \<open>At its end a thread empties its bag; the operations it counted are added up.\<close>

fun tb_finish :: "tb_thread list \<Rightarrow> 'v memory \<Rightarrow> (u64 \<times> tb_thread list \<times> 'v memory) res" where
  "tb_finish [] m = Inr (0, [], m)"
| "tb_finish (th # ths) m =
     bind_res (drain_bag (tb_t th) u64_max usize_max m) (\<lambda>(n, t', m1).
       bind_res (tb_finish ths m1) (\<lambda>(tot, ths', m2). Inr (tot + tb_local th, th\<lparr>tb_t := t'\<rparr> # ths', m2)))"

text \<open>Up to the start of the threads, and from there.\<close>

definition run_setup :: "'tree abtree_lib \<Rightarrow> nat \<Rightarrow> ('tree, 'v) tb_state res" where
  "run_setup lib nthreads =
     bind_res (abtree_ffi_new lib (nthreads + 1)) (\<lambda>ffi.
       let (sys, r) = register_thread pacer_system_new in
       bind_res r (\<lambda>pre_tid.
         let t = thread_local_state_new pre_tid;
             tls = ffi_register_thread ffi t glue_tls_init
         in bind_res (prepopulate lib (unat (KEY_RANGE div 2)) 0xfeedbeefcafe (sys, ffi, tls, t, empty_memory))
              (\<lambda>(sys1, ffi1, tls1, t1, m1).
                bind_res (drain_bag t1 u64_max usize_max m1) (\<lambda>(n, t2, m2).
                  bind_res (tb_spawn 0 nthreads ffi1 sys1) (\<lambda>(sys2, ths).
                    Inr \<lparr>tb_sys = sys2, tb_ffi = ffi1, tb_mem = m2, tb_ebr_ep = 1, tb_peak = 0, tb_threads = ths\<rparr>)))))"

definition run_once :: "strat \<Rightarrow> 'tree abtree_lib \<Rightarrow> nat \<Rightarrow> (nat \<times> bool) list \<Rightarrow> (run_result \<times> ('tree, 'v) tb_state) res" where
  "run_once strat lib nthreads sched =
     bind_res (run_setup lib nthreads) (\<lambda>s0.
       bind_res (tb_loop strat lib sched s0) (\<lambda>s.
         bind_res (tb_finish (tb_threads s) (tb_mem s)) (\<lambda>(ops, ths, m).
           Inr (\<lparr>mops = f64_of_u64 ops / RUN_SECS / f64_lit 1000000, peak_limbo = unat (tb_peak s)\<rparr>,
                s\<lparr>tb_threads := ths, tb_mem := m\<rparr>))))"

section \<open>What an iteration does\<close>

text \<open>The update of one thread: what it passes to the tree, what it retires, and how many entries of its bag it
  frees.\<close>

fun baseline_budget :: "strat \<Rightarrow> u64 \<Rightarrow> nat" where
  "baseline_budget Strat_Batch_Ebr ebr_ops = (if ebr_ops mod WINDOW_SIZE = 0 then usize_max else 0)"
| "baseline_budget Strat_Token_Af ebr_ops = 1"
| "baseline_budget Strat_Pacer_Discrete ebr_ops = 0"

definition update_effect ::
  "strat \<Rightarrow> 'tree abtree_lib \<Rightarrow> u64 \<Rightarrow> u64 \<Rightarrow> ('tree, 'v) ffi_call \<Rightarrow> u64 \<Rightarrow> ('tree, 'v) ffi_call
    \<Rightarrow> nat \<Rightarrow> (u64 \<times> addr) list \<Rightarrow> bool" where
  "update_effect strat lib ep ebr_ops = (\<lambda>(sys, ffi, tls, t, m) ep' (sys', ffi', tls', t', m') k ret.
     announce_tbl sys' = announce_tbl sys \<and> tl_retire_fn tls' \<noteq> None \<and>
     (\<exists>op ok. update_call lib op (if strat = Strat_Pacer_Discrete then ffi_epoch ffi else ep) (of_nat (tid t)) (raw ffi)
        = (ok, raw ffi', ret)) \<and>
     limbo_bag t' = drop k (limbo_bag t @ retired_entries ret) \<and>
     m' = m\<lparr>foreign_frees := foreign_frees m @ foreign_calls (take k (limbo_bag t @ retired_entries ret))\<rparr> \<and>
     ffi_epoch ffi' = ffi_epoch ffi + (if strat = Strat_Pacer_Discrete then 1 else 0) \<and>
     (never_read t \<longrightarrow> never_read t') \<and>
     (if strat = Strat_Pacer_Discrete then ep' = ep \<and> k = fst (drained_thread sys (called t ret))
      else (ep' = ep + 1 \<or> ep' = ep + 2) \<and>
        k = length (drained (limbo_bag t @ retired_entries ret) (saturating_sub (ep + 1) 2) (baseline_budget strat (ebr_ops + 1)))))"

lemma ffi_call_ok:
  fixes m :: "'v memory"
  assumes "table_ok (announce_tbl sys)" "tl_retire_fn tls \<noteq> None" "tree_thread n t" "n < 2 ^ 62 - 1"
  shows "\<exists>b sys' ffi' tls' t' m' ret k. ffi_step lib op (sys, ffi, tls, t, m) = Inr (b, sys', ffi', tls', t', m') \<and>
    tree_thread (n + 1) t' \<and> tl_retire_fn tls' \<noteq> None \<and>
    call_effect lib 0 op \<lparr>f_sys = sys, f_ffi = ffi, f_mem = m, f_threads = [(tls, t)]\<rparr> ret k t'
      \<lparr>f_sys = sys', f_ffi = ffi', f_mem = m', f_threads = [(tls', t')]\<rparr>"
proof -
  let ?s = "\<lparr>f_sys = sys, f_ffi = ffi, f_mem = m, f_threads = [(tls, t)]\<rparr>"
  have "ffi_ok n ?s" using assms(1-3) by (simp add: ffi_ok_def)
  from ffi_act_ok [OF this assms(4), of 0 lib op] obtain s' ret k t' where
    s: "ffi_act lib (0, op) ?s = Inr s'" "ffi_ok (n + 1) s'" "call_effect lib 0 op ?s ret k t' s'"
    by auto
  obtain b sys' ffi' tls' t2 m' where
    r: "ffi_step lib op (sys, ffi, tls, t, m) = Inr (b, sys', ffi', tls', t2, m')"
    "s' = \<lparr>f_sys = sys', f_ffi = ffi', f_mem = m', f_threads = [(tls', t2)]\<rparr>"
    using s(1) by (auto simp: ffi_act_def bind_res_Inr_iff)
  moreover have "t2 = t'" using s(3) r(2) by (auto simp: call_effect_def)
  ultimately show ?thesis using s(2,3) by (auto simp: ffi_ok_def)
qed

lemma drain_foreign:
  fixes m :: "'v memory" and safe :: u64 and budget :: nat
  assumes "tree_thread n t"
  defines "k \<equiv> length (drained (limbo_bag t) safe budget)"
  shows "drain_bag t safe budget m = Inr (k, t\<lparr>limbo_bag := drop k (limbo_bag t)\<rparr>,
      m\<lparr>foreign_frees := foreign_frees m @ foreign_calls (take k (limbo_bag t))\<rparr>)"
    and "tree_thread n (t\<lparr>limbo_bag := drop k (limbo_bag t)\<rparr>)"
  using assms(1) drain_bag_total [of t m safe budget]
  by (auto simp: tree_thread_def free_foreign no_owned_take_drop k_def)

text \<open>What the update without maintenance does.\<close>

definition unmaintained :: "thread_local_state \<Rightarrow> (u64 \<times> addr) list \<Rightarrow> thread_local_state" where
  "unmaintained t ret = t\<lparr>op_counter := op_counter t + 1, limbo_bag := limbo_bag t @ retired_entries ret\<rparr>"

lemma no_gc_effect:
  fixes m :: "'v memory"
  assumes "tl_retire_fn tls \<noteq> None"
  shows "\<exists>op ok tree' ret. update_call lib op ts (of_nat (tid t)) (raw ffi) = (ok, tree', ret) \<and>
    tb_no_gc lib is_insert key ts (sys, ffi, tls, t, m)
      = (sys, ffi\<lparr>raw := tree'\<rparr>, abtree_set_epoch ts tls, unmaintained t ret, m)"
proof -
  have tls: "tl_retire_fn (abtree_set_epoch ts tls) \<noteq> None" "tl_epoch_ptr (abtree_set_epoch ts tls) = ts"
    using assms by (simp_all add: abtree_set_epoch_def)
  define op where "op = (if is_insert then Insert_No_Gc key else Remove_No_Gc key)"
  obtain ok tree' ret where u: "update_call lib op ts (of_nat (tid t)) (raw ffi) = (ok, tree', ret)"
    by (metis prod_cases3)
  have no: "\<not> maintains op" by (simp add: op_def)
  have st: "ffi_step lib op (sys, ffi, abtree_set_epoch ts tls, t, m)
      = Inr (ok, sys, ffi\<lparr>raw := tree'\<rparr>, abtree_set_epoch ts tls, unmaintained t ret, m)"
    using ffi_other [OF tls(1) no, unfolded tls(2), OF u, of sys m] by (simp add: op_def unmaintained_def)
  have "tb_no_gc lib is_insert key ts (sys, ffi, tls, t, m)
      = (sys, ffi\<lparr>raw := tree'\<rparr>, abtree_set_epoch ts tls, unmaintained t ret, m)"
    using st by (simp add: tb_no_gc_def op_def Let_def split: if_splits)
  with u show ?thesis by blast
qed

lemma unmaintained_keeps:
  "tree_thread n t \<Longrightarrow> tree_thread (n + 1) (unmaintained t ret)"
  "limbo_bag (unmaintained t ret) = limbo_bag t @ retired_entries ret"
  "never_read (unmaintained t ret) = never_read t"
  by (simp_all add: unmaintained_def tree_thread_def never_read_def)

lemma never_read_bag [simp]: "never_read (t\<lparr>limbo_bag := q\<rparr>) = never_read t"
  by (simp add: never_read_def)

lemma drained_0 [simp]: "drained q s 0 = []"
  by (simp add: drained_def)

lemma bump [simp]: "ebr_bump ep = ep + 1"
  by (simp add: ebr_bump_def)

lemma tb_update_pacer:
  fixes m :: "'v memory"
  assumes "table_ok (announce_tbl sys)" "tl_retire_fn tls \<noteq> None" "tree_thread n t" "n < 2 ^ 62 - 1"
  shows "\<exists>ep' sys' ffi' tls' t' m' k ret.
    tb_update Strat_Pacer_Discrete lib is_insert key (ep, ebr_ops, sys, ffi, tls, t, m)
      = Inr (ep', ebr_ops, sys', ffi', tls', t', m') \<and>
    tree_thread (n + 1) t' \<and>
    update_effect Strat_Pacer_Discrete lib ep ebr_ops (sys, ffi, tls, t, m) ep' (sys', ffi', tls', t', m') k ret"
proof -
  define op where "op = (if is_insert then Insert key else Remove key)"
  obtain b sys' ffi' tls' t' m' ret k where r: "ffi_step lib op (sys, ffi, tls, t, m) = Inr (b, sys', ffi', tls', t', m')"
    "tree_thread (n + 1) t'" "tl_retire_fn tls' \<noteq> None"
    "call_effect lib 0 op \<lparr>f_sys = sys, f_ffi = ffi, f_mem = m, f_threads = [(tls, t)]\<rparr> ret k t'
      \<lparr>f_sys = sys', f_ffi = ffi', f_mem = m', f_threads = [(tls', t')]\<rparr>"
    using ffi_call_ok [OF assms, of lib op ffi m] by (elim exE conjE) (rule that)
  have "(if is_insert then ffi_insert lib key c else ffi_remove lib key c) = ffi_step lib op c" for c :: "('a, 'v) ffi_call"
    by (simp add: op_def)
  then have "tb_update Strat_Pacer_Discrete lib is_insert key (ep, ebr_ops, sys, ffi, tls, t, m) = Inr (ep, ebr_ops, sys', ffi', tls', t', m')"
    using r(1) by simp
  moreover have "maintains op" by (simp add: op_def)
  then have "update_effect Strat_Pacer_Discrete lib ep ebr_ops (sys, ffi, tls, t, m) ep (sys', ffi', tls', t', m') k ret"
    using r(3,4) unfolding update_effect_def call_effect_def by auto
  ultimately show ?thesis using r(2) by auto
qed

lemma tb_update_baseline:
  fixes m :: "'v memory"
  assumes "tl_retire_fn tls \<noteq> None" "tree_thread n t" and strat: "strat \<noteq> Strat_Pacer_Discrete"
  shows "\<exists>ep' sys' ffi' tls' t' m' k ret.
    tb_update strat lib is_insert key (ep, ebr_ops, sys, ffi, tls, t, m)
      = Inr (ep', ebr_ops + 1, sys', ffi', tls', t', m') \<and>
    tree_thread (n + 1) t' \<and>
    update_effect strat lib ep ebr_ops (sys, ffi, tls, t, m) ep' (sys', ffi', tls', t', m') k ret"
proof -
  obtain op ok tree' ret where u: "update_call lib op ep (of_nat (tid t)) (raw ffi) = (ok, tree', ret)"
    "tb_no_gc lib is_insert key ep (sys, ffi, tls, t, m)
      = (sys, ffi\<lparr>raw := tree'\<rparr>, abtree_set_epoch ep tls, unmaintained t ret, m)"
    using no_gc_effect [OF assms(1), where lib = lib and ts = ep and t = t and ffi = ffi and is_insert = is_insert
      and key = key and sys = sys and m = m]
    by (elim exE conjE) (rule that)
  let ?t = "unmaintained t ret" and ?safe = "saturating_sub (ep + 1) 2"
  have tt: "tree_thread (n + 1) ?t" using assms(2) by (rule unmaintained_keeps)
  define k where "k = length (drained (limbo_bag t @ retired_entries ret) ?safe (baseline_budget strat (ebr_ops + 1)))"
  note d = drain_foreign(1) [OF tt, where safe = ?safe and budget = "baseline_budget strat (ebr_ops + 1)" and m = m,
      unfolded unmaintained_keeps(2), folded k_def]
    drain_foreign(2) [OF tt, where safe = ?safe and budget = "baseline_budget strat (ebr_ops + 1)",
      unfolded unmaintained_keeps(2), folded k_def]
  let ?t' = "?t\<lparr>limbo_bag := drop k (limbo_bag t @ retired_entries ret)\<rparr>"
  let ?m' = "m\<lparr>foreign_frees := foreign_frees m @ foreign_calls (take k (limbo_bag t @ retired_entries ret))\<rparr>"
  define ep' where "ep' = (if (ebr_ops + 1) mod WINDOW_SIZE = 0 then ep + 2 else ep + 1)"
  have "tb_update strat lib is_insert key (ep, ebr_ops, sys, ffi, tls, t, m)
      = Inr (ep', ebr_ops + 1, sys, ffi\<lparr>raw := tree'\<rparr>, abtree_set_epoch ep tls, ?t', ?m')"
  proof (cases strat)
    case Strat_Token_Af
    with d(1) show ?thesis by (simp add: u(2) ep'_def Let_def)
  next
    case Strat_Batch_Ebr
    show ?thesis
    proof (cases "(ebr_ops + 1) mod WINDOW_SIZE = 0")
      case True
      with d(1) Strat_Batch_Ebr show ?thesis by (simp add: u(2) ep'_def Let_def)
    next
      case False
      then have "k = 0" using Strat_Batch_Ebr by (simp add: k_def)
      moreover have "?t\<lparr>limbo_bag := limbo_bag t @ retired_entries ret\<rparr> = ?t" by (simp add: unmaintained_def)
      ultimately show ?thesis using False Strat_Batch_Ebr by (simp add: u(2) ep'_def Let_def)
    qed
  qed (use strat in simp)
  moreover have "update_effect strat lib ep ebr_ops (sys, ffi, tls, t, m) ep'
      (sys, ffi\<lparr>raw := tree'\<rparr>, abtree_set_epoch ep tls, ?t', ?m') k ret"
    using strat assms(1) u(1) unmaintained_keeps(3) [of t ret]
    unfolding update_effect_def by (auto simp: k_def ep'_def abtree_set_epoch_def)
  ultimately show ?thesis using d(2) by auto
qed

lemma tb_update_ok:
  fixes m :: "'v memory"
  assumes "table_ok (announce_tbl sys)" "tl_retire_fn tls \<noteq> None" "tree_thread n t" "n < 2 ^ 62 - 1"
  shows "\<exists>ep' sys' ffi' tls' t' m' k ret.
    tb_update strat lib is_insert key (ep, ebr_ops, sys, ffi, tls, t, m)
      = Inr (ep', (if strat = Strat_Pacer_Discrete then ebr_ops else ebr_ops + 1), sys', ffi', tls', t', m') \<and>
    tree_thread (n + 1) t' \<and>
    update_effect strat lib ep ebr_ops (sys, ffi, tls, t, m) ep' (sys', ffi', tls', t', m') k ret"
  using tb_update_pacer [OF assms, of lib is_insert key ep ebr_ops ffi m]
    tb_update_baseline [OF assms(2,3), of strat lib is_insert key ep ebr_ops sys ffi m]
  by (cases "strat = Strat_Pacer_Discrete") simp_all

section \<open>Iterations of several threads\<close>

definition tb_ok :: "nat \<Rightarrow> ('tree, 'v) tb_state \<Rightarrow> bool" where
  "tb_ok n s \<longleftrightarrow> table_ok (announce_tbl (tb_sys s)) \<and>
     (\<forall>th \<in> set (tb_threads s). tl_retire_fn (tb_tls th) \<noteq> None \<and> tree_thread n (tb_t th))"

text \<open>What an iteration of thread \<open>i\<close> changes.\<close>

definition iter_effect ::
  "strat \<Rightarrow> 'tree abtree_lib \<Rightarrow> nat \<Rightarrow> bool \<Rightarrow> ('tree, 'v) tb_state \<Rightarrow> tb_thread \<Rightarrow> nat \<Rightarrow> (u64 \<times> addr) list
    \<Rightarrow> ('tree, 'v) tb_state \<Rightarrow> bool" where
  "iter_effect strat lib i counting s th' k ret s' \<longleftrightarrow> (let th = tb_threads s ! i in
     update_effect strat lib (tb_ebr_ep s) (tb_ebr_ops th) (tb_sys s, tb_ffi s, tb_tls th, tb_t th, tb_mem s)
       (tb_ebr_ep s') (tb_sys s', tb_ffi s', tb_tls th', tb_t th', tb_mem s') k ret \<and>
     tb_threads s' = (tb_threads s)[i := th'] \<and>
     tb_local th' = tb_local th + (if counting then 1 else 0) \<and>
     tb_peak s' = max (tb_peak s) (of_nat (limbo_len (limbo_bag (tb_t th')))))"

lemma tree_thread_mono: "tree_thread n t \<Longrightarrow> n \<le> n' \<Longrightarrow> tree_thread n' t"
  by (auto simp: tree_thread_def)

lemma tb_iter_ok:
  fixes s :: "('tree, 'v) tb_state"
  assumes "tb_ok n s" "n < 2 ^ 62 - 1" "i < length (tb_threads s)"
  shows "\<exists>s' th' k ret. tb_iter strat lib i counting s = Inr s' \<and> tb_ok (n + 1) s' \<and>
    iter_effect strat lib i counting s th' k ret s'"
proof -
  define th where "th = tb_threads s ! i"
  have "th \<in> set (tb_threads s)" using assms(3) by (simp add: th_def)
  then have t: "table_ok (announce_tbl (tb_sys s))" "tl_retire_fn (tb_tls th) \<noteq> None" "tree_thread n (tb_t th)"
    using assms(1) by (auto simp: tb_ok_def)
  obtain key is_insert rng' where d: "tb_draw (tb_rng th) = (key, is_insert, rng')" by (metis prod_cases3)
  define ops' where "ops' = (if strat = Strat_Pacer_Discrete then tb_ebr_ops th else tb_ebr_ops th + 1)"
  obtain ep' sys' ffi' tls' t' m' k ret where u:
    "tb_update strat lib is_insert key (tb_ebr_ep s, tb_ebr_ops th, tb_sys s, tb_ffi s, tb_tls th, tb_t th, tb_mem s)
      = Inr (ep', ops', sys', ffi', tls', t', m')"
    "tree_thread (n + 1) t'"
    "update_effect strat lib (tb_ebr_ep s) (tb_ebr_ops th) (tb_sys s, tb_ffi s, tb_tls th, tb_t th, tb_mem s) ep' (sys', ffi', tls', t', m') k ret"
    using tb_update_ok [OF t assms(2), of strat lib is_insert key "tb_ebr_ep s" "tb_ebr_ops th" "tb_ffi s" "tb_mem s",
        folded ops'_def]
    by (elim exE conjE) (rule that)
  define th' where "th' = \<lparr>tb_tls = tls', tb_t = t', tb_rng = rng',
    tb_local = (if counting then tb_local th + 1 else tb_local th), tb_ebr_ops = ops'\<rparr>"
  define l :: u64 where "l = of_nat (limbo_len (limbo_bag t'))"
  define s' where "s' = \<lparr>tb_sys = sys', tb_ffi = ffi', tb_mem = m', tb_ebr_ep = ep',
    tb_peak = (if tb_peak s < l then max (tb_peak s) l else tb_peak s), tb_threads = (tb_threads s)[i := th']\<rparr>"
  have "tb_iter strat lib i counting s = Inr s'"
    by (simp add: tb_iter_def th_def [symmetric] d u(1) s'_def th'_def l_def)
  moreover have "tl_retire_fn tls' \<noteq> None" "announce_tbl sys' = announce_tbl (tb_sys s)"
    using u(3) by (auto simp: update_effect_def)
  then have "tb_ok (n + 1) s'"
    using assms(1) u(2) tree_thread_mono [of n _ "n + 1"] set_update_subset_insert [of "tb_threads s" i th']
    by (auto simp: tb_ok_def s'_def) (auto simp: th'_def)
  moreover have "iter_effect strat lib i counting s th' k ret s'"
    using u(3) by (auto simp: iter_effect_def th_def [symmetric] s'_def th'_def l_def max_def)
  ultimately show ?thesis by blast
qed

lemma tb_loop_induct:
  fixes s :: "('tree, 'v) tb_state"
  assumes "tb_ok n s" "n + length sched < 2 ^ 62" "\<forall>(i, c) \<in> set sched. i < length (tb_threads s)" "I n s"
    and step: "\<And>n i c s s' th' k ret. tb_ok n s \<Longrightarrow> n < 2 ^ 62 - 1 \<Longrightarrow> i < length (tb_threads s) \<Longrightarrow> I n s \<Longrightarrow>
      iter_effect strat lib i c s th' k ret s' \<Longrightarrow> tb_ok (n + 1) s' \<Longrightarrow> I (n + 1) s'"
  shows "\<exists>s'. tb_loop strat lib sched s = Inr s' \<and> tb_ok (n + length sched) s' \<and> I (n + length sched) s' \<and>
    sum_list (map tb_local (tb_threads s')) = sum_list (map tb_local (tb_threads s)) + of_nat (length (filter snd sched))"
  using assms
proof (induction sched arbitrary: n s)
  case (Cons a sched)
  obtain i c where a: "a = (i, c)" by fastforce
  have n: "n < 2 ^ 62 - 1" "i < length (tb_threads s)" using Cons.prems(2,3) by (auto simp: a)
  obtain s1 th' k ret where s1: "tb_iter strat lib i c s = Inr s1" "tb_ok (n + 1) s1" "iter_effect strat lib i c s th' k ret s1"
    using tb_iter_ok [OF Cons.prems(1) n, of strat lib c] by blast
  have I: "I (n + 1) s1" by (rule step [OF Cons.prems(1) n(1) n(2) Cons.prems(4) s1(3,2)])
  have e: "tb_threads s1 = (tb_threads s)[i := th']" "tb_local th' = tb_local (tb_threads s ! i) + (if c then 1 else 0)"
    using s1(3) by (simp_all add: iter_effect_def Let_def)
  have "\<exists>s'. tb_loop strat lib sched s1 = Inr s' \<and> tb_ok (n + 1 + length sched) s' \<and> I (n + 1 + length sched) s' \<and>
    sum_list (map tb_local (tb_threads s')) = sum_list (map tb_local (tb_threads s1)) + of_nat (length (filter snd sched))"
  proof (rule Cons.IH [OF s1(2) _ _ I])
    show "n + 1 + length sched < 2 ^ 62" using Cons.prems(2) by simp
    show "\<forall>(i, c) \<in> set sched. i < length (tb_threads s1)" using Cons.prems(3) by (simp add: e(1))
  qed (rule step)
  moreover have "sum_list (map tb_local (tb_threads s1)) = sum_list (map tb_local (tb_threads s)) + (if c then 1 else 0)"
    using e n(2) by (simp add: map_update sum_list_update_word)
  ultimately show ?case using s1(1) by (auto simp: a add_ac)
qed simp

section \<open>Before and after the loop\<close>

definition prep_ok :: "nat \<Rightarrow> ('tree, 'v) ffi_call \<Rightarrow> bool" where
  "prep_ok n = (\<lambda>(sys, ffi, tls, t, m). table_ok (announce_tbl sys) \<and> tl_retire_fn tls \<noteq> None \<and> tree_thread n t \<and>
     unat (ffi_epoch ffi) \<le> n + 1)"

lemma prepopulate_ok:
  fixes c :: "('tree, 'v) ffi_call"
  assumes "prep_ok n c" "n + k < 2 ^ 62"
  shows "\<exists>c'. prepopulate lib k rng c = Inr c' \<and> prep_ok (n + k) c' \<and> announce_tbl (fst c') = announce_tbl (fst c)"
  using assms
proof (induction k arbitrary: n rng c)
  case (Suc k)
  obtain sys ffi tls t m where c: "c = (sys, ffi, tls, t, m)" by (metis prod_cases5)
  have p: "table_ok (announce_tbl sys)" "tl_retire_fn tls \<noteq> None" "tree_thread n t" "unat (ffi_epoch ffi) \<le> n + 1"
    "n < 2 ^ 62 - 1"
    using Suc.prems by (simp_all add: prep_ok_def c)
  let ?key = "lcg rng mod KEY_RANGE"
  obtain b sys' ffi' tls' t' m' ret j where r: "ffi_step lib (Insert ?key) (sys, ffi, tls, t, m) = Inr (b, sys', ffi', tls', t', m')"
    "tree_thread (n + 1) t'" "tl_retire_fn tls' \<noteq> None"
    "call_effect lib 0 (Insert ?key) \<lparr>f_sys = sys, f_ffi = ffi, f_mem = m, f_threads = [(tls, t)]\<rparr> ret j t'
      \<lparr>f_sys = sys', f_ffi = ffi', f_mem = m', f_threads = [(tls', t')]\<rparr>"
    using ffi_call_ok [OF p(1-3,5), of lib "Insert ?key" ffi m] by (elim exE conjE) (rule that)
  have e: "announce_tbl sys' = announce_tbl sys" "ffi_epoch ffi' = ffi_epoch ffi + 1"
    using r(4) by (simp_all add: call_effect_def Let_def)
  have "unat (ffi_epoch ffi + 1) = unat (ffi_epoch ffi) + 1"
    using p(4,5) by (intro unat_add_1 [of _ "n + 1"]) simp_all
  then have "prep_ok (n + 1) (sys', ffi', tls', t', m')"
    using p(1,4) r(2,3) e by (simp add: prep_ok_def)
  from Suc.IH [OF this, of "lcg rng"] obtain c' where "prepopulate lib k (lcg rng) (sys', ffi', tls', t', m') = Inr c'"
    "prep_ok (n + 1 + k) c'" "announce_tbl (fst c') = announce_tbl sys'"
    using Suc.prems(2) by auto
  then show ?case using r(1) e(1) by (auto simp: c Let_def)
qed auto

text \<open>The state the loop starts from: fresh threads with empty bags.\<close>

definition fresh_threads :: "tb_thread list \<Rightarrow> bool" where
  "fresh_threads ths \<longleftrightarrow> (\<forall>th \<in> set ths. tl_retire_fn (tb_tls th) \<noteq> None \<and> limbo_bag (tb_t th) = [] \<and>
     never_read (tb_t th) \<and> win_writes (tb_t th) = 0 \<and> tb_local th = 0)"

lemma fresh_tree_thread: "limbo_bag t = [] \<Longrightarrow> never_read t \<Longrightarrow> win_writes t = 0 \<Longrightarrow> tree_thread 0 t"
  by (simp add: tree_thread_def never_read_def)

lemma register_thread_next:
  assumes "table_ok (announce_tbl sys)" "unat (active_count (announce_tbl sys)) < MAX_THREADS"
  shows "\<exists>sys'. register_thread sys = (sys', Inr (unat (active_count (announce_tbl sys)))) \<and>
    table_ok (announce_tbl sys') \<and> slots (announce_tbl sys') = slots (announce_tbl sys) \<and>
    unat (active_count (announce_tbl sys')) = unat (active_count (announce_tbl sys)) + 1"
proof -
  let ?t = "announce_tbl sys"
  have c: "unat (active_count ?t + 1) = unat (active_count ?t) + 1"
    using active_count_add [of ?t] assms by (simp add: table_ok_def)
  show ?thesis
    using assms c by (simp add: register_thread_def register_def Let_def table_ok_def)
qed

lemma tb_spawn_ok:
  assumes "table_ok (announce_tbl sys)" "unat (active_count (announce_tbl sys)) + n \<le> MAX_THREADS"
  shows "\<exists>sys' ths. tb_spawn tidx n ffi sys = Inr (sys', ths) \<and> table_ok (announce_tbl sys') \<and>
    slots (announce_tbl sys') = slots (announce_tbl sys) \<and> length ths = n \<and> fresh_threads ths"
  using assms
proof (induction n arbitrary: tidx sys)
  case (Suc n)
  obtain sys1 where r: "register_thread sys = (sys1, Inr (unat (active_count (announce_tbl sys))))"
    "table_ok (announce_tbl sys1)" "slots (announce_tbl sys1) = slots (announce_tbl sys)"
    "unat (active_count (announce_tbl sys1)) = unat (active_count (announce_tbl sys)) + 1"
    using register_thread_next [OF Suc.prems(1)] Suc.prems(2) by auto
  obtain sys2 ths where "tb_spawn (Suc tidx) n ffi sys1 = Inr (sys2, ths)" "table_ok (announce_tbl sys2)"
    "slots (announce_tbl sys2) = slots (announce_tbl sys1)" "length ths = n" "fresh_threads ths"
    using Suc.IH [OF r(2)] Suc.prems(2) r(4) by (metis add.assoc add.commute plus_1_eq_Suc)
  then show ?case
    using r(1,3) by (auto simp: Let_def fresh_threads_def ffi_register_thread_def abtree_register_thread_def
        thread_local_state_new_def limbo_bag_new_def never_read_def)
qed (auto simp: fresh_threads_def)

lemma quiet_slots:
  assumes "\<forall>i < length (slots (announce_tbl sys)). active_ts (slots (announce_tbl sys) ! i) = 0"
  shows "quiet sys"
  using assms by (auto simp: quiet_iff announced_def)

definition PREPOP :: nat where "PREPOP = unat (KEY_RANGE div 2)"

lemma PREPOP_value: "PREPOP = 10000000"
  by (simp add: PREPOP_def KEY_RANGE_def)

lemma run_setup_ok:
  fixes tree :: 'tree
  assumes "nthreads + 1 \<le> MAX_THREADS" "lib_new lib (of_nat (nthreads + 1)) = Some tree"
  shows "\<exists>s0 :: ('tree, 'v) tb_state. run_setup lib nthreads = Inr s0 \<and> tb_ok 0 s0 \<and> quiet (tb_sys s0) \<and>
    fresh_threads (tb_threads s0) \<and> length (tb_threads s0) = nthreads \<and> tb_peak s0 = 0 \<and> tb_ebr_ep s0 = 1 \<and>
    unat (ffi_epoch (tb_ffi s0)) \<le> PREPOP + 1"
proof -
  have ffi: "abtree_ffi_new lib (nthreads + 1) = Inr \<lparr>raw = tree, ffi_epoch = 1\<rparr>"
    using assms(2) by (simp add: abtree_ffi_new_def)
  let ?ffi = "\<lparr>raw = tree, ffi_epoch = 1\<rparr>" and ?t = "thread_local_state_new 0"
  have new: "table_ok (announce_tbl pacer_system_new)" "unat (active_count (announce_tbl pacer_system_new)) = 0"
    by (simp_all add: pacer_system_new_def) (simp add: announcement_table_new_def)
  obtain sys where reg: "register_thread pacer_system_new = (sys, Inr 0)" "table_ok (announce_tbl sys)"
    "slots (announce_tbl sys) = slots (announce_tbl pacer_system_new)" "unat (active_count (announce_tbl sys)) = 1"
    using register_thread_next [OF new(1)] new(2) by (auto simp: MAX_THREADS_def)
  have "prep_ok 0 (sys, ?ffi, ffi_register_thread ?ffi ?t glue_tls_init, ?t, empty_memory :: 'v memory)"
    using reg(2) by (simp add: prep_ok_def ffi_register_thread_def abtree_register_thread_def tree_thread_def
        thread_local_state_new_def limbo_bag_new_def)
  from prepopulate_ok [OF this, of PREPOP lib "0xfeedbeefcafe"] obtain sys1 ffi1 tls1 t1 and m1 :: "'v memory" where
    pre: "prepopulate lib PREPOP 0xfeedbeefcafe (sys, ?ffi, ffi_register_thread ?ffi ?t glue_tls_init, ?t, empty_memory)
      = Inr (sys1, ffi1, tls1, t1, m1)"
    "prep_ok PREPOP (sys1, ffi1, tls1, t1, m1)" "announce_tbl sys1 = announce_tbl sys"
    by (auto simp: PREPOP_value)
  have t1: "tree_thread PREPOP t1" using pre(2) by (simp add: prep_ok_def)
  have "table_ok (announce_tbl sys1)" "unat (active_count (announce_tbl sys1)) + nthreads \<le> MAX_THREADS"
    using reg(2,4) pre(3) assms(1) by simp_all
  from tb_spawn_ok [OF this, of 0 ffi1] obtain sys2 ths where sp: "tb_spawn 0 nthreads ffi1 sys1 = Inr (sys2, ths)"
    "table_ok (announce_tbl sys2)" "slots (announce_tbl sys2) = slots (announce_tbl sys1)" "length ths = nthreads"
    "fresh_threads ths"
    by blast
  have "quiet sys2"
    by (rule quiet_slots)
      (simp add: sp(3) pre(3) reg(3) pacer_system_new_def announcement_table_new_def announcement_slot_new_def)
  moreover have "\<forall>th \<in> set ths. tree_thread 0 (tb_t th)"
    using sp(5) fresh_tree_thread by (simp add: fresh_threads_def)
  ultimately show ?thesis
    using ffi reg(1) pre(1,2) drain_foreign(1) [OF t1, of u64_max usize_max m1] sp
    by (simp add: run_setup_def PREPOP_def [symmetric] Let_def tb_ok_def prep_ok_def fresh_threads_def)
qed

lemma tb_finish_ok:
  assumes "\<forall>th \<in> set ths. tree_thread n (tb_t th) \<and> length (limbo_bag (tb_t th)) \<le> usize_max \<and>
    u64_max \<notin> fst ` set (limbo_bag (tb_t th))"
  shows "\<exists>ths' m'. tb_finish ths m = Inr (sum_list (map tb_local ths), ths', m') \<and> length ths' = length ths \<and>
    (\<forall>th \<in> set ths'. limbo_bag (tb_t th) = [])"
  using assms
proof (induction ths arbitrary: m)
  case (Cons th ths)
  have t: "tree_thread n (tb_t th)" "length (limbo_bag (tb_t th)) \<le> usize_max" using Cons.prems by simp_all
  have "\<forall>e \<in> set (limbo_bag (tb_t th)). fst e < u64_max"
    using Cons.prems unat_less_u64_max by (force simp: image_iff)
  then have "drained (limbo_bag (tb_t th)) u64_max usize_max = limbo_bag (tb_t th)"
    using t(2) by (simp add: drained_all)
  then obtain m1 where "drain_bag (tb_t th) u64_max usize_max m
      = Inr (length (limbo_bag (tb_t th)), (tb_t th)\<lparr>limbo_bag := []\<rparr>, m1)"
    using drain_foreign(1) [OF t(1), of u64_max usize_max m] by simp
  moreover obtain ths' m' where "tb_finish ths m1 = Inr (sum_list (map tb_local ths), ths', m')"
    "length ths' = length ths" "\<forall>th \<in> set ths'. limbo_bag (tb_t th) = []"
    using Cons.IH [of m1] Cons.prems by auto
  ultimately show ?case by (auto simp: add.commute)
qed simp

section \<open>Properties\<close>

text \<open>What holds of a thread, and of the whole, after \<open>n\<close> iterations.\<close>

definition thread_bounds :: "strat \<Rightarrow> nat \<Rightarrow> thread_local_state \<Rightarrow> bool" where
  "thread_bounds strat n t \<longleftrightarrow> length (limbo_bag t) \<le> 4 * n \<and> u64_max \<notin> fst ` set (limbo_bag t) \<and>
     (strat = Strat_Pacer_Discrete \<longrightarrow> never_read t \<and> limbo_bag t = [])"

definition run_bounds :: "strat \<Rightarrow> nat \<Rightarrow> ('tree, 'v) tb_state \<Rightarrow> bool" where
  "run_bounds strat n s \<longleftrightarrow> quiet (tb_sys s) \<and> unat (ffi_epoch (tb_ffi s)) \<le> PREPOP + n + 1 \<and>
     unat (tb_ebr_ep s) \<le> 2 * n + 1 \<and> (\<forall>th \<in> set (tb_threads s). thread_bounds strat n (tb_t th)) \<and>
     unat (tb_peak s) \<le> 4 * n \<and> (strat = Strat_Pacer_Discrete \<longrightarrow> tb_peak s = 0)"

lemma drop_retired:
  assumes "u64_max \<notin> fst ` set q" "u64_max \<notin> fst ` set ret"
  shows "u64_max \<notin> fst ` set (drop k (q @ retired_entries ret))"
proof -
  have "u64_max \<notin> fst ` set (q @ retired_entries ret)"
    using assms by (force simp: retired_entries_def)
  then show ?thesis by (meson image_mono set_drop_subset subsetD)
qed

lemma retired_length [simp]: "length (retired_entries ret) = length ret"
  by (simp add: retired_entries_def)

text \<open>What the thread that moves has in its bag afterwards.\<close>

lemma thread_bounds_step:
  fixes s :: "('tree, 'v) tb_state"
  assumes lib: "retires_few lib" and n: "n < 2 ^ 60" and i: "i < length (tb_threads s)" and B: "run_bounds strat n s"
    and e: "iter_effect strat lib i c s th' k ret s'"
  shows "thread_bounds strat (n + 1) (tb_t th')" and "strat = Strat_Pacer_Discrete \<Longrightarrow> limbo_bag (tb_t th') = []"
proof -
  define th where "th = tb_threads s ! i"
  define t t' where "t = tb_t th" and "t' = tb_t th'"
  have "\<forall>th \<in> set (tb_threads s). thread_bounds strat n (tb_t th)" using B by (simp add: run_bounds_def)
  from bspec [OF this nth_mem [OF i]] have t: "thread_bounds strat n t" by (simp add: t_def th_def)
  have b: "quiet (tb_sys s)" "unat (ffi_epoch (tb_ffi s)) \<le> PREPOP + n + 1" "unat (tb_ebr_ep s) \<le> 2 * n + 1"
    using B by (simp_all add: run_bounds_def)
  note u = e [unfolded iter_effect_def Let_def update_effect_def prod.case, folded th_def, folded t_def t'_def]
  let ?stamp = "if strat = Strat_Pacer_Discrete then ffi_epoch (tb_ffi s) else tb_ebr_ep s"
  have "unat ?stamp \<le> 2 * (PREPOP + n + 1)" using b(2,3) by simp
  then have "?stamp < u64_max" by (rule less_u64_max) (use n in \<open>simp add: PREPOP_value\<close>)
  then have "?stamp \<noteq> u64_max" by simp
  moreover obtain op ok where "update_call lib op ?stamp (of_nat (tid t)) (raw (tb_ffi s)) = (ok, raw (tb_ffi s'), ret)"
    using u by blast
  ultimately have ret: "length ret \<le> 4" "u64_max \<notin> fst ` set ret"
    using lib unfolding retires_few_def by blast+
  have bag: "limbo_bag t' = drop k (limbo_bag t @ retired_entries ret)" using u by blast
  have pacer: "never_read t' \<and> limbo_bag t' = []" if "strat = Strat_Pacer_Discrete"
  proof -
    have "never_read t" "limbo_bag t = []" using t that by (simp_all add: thread_bounds_def)
    with all_freed [OF this b(1) ret] u that show ?thesis by simp
  qed
  show "thread_bounds strat (n + 1) (tb_t th')" unfolding t'_def [symmetric]
    using t ret drop_retired [of "limbo_bag t" ret k] pacer unfolding thread_bounds_def bag by auto
  show "strat = Strat_Pacer_Discrete \<Longrightarrow> limbo_bag (tb_t th') = []" using pacer by (simp add: t'_def)
qed

lemma run_bounds_step:
  fixes s :: "('tree, 'v) tb_state"
  assumes lib: "retires_few lib" and n: "n < 2 ^ 60" and i: "i < length (tb_threads s)" and B: "run_bounds strat n s"
    and e: "iter_effect strat lib i c s th' k ret s'"
  shows "run_bounds strat (n + 1) s'"
proof -
  define t' where "t' = tb_t th'"
  note tb = thread_bounds_step(1) [OF assms, folded t'_def] and pacer = thread_bounds_step(2) [OF assms, folded t'_def]
  have b: "quiet (tb_sys s)" "unat (ffi_epoch (tb_ffi s)) \<le> PREPOP + n + 1" "unat (tb_ebr_ep s) \<le> 2 * n + 1"
    using B by (simp_all add: run_bounds_def)
  note u = e [unfolded iter_effect_def Let_def update_effect_def prod.case, folded t'_def]
  have len: "limbo_len (limbo_bag t') \<le> 4 * (n + 1)" using tb by (simp add: thread_bounds_def limbo_len_def)
  then have "unat (of_nat (limbo_len (limbo_bag t')) :: u64) = limbo_len (limbo_bag t')"
    using n by (simp add: unat_of_nat take_bit_eq_mod)
  moreover have peak: "tb_peak s' = max (tb_peak s) (of_nat (limbo_len (limbo_bag t')))" using u by blast
  ultimately have "unat (tb_peak s') \<le> 4 * (n + 1)"
    using B len by (simp add: run_bounds_def max_def)
  moreover have "strat = Strat_Pacer_Discrete \<longrightarrow> tb_peak s' = 0"
    using B pacer peak by (simp add: run_bounds_def limbo_len_def)
  moreover have "quiet (tb_sys s')" using u b(1) by (simp add: quiet_def)
  moreover have "unat (ffi_epoch (tb_ffi s')) \<le> PREPOP + (n + 1) + 1"
  proof -
    have "unat (ffi_epoch (tb_ffi s) + 1) = unat (ffi_epoch (tb_ffi s)) + 1"
      using b(2) n by (intro unat_add_1 [of _ "PREPOP + n + 1"]) (simp_all add: PREPOP_value)
    with u b(2) show ?thesis by (auto split: if_splits)
  qed
  moreover have "unat (tb_ebr_ep s') \<le> 2 * (n + 1) + 1"
  proof -
    have "unat (tb_ebr_ep s + 1) = unat (tb_ebr_ep s) + 1" "unat (tb_ebr_ep s + 2) = unat (tb_ebr_ep s) + 2"
      using b(3) n by (simp_all add: unat_word_ariths)
    with u b(3) show ?thesis by (auto split: if_splits)
  qed
  moreover have "\<forall>th \<in> set (tb_threads s'). thread_bounds strat (n + 1) (tb_t th)"
  proof -
    have "\<forall>th \<in> set (tb_threads s). thread_bounds strat (n + 1) (tb_t th)"
      using B by (auto simp: run_bounds_def thread_bounds_def)
    moreover have "tb_threads s' = (tb_threads s)[i := th']" using u by blast
    ultimately show ?thesis
      using tb set_update_subset_insert [of "tb_threads s" i th'] by (auto simp: t'_def)
  qed
  ultimately show ?thesis by (simp add: run_bounds_def)
qed

text \<open>The loops of all threads, from the state the setup leaves.\<close>

lemma loop_from_setup:
  fixes s0 :: "('tree, 'v) tb_state"
  assumes "retires_few lib" "length sched < 2 ^ 60" "\<forall>(i, c) \<in> set sched. i < length (tb_threads s0)"
    and s0: "tb_ok 0 s0" "quiet (tb_sys s0)" "fresh_threads (tb_threads s0)" "tb_peak s0 = 0" "tb_ebr_ep s0 = 1"
      "unat (ffi_epoch (tb_ffi s0)) \<le> PREPOP + 1"
  shows "\<exists>s. tb_loop strat lib sched s0 = Inr s \<and> tb_ok (length sched) s \<and> run_bounds strat (length sched) s \<and>
    sum_list (map tb_local (tb_threads s)) = of_nat (length (filter snd sched))"
proof -
  let ?I = "\<lambda>n s. n < 2 ^ 60 \<longrightarrow> run_bounds strat n s"
  have "?I 0 s0" using s0(2-6) by (simp add: run_bounds_def thread_bounds_def fresh_threads_def)
  moreover have "0 + length sched < 2 ^ 62" using assms(2) by simp
  moreover have "?I (n + 1) s'" if "i < length (tb_threads s)" "?I n s" "iter_effect strat lib i c s th' k ret s'"
    for n i c s s' th' k ret
  proof
    assume n: "n + 1 < 2 ^ 60"
    then have "n < 2 ^ 60" by simp
    from run_bounds_step [OF assms(1) this that(1) _ that(3)] this that(2) show "run_bounds strat (n + 1) s'" by blast
  qed
  ultimately have "\<exists>s. tb_loop strat lib sched s0 = Inr s \<and> tb_ok (0 + length sched) s \<and> ?I (0 + length sched) s \<and>
    sum_list (map tb_local (tb_threads s)) = sum_list (map tb_local (tb_threads s0)) + of_nat (length (filter snd sched))"
    using assms(3) by (intro tb_loop_induct [OF s0(1), where I = ?I])
  moreover have "map tb_local (tb_threads s0) = map (\<lambda>_. 0) (tb_threads s0)" using s0(3) by (simp add: fresh_threads_def)
  then have "sum_list (map tb_local (tb_threads s0)) = 0" by (simp only: sum_list_0)
  ultimately show ?thesis using assms(2) by auto
qed

lemma finish_from_loop:
  fixes s :: "('tree, 'v) tb_state"
  assumes "tb_ok n s" "run_bounds strat n s" "n < 2 ^ 60"
  shows "\<exists>ths m. tb_finish (tb_threads s) (tb_mem s) = Inr (sum_list (map tb_local (tb_threads s)), ths, m) \<and>
    (\<forall>th \<in> set ths. limbo_bag (tb_t th) = [])"
proof -
  have "\<forall>th \<in> set (tb_threads s). tree_thread n (tb_t th) \<and> length (limbo_bag (tb_t th)) \<le> usize_max \<and>
    u64_max \<notin> fst ` set (limbo_bag (tb_t th))"
  proof
    fix th assume "th \<in> set (tb_threads s)"
    then have "tree_thread n (tb_t th)" "thread_bounds strat n (tb_t th)"
      using assms(1,2) by (simp_all add: tb_ok_def run_bounds_def)
    then show "tree_thread n (tb_t th) \<and> length (limbo_bag (tb_t th)) \<le> usize_max \<and>
        u64_max \<notin> fst ` set (limbo_bag (tb_t th))"
      using assms(3) by (simp add: thread_bounds_def usize_max_def)
  qed
  from tb_finish_ok [OF this, of "tb_mem s"] show ?thesis by blast
qed

lemma run_once_ok:
  fixes tree :: 'tree
  assumes "retires_few lib" "nthreads + 1 \<le> MAX_THREADS" "lib_new lib (of_nat (nthreads + 1)) = Some tree"
    and "length sched < 2 ^ 60" "\<forall>(i, c) \<in> set sched. i < nthreads"
  shows "\<exists>r (s :: ('tree, 'v) tb_state). run_once strat lib nthreads sched = Inr (r, s) \<and>
    mops r = f64_of_u64 (of_nat (length (filter snd sched))) / RUN_SECS / f64_lit 1000000 \<and>
    (\<forall>th \<in> set (tb_threads s). limbo_bag (tb_t th) = []) \<and>
    (strat = Strat_Pacer_Discrete \<longrightarrow> peak_limbo r = 0) \<and> peak_limbo r \<le> 4 * length sched"
proof -
  obtain s0 :: "('tree, 'v) tb_state" where s0: "run_setup lib nthreads = Inr s0" "length (tb_threads s0) = nthreads"
    "tb_ok 0 s0" "quiet (tb_sys s0)" "fresh_threads (tb_threads s0)" "tb_peak s0 = 0" "tb_ebr_ep s0 = 1"
    "unat (ffi_epoch (tb_ffi s0)) \<le> PREPOP + 1"
    using run_setup_ok [OF assms(2,3)] by blast
  have "\<forall>(i, c) \<in> set sched. i < length (tb_threads s0)" using assms(5) s0(2) by simp
  from loop_from_setup [OF assms(1,4) this s0(3-8)] obtain s where
    s: "tb_loop strat lib sched s0 = Inr s" "tb_ok (length sched) s" "run_bounds strat (length sched) s"
    "sum_list (map tb_local (tb_threads s)) = of_nat (length (filter snd sched))"
    by blast
  obtain ths m where "tb_finish (tb_threads s) (tb_mem s) = Inr (of_nat (length (filter snd sched)), ths, m)"
    "\<forall>th \<in> set ths. limbo_bag (tb_t th) = []"
    using finish_from_loop [OF s(2,3) assms(4)] s(4) by auto
  then show ?thesis using s0(1) s(1,3) by (simp add: run_once_def run_bounds_def)
qed



text \<open>A bag whose front node is too old for the baselines' epoch, after \<open>n\<close> iterations.\<close>

definition blocked :: "nat \<Rightarrow> nat \<Rightarrow> limbo_bag \<Rightarrow> nat \<Rightarrow> ('tree, 'v) tb_state \<Rightarrow> bool" where
  "blocked ep0 j front n s \<longleftrightarrow> j < length (tb_threads s) \<and> unat (tb_ebr_ep s) \<le> ep0 + 2 * n \<and>
     (\<exists>new. limbo_bag (tb_t (tb_threads s ! j)) = front @ new)"

lemma blocked_step:
  fixes s s' :: "('tree, 'v) tb_state"
  assumes "strat \<noteq> Strat_Pacer_Discrete" "front = (birth, node) # rest" "ep0 + 2 * (n + 1) \<le> unat birth + 1"
    and "unat birth < 2 ^ 62" "i < length (tb_threads s)" "blocked ep0 j front n s"
    and e: "iter_effect strat lib i c s th' k ret s'"
  shows "blocked ep0 j front (n + 1) s'"
proof -
  obtain new where j: "j < length (tb_threads s)" "unat (tb_ebr_ep s) \<le> ep0 + 2 * n"
    "limbo_bag (tb_t (tb_threads s ! j)) = front @ new"
    using assms(6) by (auto simp: blocked_def)
  note u = e [unfolded iter_effect_def Let_def update_effect_def prod.case]
  have small: "unat (tb_ebr_ep s) + 1 \<le> unat birth" using j(2) assms(3) by simp
  then have up: "unat (tb_ebr_ep s + 1) = unat (tb_ebr_ep s) + 1" "unat (tb_ebr_ep s + 2) = unat (tb_ebr_ep s) + 2"
    using assms(4) by (simp_all add: unat_word_ariths)
  have "unat (saturating_sub (tb_ebr_ep s + 1) 2) < unat birth"
    unfolding unat_saturating_sub up(1) using small by simp
  then have old: "\<not> birth < saturating_sub (tb_ebr_ep s + 1) 2" by (simp add: word_less_nat_alt)
  have ep: "unat (tb_ebr_ep s') \<le> ep0 + 2 * (n + 1)" using u assms(1) up j(2) by auto
  have th: "tb_threads s' = (tb_threads s)[i := th']" using u by blast
  show ?thesis
  proof (cases "i = j")
    case True
    have "k = length (drained ((front @ new) @ retired_entries ret) (saturating_sub (tb_ebr_ep s + 1) 2)
        (baseline_budget strat (tb_ebr_ops (tb_threads s ! i) + 1)))"
      using u assms(1) j(3) True by auto
    then have "k = 0" using old by (simp add: assms(2) drained_def eligible_def)
    then have "limbo_bag (tb_t th') = front @ new @ retired_entries ret"
      using u j(3) True by simp
    then show ?thesis using j(1) ep True by (auto simp: blocked_def th)
  next
    case False
    then show ?thesis using j ep by (simp add: blocked_def th)
  qed
qed

text \<open>The baselines cannot free nodes that are older than the benchmark. The tree is filled under the
  wrapper's epoch, which then stands at ten million; the baselines compare with an epoch of their own that
  starts at one. A node retired with such a timestamp blocks its thread's bag: until the baselines' epoch
  has caught up with it, no iteration of any thread frees anything from that bag, and what the thread
  retires piles up behind it.\<close>

theorem old_node_blocks_baseline:
  fixes s :: "('tree, 'v) tb_state"
  assumes "strat \<noteq> Strat_Pacer_Discrete" "tb_ok 0 s" "j < length (tb_threads s)"
    and "limbo_bag (tb_t (tb_threads s ! j)) = (birth, node) # rest" "unat (tb_ebr_ep s) + 2 * length sched \<le> unat birth + 1"
    and "unat birth < 2 ^ 62" "\<forall>(i, c) \<in> set sched. i < length (tb_threads s)"
  shows "\<exists>s' new. tb_loop strat lib sched s = Inr s' \<and> limbo_bag (tb_t (tb_threads s' ! j)) = (birth, node) # rest @ new"
proof -
  define front ep0 where "front = (birth, node) # rest" and "ep0 = unat (tb_ebr_ep s)"
  let ?I = "\<lambda>n (s' :: ('tree, 'v) tb_state). n \<le> length sched \<longrightarrow> blocked ep0 j front n s'"
  have N: "ep0 + 2 * length sched \<le> unat birth + 1" "0 + length sched < 2 ^ 62"
    using assms(5,6) by (simp_all add: ep0_def)
  have I0: "?I 0 s" using assms(3,4) by (simp add: blocked_def front_def ep0_def)
  have "\<exists>s'. tb_loop strat lib sched s = Inr s' \<and> tb_ok (0 + length sched) s' \<and> ?I (0 + length sched) s' \<and>
    sum_list (map tb_local (tb_threads s')) = sum_list (map tb_local (tb_threads s)) + of_nat (length (filter snd sched))"
  proof (rule tb_loop_induct [OF assms(2) N(2) assms(7), where I = ?I, OF I0], intro impI, goal_cases)
    case (1 n i c s s' th' k ret)
    from 1(7) N(1) have "ep0 + 2 * (n + 1) \<le> unat birth + 1" by simp
    from blocked_step [OF assms(1) front_def this assms(6) 1(3) _ 1(5)] 1(4,7) show ?case by simp
  qed
  then show ?thesis by (auto simp: blocked_def front_def)
qed

text \<open>One thread that has retired a node from the filling of the tree.\<close>

definition stale_state :: "(nat \<times> u64 list, nat) tb_state" where
  "stale_state = \<lparr>tb_sys = fst one_thread, tb_ffi = \<lparr>raw = (0, []), ffi_epoch = 10000001\<rparr>, tb_mem = empty_memory,
     tb_ebr_ep = 1, tb_peak = 0, tb_threads = [\<lparr>tb_tls = \<lparr>tl_retire_fn = Some Pacer_Retire_Cb, tl_retire_ctx = 0, tl_epoch_ptr = 1\<rparr>,
       tb_t = (thread_local_state_new 0)\<lparr>limbo_bag := [(10000000, Foreign 5 ''abtree_free_node'')]\<rparr>,
       tb_rng = 3, tb_local = 0, tb_ebr_ops = 0\<rparr>]\<rparr>"

theorem old_node_blocks_baseline_witness:
  "\<exists>s' new. tb_loop Strat_Token_Af leaf_lib (replicate 1000000 (0, True)) stale_state = Inr s' \<and>
     limbo_bag (tb_t (tb_threads s' ! 0)) = (10000000, Foreign 5 ''abtree_free_node'') # new"
proof -
  have "tb_ok 0 stale_state"
    by (simp add: tb_ok_def stale_state_def one_thread_simps pacer_system_new_def table_ok_def announcement_table_new_def
        MAX_THREADS_def tree_thread_def thread_local_state_new_def)
  from old_node_blocks_baseline [OF _ this, of Strat_Token_Af 0 10000000 "Foreign 5 ''abtree_free_node''" "[]"
      "replicate 1000000 (0, True)" leaf_lib]
  show ?thesis by (simp add: stale_state_def)
qed

section \<open>What the benchmark prints\<close>

text \<open>The thread counts it tries: the powers of two up to the number of cores, and that number.\<close>

function powers_upto :: "nat \<Rightarrow> nat \<Rightarrow> nat list" where
  "powers_upto p n = (if 0 < p \<and> p \<le> n then p # powers_upto (2 * p) n else [])"
  by pat_completeness auto
termination by (relation "measure (\<lambda>(p, n). n + 1 - p)") auto

declare powers_upto.simps [simp del]

definition thread_counts :: "nat \<Rightarrow> nat list" where
  "thread_counts ncores =
     (let tcs = powers_upto 1 ncores;
          final = (if tcs = [] then 0 else last tcs)
      in if final \<noteq> ncores then tcs @ [ncores] else tcs)"

lemma powers_upto_range: "x \<in> set (powers_upto p n) \<Longrightarrow> p \<le> x \<and> x \<le> n \<and> (\<exists>i. x = p * 2 ^ i)"
proof (induction p n rule: powers_upto.induct)
  case (1 p n)
  show ?case
  proof (cases "0 < p \<and> p \<le> n")
    case True
    then consider "x = p" | "x \<in> set (powers_upto (2 * p) n)"
      using "1.prems" by (subst (asm) powers_upto.simps) auto
    then show ?thesis
    proof cases
      case 1
      with True have "p \<le> x \<and> x \<le> n \<and> x = p * 2 ^ 0" by simp
      then show ?thesis by blast
    next
      case 2
      with "1.IH" True obtain i where "2 * p \<le> x" "x \<le> n" "x = 2 * p * 2 ^ i" by blast
      then have "p \<le> x \<and> x \<le> n \<and> x = p * 2 ^ Suc i" by simp
      then show ?thesis by blast
    qed
  qed (use "1.prems" in \<open>subst (asm) powers_upto.simps, simp\<close>)
qed

lemma powers_upto_sorted: "sorted_wrt (<) (powers_upto p n)"
proof (induction p n rule: powers_upto.induct)
  case (1 p n)
  show ?case
  proof (cases "0 < p \<and> p \<le> n")
    case True
    then have "powers_upto p n = p # powers_upto (2 * p) n" by (subst powers_upto.simps) simp
    moreover have "\<forall>x \<in> set (powers_upto (2 * p) n). p < x"
    proof
      fix x assume "x \<in> set (powers_upto (2 * p) n)"
      from powers_upto_range [OF this] True show "p < x" by linarith
    qed
    ultimately show ?thesis using "1.IH" True by simp
  next
    case False
    then have "powers_upto p n = []" by (subst powers_upto.simps) auto
    then show ?thesis by simp
  qed
qed

text \<open>The benchmark tries each number of threads once, in increasing order, starts with one thread, ends
  with all cores, and all but the last are powers of two.\<close>

theorem thread_counts_increase:
  assumes "0 < n"
  shows "sorted_wrt (<) (thread_counts n) \<and> hd (thread_counts n) = 1 \<and> last (thread_counts n) = n \<and>
    (\<forall>x \<in> set (butlast (thread_counts n)). \<exists>i. x = 2 ^ i)"
proof -
  have p: "powers_upto 1 n = 1 # powers_upto 2 n" using assms by (subst powers_upto.simps) simp
  have r: "\<forall>x \<in> set (powers_upto 1 n). x \<le> n \<and> (\<exists>i. x = 2 ^ i)" using powers_upto_range [of _ 1 n] by auto
  show ?thesis
  proof (cases "last (powers_upto 1 n) = n")
    case True
    then have "thread_counts n = powers_upto 1 n" using p by (simp add: thread_counts_def)
    then show ?thesis using True r powers_upto_sorted [of 1 n] p by (auto dest: in_set_butlastD)
  next
    case False
    then have t: "thread_counts n = powers_upto 1 n @ [n]" using p by (simp add: thread_counts_def)
    have s: "powers_upto 1 n = butlast (powers_upto 1 n) @ [last (powers_upto 1 n)]" using p by simp
    have "last (powers_upto 1 n) \<in> set (powers_upto 1 n)" using p by simp
    then have l: "last (powers_upto 1 n) < n" using r False by (simp add: le_neq_implies_less)
    have "\<forall>x \<in> set (powers_upto 1 n). x < n"
    proof
      fix x assume "x \<in> set (powers_upto 1 n)"
      then have "x \<in> set (butlast (powers_upto 1 n)) \<or> x = last (powers_upto 1 n)" by (subst (asm) s) auto
      moreover have "sorted_wrt (<) (butlast (powers_upto 1 n) @ [last (powers_upto 1 n)])"
        using powers_upto_sorted [of 1 n] s by simp
      ultimately show "x < n" using l by (auto simp: sorted_wrt_append)
    qed
    then show ?thesis using t r powers_upto_sorted [of 1 n] p by (simp add: sorted_wrt_append)
  qed
qed

theorem thread_counts_increase_witness: "last (thread_counts 12) = 12 \<and> thread_counts 12 = [1, 2, 4, 8, 12]"
  using thread_counts_increase [of 12] by (simp add: thread_counts_def powers_upto.simps)

text \<open>A row of the table of modes.\<close>

definition mode_row :: "u64 \<Rightarrow> f64 \<times> gc_mode \<times> nat \<times> u64" where
  "mode_row pct =
     (let spi = f64_of_u64 pct / f64_lit 100;
          mode = select_gc_mode spi;
          bk = (if spi \<le> f64_lit (30 / 100) then 64 else if spi \<le> f64_lit (60 / 100) then 1 else 0);
          stride = f64_to_u64 (f64_round (f64_of_u64 BASE_STRIDE * (1 + ALPHA * spi)))
      in (spi, mode, bk, stride))"

text \<open>The stride the table prints is the collector's, but the batch is not: a write in the aggressive mode
  frees at most four nodes where the table says 64, and in the holding mode, where it says none, every
  eighth write frees up to eight.\<close>

theorem mode_table_batch_differs:
  "case mode_row pct of (spi, mode, bk, stride) \<Rightarrow>
     stride = compute_epoch_stride spi \<and>
     bk = (case mode of AggressiveEbr \<Rightarrow> 64 | AmortisedFree \<Rightarrow> 1 | ConservativeHold \<Rightarrow> 0) \<and>
     tick_budget AggressiveEbr h = 4 \<and> tick_budget ConservativeHold 7 = 8"
  by (simp add: mode_row_def compute_epoch_stride_def select_gc_mode_def SPI_WRITE_HEAVY_def SPI_SNAP_HEAVY_def Let_def)

end
