(* ===== verification/Comparison.thy ===== *)
theory Comparison
  imports Tree_Bench
begin

text \<open>
  The comparison table of \<open>main\<close> in \<open>src/src/bench.rs\<close>: for every number of threads the three strategies run one
  after another, each on a tree of its own, and every throughput is divided by that of the first. Which
  thread moves when, in which run, is an argument.
\<close>

section \<open>The table\<close>

definition strats :: "(strat \<times> string) list" where
  "strats = [(Strat_Batch_Ebr, ''Batch-EBR (DEBRA)''), (Strat_Token_Af, ''token_af (Kim 2024)''),
     (Strat_Pacer_Discrete, ''PACER-Discrete'')]"

record summary_row =
  s_name :: string
  s_threads :: nat
  s_mops :: f64
  s_peak :: nat
  s_vs :: f64

text \<open>The rows of one number of threads, from the results of its three runs.\<close>

definition compare_rows :: "nat \<Rightarrow> run_result \<Rightarrow> run_result \<Rightarrow> run_result \<Rightarrow> summary_row list" where
  "compare_rows tc ebr_r af_r pac_r =
     (let ebr_m = mops ebr_r in
      map (\<lambda>(r, name). \<lparr>s_name = name, s_threads = tc, s_mops = mops r, s_peak = peak_limbo r,
             s_vs = mops r / f64_max ebr_m (f64_lit (1 / 10 ^ 9))\<rparr>)
        [(ebr_r, ''Batch-EBR (DEBRA)''), (af_r, ''token_af (Kim 2024)''), (pac_r, ''PACER-Discrete'')])"

fun summary :: "'tree abtree_lib \<Rightarrow> (strat \<Rightarrow> nat \<Rightarrow> (nat \<times> bool) list) \<Rightarrow> nat list \<Rightarrow> summary_row list res" where
  "summary lib sched [] = Inr []"
| "summary lib sched (tc # tcs) =
     bind_res (run_once Strat_Batch_Ebr lib tc (sched Strat_Batch_Ebr tc) :: (run_result \<times> ('tree, u64) tb_state) res) (\<lambda>(ebr_r, _).
     bind_res (run_once Strat_Token_Af lib tc (sched Strat_Token_Af tc) :: (run_result \<times> ('tree, u64) tb_state) res) (\<lambda>(af_r, _).
     bind_res (run_once Strat_Pacer_Discrete lib tc (sched Strat_Pacer_Discrete tc) :: (run_result \<times> ('tree, u64) tb_state) res) (\<lambda>(pac_r, _).
     bind_res (summary lib sched tcs) (\<lambda>rows. Inr (compare_rows tc ebr_r af_r pac_r @ rows)))))"

definition bench_main :: "'tree abtree_lib \<Rightarrow> (strat \<Rightarrow> nat \<Rightarrow> (nat \<times> bool) list) \<Rightarrow> nat \<Rightarrow> summary_row list res" where
  "bench_main lib sched ncores = summary lib sched (thread_counts ncores)"

section \<open>The baseline compared with itself\<close>

lemma div_between:
  assumes "on_grid a" "a \<le> x / d" "x / d \<le> 2 ^ 64" "0 < a" "d \<noteq> 0"
  shows "\<exists>q. Fin x / Fin d = Fin q \<and> a \<le> q \<and> q \<le> 2 ^ 64"
proof -
  have g: "on_grid (2 ^ 64)" by (rule on_gridI [of _ 1 64]) simp_all
  have "(2 :: rat) ^ 64 \<le> 2 ^ 65" by (rule power_increasing) simp_all
  then have "- overflow_bound < a" "2 ^ 64 < overflow_bound"
    using overflow_bound_gt assms(4) by linarith+
  from f64_of_rat_between [OF assms(1) g assms(2,3) this] assms(5) show ?thesis by simp
qed

lemma counted_mops:
  assumes "0 < n" "n < 2 ^ 60"
  shows "\<exists>q. f64_of_u64 (of_nat n) / RUN_SECS / f64_lit 1000000 = Fin q \<and> 1 / 2 ^ 23 \<le> q"
proof -
  let ?w = "of_nat n :: u64"
  have "rat_of_u64 1 \<le> rat_of_u64 ?w"
    unfolding rat_of_u64_mono using assms by (simp add: word_le_nat_alt unat_of_nat)
  then have x: "f64_of_u64 ?w = Fin (rne (rat_of_u64 ?w))" "1 \<le> rne (rat_of_u64 ?w)" "rne (rat_of_u64 ?w) \<le> 2 ^ 64"
    using rne_between [OF on_grid_1] rne_u64_range by (simp_all add: f64_of_u64_eq)
  have g: "on_grid (1 / 8)" "on_grid (1 / 2 ^ 23)"
    by (rule on_gridI [of _ 1 "- 3"] on_gridI [of _ 1 "- 23"]; simp add: power_int_minus_divide)+
  have c: "RUN_SECS = Fin 5" "f64_lit 1000000 = Fin 1000000"
    using f64_of_nat_small [of 5] f64_of_nat_small [of 1000000] by (simp_all add: RUN_SECS_def f64_of_nat_def)
  obtain y where y: "Fin (rne (rat_of_u64 ?w)) / Fin 5 = Fin y" "1 / 8 \<le> y" "y \<le> 2 ^ 64"
    using div_between [OF g(1), of "rne (rat_of_u64 ?w)" 5] x(2,3) by auto
  obtain q where "Fin y / Fin 1000000 = Fin q" "1 / 2 ^ 23 \<le> q"
    using div_between [OF g(2), of y 1000000] y(2,3) by auto
  then show ?thesis by (simp only: x(1) c y(1)) blast
qed

lemma baseline_ratio:
  assumes "m = f64_of_u64 (of_nat n) / RUN_SECS / f64_lit 1000000" "n < 2 ^ 60"
  shows "m / f64_max m (f64_lit (1 / 10 ^ 9)) = (if n = 0 then 0 else 1)"
proof -
  have g: "on_grid (1 / 2 ^ 29)" "on_grid (1 / 2 ^ 30)"
    by (rule on_gridI [of _ 1 "- 29"] on_gridI [of _ 1 "- 30"]; simp add: power_int_minus_divide)+
  define e where "e = rne (1 / 10 ^ 9)"
  have "f64_lit (1 / 10 ^ 9) = Fin e" unfolding e_def by (rule modest_no_overflow) simp
  moreover have "1 / 2 ^ 30 \<le> e" "e \<le> 1 / 2 ^ 29"
    unfolding e_def by (rule rne_between [OF g(2)] rne_below [OF g(1)]; simp)+
  then have "0 < e" "e < 1 / 2 ^ 23" by simp_all
  moreover have "m = Fin 0" if "n = 0"
  proof -
    have c: "RUN_SECS = Fin 5" "f64_lit 1000000 = Fin 1000000"
      using f64_of_nat_small [of 5] f64_of_nat_small [of 1000000] by (simp_all add: RUN_SECS_def f64_of_nat_def)
    show ?thesis unfolding assms(1) that c by (simp add: f64_of_u64_def)
  qed
  moreover have "\<exists>q. m = Fin q \<and> 1 / 2 ^ 23 \<le> q" if "n \<noteq> 0"
    using counted_mops [of n] that assms by simp
  ultimately show ?thesis
    by (cases "n = 0") (auto simp: f64_max_def zero_f64_def one_f64_def)
qed

section \<open>The whole table\<close>

text \<open>What the three rows of a number of threads say: the baseline is compared with itself, and the backlog of
  the discrete strategy is not measured.\<close>

definition rows_ok :: "(strat \<Rightarrow> nat \<Rightarrow> (nat \<times> bool) list) \<Rightarrow> nat \<Rightarrow> summary_row list \<Rightarrow> bool" where
  "rows_ok sched tc rows \<longleftrightarrow>
     map s_name rows = map snd strats \<and> (\<forall>row \<in> set rows. s_threads row = tc) \<and>
     s_vs (rows ! 0) = (if filter snd (sched Strat_Batch_Ebr tc) = [] then 0 else 1) \<and>
     s_peak (rows ! 0) \<le> 4 * length (sched Strat_Batch_Ebr tc) \<and>
     s_peak (rows ! 1) \<le> 4 * length (sched Strat_Token_Af tc) \<and>
     s_peak (rows ! 2) = 0"

definition scheds_ok :: "(strat \<Rightarrow> nat \<Rightarrow> (nat \<times> bool) list) \<Rightarrow> nat \<Rightarrow> bool" where
  "scheds_ok sched tc \<longleftrightarrow> (\<forall>strat. length (sched strat tc) < 2 ^ 60 \<and> (\<forall>(i, c) \<in> set (sched strat tc). i < tc))"

lemma compare_rows_ok:
  assumes "mops ebr_r = f64_of_u64 (of_nat (length (filter snd (sched Strat_Batch_Ebr tc)))) / RUN_SECS / f64_lit 1000000"
    and "length (sched Strat_Batch_Ebr tc) < 2 ^ 60"
    and "peak_limbo ebr_r \<le> 4 * length (sched Strat_Batch_Ebr tc)" "peak_limbo af_r \<le> 4 * length (sched Strat_Token_Af tc)"
    and "peak_limbo pac_r = 0"
  shows "rows_ok sched tc (compare_rows tc ebr_r af_r pac_r)"
proof -
  have "length (filter snd (sched Strat_Batch_Ebr tc)) < 2 ^ 60"
    using assms(2) length_filter_le [of snd "sched Strat_Batch_Ebr tc"] by (rule order.strict_trans1 [rotated])
  from baseline_ratio [OF assms(1) this] assms(3-5) show ?thesis
    by (simp add: rows_ok_def compare_rows_def strats_def Let_def)
qed

lemma summary_ok:
  assumes "retires_few lib"
    and "\<forall>tc \<in> set tcs. tc + 1 \<le> MAX_THREADS \<and> lib_new lib (of_nat (tc + 1)) \<noteq> None \<and> scheds_ok sched tc"
  shows "\<exists>groups. summary lib sched tcs = Inr (concat groups) \<and> list_all2 (rows_ok sched) tcs groups"
  using assms(2)
proof (induction tcs)
  case (Cons tc tcs)
  then obtain tree where tree: "lib_new lib (of_nat (tc + 1)) = Some tree" "tc + 1 \<le> MAX_THREADS" "scheds_ok sched tc"
    by auto
  have run: "\<exists>r (s :: ('a, u64) tb_state). run_once strat lib tc (sched strat tc) = Inr (r, s) \<and>
      mops r = f64_of_u64 (of_nat (length (filter snd (sched strat tc)))) / RUN_SECS / f64_lit 1000000 \<and>
      (strat = Strat_Pacer_Discrete \<longrightarrow> peak_limbo r = 0) \<and> peak_limbo r \<le> 4 * length (sched strat tc)" for strat
    using run_once_ok [OF assms(1) tree(2,1), of "sched strat tc" strat] tree(3) unfolding scheds_ok_def by blast
  from run [of Strat_Batch_Ebr] run [of Strat_Token_Af] run [of Strat_Pacer_Discrete] obtain ebr af pac
    and s1 s2 s3 :: "('a, u64) tb_state" where
    r: "run_once Strat_Batch_Ebr lib tc (sched Strat_Batch_Ebr tc) = Inr (ebr, s1)"
      "run_once Strat_Token_Af lib tc (sched Strat_Token_Af tc) = Inr (af, s2)"
      "run_once Strat_Pacer_Discrete lib tc (sched Strat_Pacer_Discrete tc) = Inr (pac, s3)"
    and q: "mops ebr = f64_of_u64 (of_nat (length (filter snd (sched Strat_Batch_Ebr tc)))) / RUN_SECS / f64_lit 1000000"
      "peak_limbo ebr \<le> 4 * length (sched Strat_Batch_Ebr tc)" "peak_limbo af \<le> 4 * length (sched Strat_Token_Af tc)"
      "peak_limbo pac = 0"
    by metis
  have "rows_ok sched tc (compare_rows tc ebr af pac)"
    using tree(3) q by (intro compare_rows_ok) (simp_all add: scheds_ok_def)
  moreover obtain groups where "summary lib sched tcs = Inr (concat groups)" "list_all2 (rows_ok sched) tcs groups"
    using Cons by auto
  ultimately show ?case
    by (intro exI [of _ "compare_rows tc ebr af pac # groups"]) (simp add: r)
qed simp



end
