(* ===== verification/Unit_Tests.thy ===== *)
theory Unit_Tests
  imports Backlog
begin

text \<open>
  The unit tests of \<open>src/src/lib.rs\<close> as definitions over the model, and the proof that the model passes
  them. A test is a truth value: nothing panics and every assertion holds. They say how the
  authors expect the parts to behave together, so they are a check of the model itself.
\<close>

section \<open>Running a test\<close>

fun passes :: "bool res \<Rightarrow> bool" where
  "passes (Inr b) = b"
| "passes (Inl e) = False"

definition thr :: "pacer_system \<Rightarrow> (pacer_system \<times> thread_local_state) res" where
  "thr s = (let (s', r) = register_thread s in bind_res r (\<lambda>i. Inr (s', thread_local_state_new i)))"

section \<open>Sampling and modes\<close>

definition spi_zero_no_snaps :: bool where
  "spi_zero_no_snaps = passes (bind_res (thr pacer_system_new) (\<lambda>(s, t).
     let (s', t') = resample_spi s (t\<lparr>win_writes := 100\<rparr>) in Inr (spi_ema t' < f64_lit (2 / 100))))"

primrec snap_windows :: "nat \<Rightarrow> pacer_system \<times> thread_local_state \<Rightarrow> pacer_system \<times> thread_local_state" where
  "snap_windows 0 st = st"
| "snap_windows (Suc n) st =
     (let (s, t) = st in snap_windows n (resample_spi s (t\<lparr>win_snaps := 100, win_writes := 0\<rparr>)))"

definition spi_high_all_snaps :: bool where
  "spi_high_all_snaps = passes (bind_res (thr pacer_system_new) (\<lambda>st.
     Inr (f64_lit (70 / 100) < spi_ema (snd (snap_windows 10 st)))))"

definition spi_resets_window :: bool where
  "spi_resets_window = passes (bind_res (thr pacer_system_new) (\<lambda>(s, t).
     let (s', t') = resample_spi s (t\<lparr>win_writes := 50, win_snaps := 50\<rparr>)
     in Inr (win_writes t' = 0 \<and> win_snaps t' = 0)))"

definition gc_modes :: bool where
  "gc_modes \<longleftrightarrow>
     select_gc_mode (f64_lit 0) = AggressiveEbr \<and>
     select_gc_mode (f64_lit (30 / 100)) = AggressiveEbr \<and>
     select_gc_mode (f64_lit (31 / 100)) = AmortisedFree \<and>
     select_gc_mode (f64_lit (60 / 100)) = AmortisedFree \<and>
     select_gc_mode (f64_lit (61 / 100)) = ConservativeHold \<and>
     select_gc_mode (f64_lit 1) = ConservativeHold"

definition flapping_samples :: "f64 list" where
  "flapping_samples = map (\<lambda>n. f64_lit (n / 100)) [32, 28, 33, 27, 31, 29, 34, 26]"

definition gc_mode_hysteresis_suppresses_flapping :: bool where
  "gc_mode_hysteresis_suppresses_flapping \<longleftrightarrow>
     (\<exists>s \<in> set flapping_samples. select_gc_mode s \<noteq> select_gc_mode (hd flapping_samples)) \<and>
     flips AggressiveEbr flapping_samples = 0 \<and>
     (select_gc_mode_with_hysteresis (f64_lit (90 / 100)) ^^ 3) AggressiveEbr = ConservativeHold"

definition batch_k_continuous :: bool where
  "batch_k_continuous \<longleftrightarrow>
     compute_batch_k (f64_lit 0) (f64_lit 0) = unat MAX_BATCH \<and>
     compute_batch_k (f64_lit 1) (f64_lit 0) = unat MIN_BATCH \<and>
     compute_batch_k (f64_lit (5 / 10)) (f64_lit (2 / 10)) < compute_batch_k (f64_lit (5 / 10)) (f64_lit 0)"

definition stride_grows :: bool where
  "stride_grows \<longleftrightarrow>
     compute_epoch_stride (f64_lit 0) = BASE_STRIDE \<and> BASE_STRIDE < compute_epoch_stride (f64_lit 1)"

section \<open>Snapshots and announcements\<close>

fun spins_never :: "bool option \<Rightarrow> bool" where
  "spins_never (Some b) = b"
| "spins_never None = False"

definition scc_coalesces :: bool where
  "scc_coalesces = spins_never (do {
     (t1, s1) \<leftarrow> scc_take_snapshot (scc pacer_system_new) 0 (global_epoch pacer_system_new);
     (t2, s2) \<leftarrow> scc_take_snapshot s1 50000 (global_epoch pacer_system_new);
     Some (t1 = t2)
   })"

definition scc_new_window :: bool where
  "scc_new_window = spins_never (do {
     (t1, s1) \<leftarrow> scc_take_snapshot (scc pacer_system_new) 0 (global_epoch pacer_system_new);
     (t2, s2) \<leftarrow> scc_take_snapshot s1 (SCC_MAX_WINDOW_NS * 2) (global_epoch pacer_system_new + 10);
     Some (t1 \<noteq> t2)
   })"

definition announce_min_ts :: bool where
  "announce_min_ts = passes (
     let (tbl1, ra) = register announcement_table_new; (tbl2, rb) = register tbl1 in
     bind_res ra (\<lambda>a. bind_res rb (\<lambda>b.
     bind_res (announce tbl2 a 10) (\<lambda>tbl3.
     bind_res (announce tbl3 b 5) (\<lambda>tbl4.
     bind_res (min_active_ts tbl4) (\<lambda>m1.
     bind_res (release tbl4 b) (\<lambda>tbl5.
     bind_res (min_active_ts tbl5) (\<lambda>m2.
     bind_res (release tbl5 a) (\<lambda>tbl6.
     bind_res (min_active_ts tbl6) (\<lambda>m3.
     Inr (m1 = 5 \<and> m2 = 10 \<and> m3 = u64_max)))))))))))"

definition safe_reclaim_via_announce :: bool where
  "safe_reclaim_via_announce = passes (
     bind_res (thr pacer_system_new) (\<lambda>(s, t).
     bind_res (safe_reclaim_ts s) (\<lambda>m1.
     bind_res (announce_snapshot s (tid t) 42) (\<lambda>s1.
     bind_res (safe_reclaim_ts s1) (\<lambda>m2.
     bind_res (release_snapshot_for s1 t) (\<lambda>s2.
     bind_res (safe_reclaim_ts s2) (\<lambda>m3.
     Inr (m1 = u64_max \<and> m2 = 42 \<and> m3 = u64_max))))))))"

section \<open>Bags and writes\<close>

definition limbo_deque_drain :: bool where
  "limbo_deque_drain = passes (
     let (n1, m1) = version_node_new 1 1 (empty_memory :: u64 memory);
         (n2, m2) = version_node_new 2 2 m1;
         b = limbo_push (limbo_push limbo_bag_new 1 n1) 2 n2
     in bind_res (drain b 2 10 m2) (\<lambda>(k1, b1, m3).
        bind_res (drain b1 10 10 m3) (\<lambda>(k2, b2, m4).
        Inr (k1 = 1 \<and> k2 = 1 \<and> limbo_len b2 = 0))))"

fun push_nodes :: "u64 list \<Rightarrow> limbo_bag \<times> u64 memory \<Rightarrow> limbo_bag \<times> u64 memory" where
  "push_nodes [] st = st"
| "push_nodes (i # is) (b, m) = (let (p, m') = version_node_new i i m in push_nodes is (limbo_push b i p, m'))"

definition limbo_batch_limit :: bool where
  "limbo_batch_limit = passes (
     let (b, m) = push_nodes (map of_nat [0..<10]) (limbo_bag_new, empty_memory)
     in bind_res (drain b u64_max 3 m) (\<lambda>(k1, b1, m1).
        bind_res (drain b1 u64_max usize_max m1) (\<lambda>(k2, b2, m2). Inr (k1 = 3))))"

fun write_loop :: "u64 list \<Rightarrow> u64 worker \<Rightarrow> u64 worker res" where
  "write_loop [] w = Inr w"
| "write_loop (i # xs) (s, t, m) =
     (let (n, ts, s1, t1, m1) = write_op_prepare s t i m
      in bind_res (post_write s1 t1 n ts m1) (\<lambda>(k, w). write_loop xs w))"

definition write_reclaim_no_panic :: bool where
  "write_reclaim_no_panic = passes (bind_res (thr pacer_system_new) (\<lambda>(s, t).
     bind_res (write_loop (map of_nat [0..<unat WINDOW_SIZE]) (s, t, empty_memory)) (\<lambda>w. Inr True)))"

definition hold_mode_limbo_growth_is_bounded :: bool where
  "hold_mode_limbo_growth_is_bounded = passes (bind_res (thr pacer_system_new) (\<lambda>(s, t).
     bind_res (write_loop (map of_nat [0..<50000])
         (s, t\<lparr>spi_ema := f64_lit (90 / 100), gc_mode := ConservativeHold\<rparr>, empty_memory)) (\<lambda>(s1, t1, m1).
     bind_res (drain_bag t1 u64_max usize_max m1) (\<lambda>r.
     Inr (limbo_len (limbo_bag t1) < 10 * unat HOLD_LIMIT)))))"

definition unit_tests :: "bool list" where
  "unit_tests = [spi_zero_no_snaps, spi_high_all_snaps, spi_resets_window, gc_modes,
     gc_mode_hysteresis_suppresses_flapping, batch_k_continuous, stride_grows, scc_coalesces, scc_new_window,
     announce_min_ts, safe_reclaim_via_announce, limbo_deque_drain, limbo_batch_limit, write_reclaim_no_panic,
     hold_mode_limbo_growth_is_bounded]"

section \<open>They pass\<close>

lemma thr_new: "thr pacer_system_new = Inr one_thread"
  by (simp add: thr_def one_thread_def register_thread_def register_def Let_def pacer_system_new_def
      announcement_table_new_def MAX_THREADS_def)

lemma thr_new_pair: "thr pacer_system_new = Inr (fst one_thread, thread_local_state_new 0)"
  using one_thread_simps(1) by (simp add: thr_new prod_eq_iff)

lemma new_thread_fields [simp]:
  "spi_ema (thread_local_state_new i) = Fin 0" "win_snaps (thread_local_state_new i) = 0"
  "win_writes (thread_local_state_new i) = 0" "tid (thread_local_state_new i) = i"
  "gc_mode (thread_local_state_new i) = AggressiveEbr" "limbo_bag (thread_local_state_new i) = []"
  by (simp_all add: thread_local_state_new_def limbo_bag_new_def)

text \<open>Literals by rounding bounds: a rational between two numbers of few bits.\<close>

lemma lit_between:
  assumes "on_grid a" "on_grid b" "a \<le> x" "x \<le> b" "\<bar>a\<bar> \<le> 1024" "\<bar>b\<bar> \<le> 1024"
  shows "\<exists>y. f64_of_rat x = Fin y \<and> a \<le> y \<and> y \<le> b"
proof -
  have "\<bar>x\<bar> \<le> 1024" using assms by linarith
  then show ?thesis using rne_within [OF assms(1-4)] by (auto simp: small_of_rat)
qed

lemma on_grid_shift: "\<bar>m\<bar> < 2 ^ 53 \<Longrightarrow> k \<le> 1074 \<Longrightarrow> on_grid (of_int m / 2 ^ k)"
  by (rule on_gridI [of _ m "- int k"]) (simp_all add: power_int_minus divide_inverse)

lemma small_fractions: "on_grid (1 / 64)" "on_grid (3 / 4)" "on_grid (15 / 16)" "on_grid (1 / 4)" "on_grid (1 / 2)"
  using on_grid_shift [of 1 6] on_grid_shift [of 3 2] on_grid_shift [of 15 4] on_grid_shift [of 1 2] on_grid_shift [of 1 1]
  by simp_all

lemma lit_2: "\<exists>y. f64_lit (2 / 100) = Fin y \<and> 1 / 64 \<le> y"
  using lit_between [OF small_fractions(1) on_grid_1, of "2 / 100"] by auto

lemma test_spi_zero: spi_zero_no_snaps
proof -
  let ?t = "(thread_local_state_new 0)\<lparr>win_writes := 100\<rparr>"
  obtain s' t' where r: "resample_spi (fst one_thread) ?t = (s', t')" by fastforce
  have "ema_next 0 (win_share 100 0) = 0" by (simp add: ema_next_def win_share_def)
  moreover have "no_window_overflow ?t" by (simp add: no_window_overflow_def)
  ultimately have "spi_ema t' = Fin 0"
    using resample_counted(1) [of ?t 0 "fst one_thread"] r by simp
  moreover obtain y where "f64_lit (2 / 100) = Fin y" "1 / 64 \<le> y" using lit_2 by blast
  then have "Fin 0 < f64_lit (2 / 100)" by simp
  ultimately show ?thesis by (simp add: spi_zero_no_snaps_def thr_new_pair r)
qed

text \<open>Ten windows of snapshots: a lower bound of the index in steps of \<open>1 / 1024\<close>.\<close>

lemma ema_lower:
  assumes "of_int m / 2 ^ 10 \<le> x" "of_int p \<le> of_int m * keep_alpha" "0 \<le> p" "p + 151 < 2 ^ 53" "63 / 64 \<le> y"
  shows "of_int (p + 151) / 2 ^ 10 \<le> ema_next x y"
proof -
  have "of_int p / 2 ^ 10 \<le> of_int m / 2 ^ 10 * keep_alpha" using assms(2) by (simp add: divide_right_mono)
  also have "\<dots> \<le> x * keep_alpha" using assms(1) alphas(1) by (intro mult_right_mono) simp_all
  finally have "of_int p / 2 ^ 10 \<le> rne (x * keep_alpha)"
    using assms(3,4) by (intro rne_between on_grid_shift) simp_all
  moreover have "of_int 151 / 2 ^ 10 \<le> y * ema_alpha"
    using mult_right_mono [OF assms(5), of ema_alpha] by (simp add: ema_alpha_def)
  then have "of_int 151 / 2 ^ 10 \<le> rne (y * ema_alpha)" by (intro rne_between on_grid_shift) simp_all
  ultimately have "of_int (p + 151) / 2 ^ 10 \<le> rne (x * keep_alpha) + rne (y * ema_alpha)"
    unfolding of_int_add add_divide_distrib by (rule add_mono)
  then show ?thesis unfolding ema_next_def using assms(3,4) by (intro rne_between on_grid_shift) simp_all
qed

lemma share_100: "63 / 64 \<le> win_share 0 100"
proof -
  have g: "on_grid 100" "on_grid 101" "on_grid (63 / 64)"
    using on_grid_numeral on_grid_shift [of 63 6] by simp_all
  have "rat_of_u64 100 = 100" "rat_of_u64 101 = 101" by (simp_all add: rat_of_u64_def)
  then show ?thesis
    unfolding win_share_def using rne_grid [OF g(1)] rne_grid [OF g(2)] rne_between [OF g(3), of "100 / 101"] by simp
qed

lemma snap_window_step:
  assumes "spi_ema t = Fin x" "0 \<le> x" "x \<le> 1" "of_int m / 2 ^ 10 \<le> x"
    and "of_int p \<le> of_int m * keep_alpha" "0 \<le> p" "p + 151 < 2 ^ 53"
    and "resample_spi s (t\<lparr>win_snaps := 100, win_writes := 0\<rparr>) = (s', t')"
  shows "\<exists>x'. spi_ema t' = Fin x' \<and> 0 \<le> x' \<and> x' \<le> 1 \<and> of_int (p + 151) / 2 ^ 10 \<le> x'"
proof -
  let ?t = "t\<lparr>win_snaps := 100, win_writes := 0\<rparr>"
  have "no_window_overflow ?t" by (simp add: no_window_overflow_def)
  then have "spi_ema t' = Fin (ema_next x (win_share 0 100))"
    using resample_counted(1) [of ?t x s] assms(1-3,8) by auto
  moreover have "0 \<le> win_share 0 100" "win_share 0 100 \<le> 1" using win_share(2,3) [of 0 100] by simp_all
  ultimately show ?thesis
    using ema_next(2,3) [OF assms(2,3), of "win_share 0 100"] ema_lower [OF assms(4-7) share_100] by auto
qed

primrec lower_spi :: "nat \<Rightarrow> int \<Rightarrow> int" where
  "lower_spi 0 m = m"
| "lower_spi (Suc n) m = lower_spi n (\<lfloor>of_int m * keep_alpha\<rfloor> + 151)"

lemma snap_windows_lower:
  assumes "spi_ema (snd st) = Fin x" "0 \<le> x" "x \<le> 1" "of_int m / 2 ^ 10 \<le> x" "0 \<le> m"
  shows "\<exists>x'. spi_ema (snd (snap_windows n st)) = Fin x' \<and> of_int (lower_spi n m) / 2 ^ 10 \<le> x'"
  using assms
proof (induction n arbitrary: st x m)
  case (Suc n)
  let ?p = "\<lfloor>of_int m * keep_alpha\<rfloor>"
  obtain s t where st: "st = (s, t)" by (cases st)
  obtain s' t' where r: "resample_spi s (t\<lparr>win_snaps := 100, win_writes := 0\<rparr>) = (s', t')" by fastforce
  have "(of_int m :: rat) \<le> of_int 1024" using Suc.prems(3,4) by simp
  then have "m \<le> 1024" by (simp only: of_int_le_iff)
  moreover have "of_int m * keep_alpha \<le> of_int m" using Suc.prems(5) alphas(1,3) by (simp add: mult_left_le)
  ultimately have p: "0 \<le> ?p" "?p \<le> 1024" "of_int ?p \<le> of_int m * keep_alpha"
    using Suc.prems(5) alphas(1) by (simp_all add: floor_le_iff)
  obtain x' where "spi_ema t' = Fin x'" "0 \<le> x'" "x' \<le> 1" "of_int (?p + 151) / 2 ^ 10 \<le> x'"
    using snap_window_step [OF _ Suc.prems(2,3,4) p(3,1) _ r] Suc.prems(1) p(2) st by auto
  then show ?case using Suc.IH [of "(s', t')" x' "?p + 151"] p(1) by (simp add: st r)
qed auto

lemma lower_spi_10: "lower_spi 10 0 = 806"
  by (simp add: eval_nat_numeral keep_alpha_def)

lemma test_spi_high: spi_high_all_snaps
proof -
  obtain x where "spi_ema (snd (snap_windows 10 one_thread)) = Fin x" "of_int 806 / 2 ^ 10 \<le> x"
    using snap_windows_lower [of one_thread 0 0 10] by (auto simp: one_thread_simps lower_spi_10)
  moreover obtain y where "f64_lit (70 / 100) = Fin y" "y \<le> 3 / 4"
    using lit_between [OF small_fractions(5,2), of "70 / 100"] by auto
  ultimately show ?thesis by (simp add: spi_high_all_snaps_def thr_new)
qed

lemma test_spi_resets: spi_resets_window
proof -
  let ?t = "(thread_local_state_new 0)\<lparr>win_writes := 50, win_snaps := 50\<rparr>"
  have "no_window_overflow ?t" by (simp add: no_window_overflow_def)
  then show ?thesis
    using resample_counted(1) [of ?t 0 "fst one_thread"] by (simp add: spi_resets_window_def thr_new_pair)
qed

lemma dyadics:
  "on_grid (39 / 128)" "on_grid (39 / 64)" "on_grid (11 / 32)" "on_grid (5 / 16)" "on_grid (9 / 32)" "on_grid (7 / 8)" "on_grid (19 / 32)"
  using on_grid_shift [of 39 7] on_grid_shift [of 39 6] on_grid_shift [of 11 5] on_grid_shift [of 5 4]
    on_grid_shift [of 9 5] on_grid_shift [of 7 3] on_grid_shift [of 19 5]
  by simp_all

lemma select_lit:
  assumes "on_grid a" "on_grid b" "a \<le> x" "x \<le> b" "0 \<le> a" "b \<le> 1"
  shows "b \<le> low_mid \<Longrightarrow> select_gc_mode (f64_lit x) = AggressiveEbr"
    and "low_mid < a \<Longrightarrow> b \<le> high_mid \<Longrightarrow> select_gc_mode (f64_lit x) = AmortisedFree"
    and "high_mid < a \<Longrightarrow> select_gc_mode (f64_lit x) = ConservativeHold"
proof -
  have "\<bar>a\<bar> \<le> 1024" "\<bar>b\<bar> \<le> 1024" using assms(3-6) by simp_all
  from lit_between [OF assms(1-4) this] obtain y where y: "f64_lit x = Fin y" "a \<le> y" "y \<le> b" by auto
  show "b \<le> low_mid \<Longrightarrow> select_gc_mode (f64_lit x) = AggressiveEbr"
    using y by (auto simp: select_Fin)
  show "low_mid < a \<Longrightarrow> b \<le> high_mid \<Longrightarrow> select_gc_mode (f64_lit x) = AmortisedFree"
    using y by (auto simp: select_Fin)
  show "high_mid < a \<Longrightarrow> select_gc_mode (f64_lit x) = ConservativeHold"
    using y threshold_order by (auto simp: select_Fin)
qed

lemma test_gc_modes: gc_modes
proof -
  have "select_gc_mode (f64_lit 0) = AggressiveEbr"
    by (rule select_lit(1) [of 0 0]) (simp_all add: threshold_defs)
  moreover have "select_gc_mode (f64_lit (30 / 100)) = AggressiveEbr"
    unfolding SPI_WRITE_HEAVY_def [symmetric] threshold_values by (simp add: select_Fin)
  moreover have "select_gc_mode (f64_lit (31 / 100)) = AmortisedFree"
    by (rule select_lit(2) [OF dyadics(1) small_fractions(5)]) (simp_all add: threshold_defs)
  moreover have "select_gc_mode (f64_lit (60 / 100)) = AmortisedFree"
    unfolding SPI_SNAP_HEAVY_def [symmetric] threshold_values using threshold_order by (simp add: select_Fin)
  moreover have "select_gc_mode (f64_lit (61 / 100)) = ConservativeHold"
    by (rule select_lit(3) [OF dyadics(2) small_fractions(2)]) (simp_all add: threshold_defs)
  moreover have "select_gc_mode (f64_lit 1) = ConservativeHold"
    by (rule select_lit(3) [of 1 1]) (simp_all add: threshold_defs)
  ultimately show ?thesis by (simp add: gc_modes_def)
qed

lemma sample_stays:
  assumes "1 / 4 \<le> x" "x \<le> 11 / 32"
  shows "select_gc_mode_with_hysteresis (f64_lit x) AggressiveEbr = AggressiveEbr"
proof -
  obtain y where "f64_lit x = Fin y" "y \<le> 11 / 32"
    using lit_between [OF small_fractions(4) dyadics(3) assms] by auto
  then show ?thesis by (simp add: hysteresis_Fin threshold_defs)
qed

lemma test_hysteresis: gc_mode_hysteresis_suppresses_flapping
proof -
  have "select_gc_mode (f64_lit (32 / 100)) = AmortisedFree"
    by (rule select_lit(2) [OF dyadics(4) small_fractions(5)]) (simp_all add: threshold_defs)
  moreover have "select_gc_mode (f64_lit (28 / 100)) = AggressiveEbr"
    by (rule select_lit(1) [OF small_fractions(4) dyadics(5)]) (simp_all add: threshold_defs)
  moreover have "flips AggressiveEbr flapping_samples = 0"
    by (simp add: flips_def flapping_samples_def Let_def sample_stays)
  moreover obtain y where "f64_lit (90 / 100) = Fin y" "7 / 8 \<le> y"
    using lit_between [OF dyadics(6) on_grid_1, of "90 / 100"] by auto
  then have "select_gc_mode_with_hysteresis (f64_lit (90 / 100)) m = ConservativeHold" for m
    by (cases m) (simp_all add: hysteresis_Fin threshold_defs)
  ultimately show ?thesis
    by (simp add: gc_mode_hysteresis_suppresses_flapping_def flapping_samples_def eval_nat_numeral)
qed

lemma half: "f64_lit (5 / 10) = Fin (1 / 2)"
  using lit_0_5 by (simp add: TREND_WEIGHT_def)

lemma batch_half:
  "f64_of_u64 MAX_BATCH * (1 - Fin (1 / 2)) = Fin 32"
proof -
  have r: "rne (1 / 2) = 1 / 2" "rne 32 = 32"
    by (rule rne_grid, rule small_fractions) (rule rne_grid, simp add: on_grid_numeral)
  have "base_batch (1 / 2) = 32" by (simp add: base_batch_def r)
  then show ?thesis using base_batch(1) [of "1 / 2"] by simp
qed

lemma batch_rising:
  assumes "3 / 16 \<le> y" "y \<le> 1 / 4"
  shows "compute_batch_k (Fin (1 / 2)) (Fin y) \<le> 29"
proof -
  have g: "on_grid (3 / 32)" "on_grid (1 / 8)" "on_grid (7 / 8)" "on_grid (29 / 32)" "on_grid 28" "on_grid 29"
    using on_grid_shift [of 3 5] on_grid_shift [of 1 3] on_grid_shift [of 7 3] on_grid_shift [of 29 5]
    by (simp_all add: on_grid_numeral)
  define a b c where "a = rne (y * (1 / 2))" and "b = rne (1 - a)" and "c = rne (32 * b)"
  have a: "3 / 32 \<le> a \<and> a \<le> 1 / 8" unfolding a_def using assms by (intro rne_within g) simp_all
  have b: "7 / 8 \<le> b \<and> b \<le> 29 / 32" unfolding b_def using a by (intro rne_within g) simp_all
  have c: "28 \<le> c \<and> c \<le> 29" unfolding c_def using b by (intro rne_within g) simp_all
  have "Fin 32 * (1 - Fin y * TREND_WEIGHT) = Fin c"
  proof -
    have "Fin y * TREND_WEIGHT = Fin a" using assms by (simp only: lit_0_5 fin_arith a_def) (simp add: small_of_rat)
    moreover have "1 - Fin a = Fin b" using a by (simp only: one_f64_def fin_arith b_def) (simp add: small_of_rat)
    moreover have "Fin 32 * Fin b = Fin c" using b by (simp only: fin_arith c_def) (simp add: small_of_rat)
    ultimately show ?thesis by simp
  qed
  moreover have "TREND_THRESHOLD < Fin y" using assms(1) by (simp add: lit_0_05)
  ultimately have "compute_batch_k (Fin (1 / 2)) (Fin y) = unat (max (f64_to_u64 (Fin c)) 1)"
    by (simp add: compute_batch_k_def batch_half MIN_BATCH_def)
  moreover have "unat (f64_to_u64 (Fin c)) \<le> 29" using c by (intro unat_at_most) simp_all
  ultimately show ?thesis by (simp add: max_def)
qed

lemma test_batch_k: batch_k_continuous
proof -
  have flat: "\<not> TREND_THRESHOLD < Fin 0" by (simp add: lit_0_05)
  have "compute_batch_k 0 (Fin 0) = 64 \<and> compute_batch_k 1 (Fin 0) = 1"
    using batch_k_antimonotone [of 0 1 "Fin 0"] flat by (simp add: zero_f64_def one_f64_def spi_ok_Fin)
  moreover have "compute_batch_k (Fin (1 / 2)) (Fin 0) = 32"
  proof -
    have "unat (f64_to_u64 (Fin 32)) = 32" by (subst unat_f64_to_u64) simp_all
    then show ?thesis using flat by (simp add: compute_batch_k_def batch_half MIN_BATCH_def max_def word_le_nat_alt)
  qed
  moreover have "on_grid (3 / 16)" using on_grid_shift [of 3 4] by simp
  then obtain y where "f64_lit (2 / 10) = Fin y" "3 / 16 \<le> y" "y \<le> 1 / 4"
    using lit_between [OF _ small_fractions(4), of "3 / 16" "2 / 10"] by auto
  ultimately show ?thesis
    using batch_rising [of y] by (simp only: batch_k_continuous_def half) (simp add: MAX_BATCH_def MIN_BATCH_def zero_f64_def one_f64_def)
qed

lemma test_stride: stride_grows
  using epoch_stride_monotone [of 0 1]
  by (simp add: stride_grows_def zero_f64_def one_f64_def spi_ok_Fin BASE_STRIDE_def)

text \<open>The window the first snapshot of a new system opens.\<close>

lemma first_window:
  obtains s1 where "scc_take_snapshot (scc pacer_system_new) 0 (global_epoch pacer_system_new) = Some (1, s1)"
    "scc_ok s1" "even (window_gen s1)" "current_ts s1 = 1"
    "\<forall>now. coalesces s1 now \<longleftrightarrow> now < adaptive_w_ns s1"
proof -
  define s1 where "s1 = open_window (scc_new\<lparr>total_count := total_count scc_new + 1\<rparr>) 0 0 1"
  have "window_gen scc_new = 0" by (simp add: scc_new_def)
  then have "scc_take_snapshot (scc pacer_system_new) 0 (global_epoch pacer_system_new) = Some (1, s1)"
    by (simp add: take_snapshot_even Let_def pacer_system_new_def s1_def)
  moreover have "scc_ok s1" unfolding s1_def by (rule open_window_ok) simp
  moreover have "window_gen s1 = 2" "current_ts s1 = 1" "window_open_at s1 = 0"
    by (simp_all add: s1_def open_window_fields)
  moreover from this have "coalesces s1 now \<longleftrightarrow> now < adaptive_w_ns s1" for now
    by (simp add: coalesces_def saturating_sub_def)
  ultimately show thesis by (intro that [of s1]) simp_all
qed

lemma test_scc_coalesces: scc_coalesces
proof -
  obtain s1 where f: "scc_take_snapshot (scc pacer_system_new) 0 (global_epoch pacer_system_new) = Some (1, s1)"
    "scc_ok s1" "even (window_gen s1)" "current_ts s1 = 1" "\<forall>now. coalesces s1 now \<longleftrightarrow> now < adaptive_w_ns s1"
    using first_window by blast
  have "50000 < SCC_MIN_WINDOW_NS" by (simp add: SCC_MIN_WINDOW_NS_def)
  then have "coalesces s1 50000" using f(2,5) by (auto simp: scc_ok_def intro: less_le_trans)
  then show ?thesis by (simp add: scc_coalesces_def f(1,4) take_snapshot_even [OF f(3)] Let_def)
qed

lemma test_scc_new_window: scc_new_window
proof -
  obtain s1 where f: "scc_take_snapshot (scc pacer_system_new) 0 (global_epoch pacer_system_new) = Some (1, s1)"
    "scc_ok s1" "even (window_gen s1)" "current_ts s1 = 1" "\<forall>now. coalesces s1 now \<longleftrightarrow> now < adaptive_w_ns s1"
    using first_window by blast
  have "SCC_MAX_WINDOW_NS \<le> SCC_MAX_WINDOW_NS * 2" by (simp add: SCC_MAX_WINDOW_NS_def)
  then have "\<not> coalesces s1 (SCC_MAX_WINDOW_NS * 2)" using f(2,5) by (auto simp: scc_ok_def not_less intro: order.trans)
  then show ?thesis
    by (simp add: scc_new_window_def f(1) take_snapshot_even [OF f(3)] Let_def) (simp add: pacer_system_new_def)
qed

text \<open>The table of up to two threads.\<close>

lemma scan_two:
  assumes "length (slots t) = MAX_THREADS"
  shows "active_count t = 2 \<Longrightarrow> min_active_ts t =
      Inr (min_update (active_ts (slots t ! 1)) (min_update (active_ts (slots t ! 0)) u64_max))"
    and "active_count t = 1 \<Longrightarrow> min_active_ts t = Inr (min_update (active_ts (slots t ! 0)) u64_max)"
proof -
  have l: "0 < length (slots t)" "1 < length (slots t)" by (simp_all add: assms MAX_THREADS_def)
  have n: "unat (2 :: u32) = Suc (Suc 0)" "unat (1 :: u32) = Suc 0" by simp_all
  have u: "[0..<unat (2 :: u32)] = [0, 1]" "[0..<unat (1 :: u32)] = [0]" unfolding n by simp_all
  show "active_count t = 2 \<Longrightarrow> min_active_ts t =
      Inr (min_update (active_ts (slots t ! 1)) (min_update (active_ts (slots t ! 0)) u64_max))"
    and "active_count t = 1 \<Longrightarrow> min_active_ts t = Inr (min_update (active_ts (slots t ! 0)) u64_max)"
    using l by (simp_all only: min_active_ts_def u scan_slots.simps if_True)
qed

lemma slot_indices [simp]: "0 < MAX_THREADS" "Suc 0 < MAX_THREADS"
  by (simp_all add: MAX_THREADS_def)

lemma below_max [simp]:
  "(0 :: u64) < u64_max" "(1 :: u64) < u64_max" "(5 :: u64) < u64_max" "(10 :: u64) < u64_max" "(42 :: u64) < u64_max"
  by (simp_all flip: unat_less_u64_max)

lemma test_announce: announce_min_ts
  by (simp add: announce_min_ts_def register_def announcement_table_new_def announcement_slot_new_def announce_def
      release_def scan_two Let_def min_update_def)

lemma test_safe_reclaim: safe_reclaim_via_announce
  unfolding safe_reclaim_via_announce_def thr_new_pair one_thread_simps
  by (simp add: safe_reclaim_ts_def announce_snapshot_def
      release_snapshot_for_def release_snapshot_def pacer_system_new_def announcement_table_new_def
      announcement_slot_new_def announce_def release_def scan_two Let_def min_update_def)

lemma test_limbo_deque: limbo_deque_drain
  by (simp add: limbo_deque_drain_def version_node_new_def empty_memory_def limbo_push_def limbo_bag_new_def
      drain_def limbo_len_def)

lemma ten: "[0..<10] = [0, 1, 2, 3, 4, 5, 6, 7, 8, 9 :: nat]"
  by (simp add: upt_rec)

lemma test_limbo_batch: limbo_batch_limit
  unfolding limbo_batch_limit_def ten
  by (simp add: version_node_new_def empty_memory_def limbo_push_def limbo_bag_new_def
      drain_def limbo_len_def usize_max_def Let_def)

text \<open>The loops of writes are runs of a worker.\<close>

lemma bind_run_Inr_iff: "bind_run r f = Some (Inr y) \<longleftrightarrow> (\<exists>x. r = Some (Inr x) \<and> f x = Some (Inr y))"
  by (cases "(r, f)" rule: bind_run.cases) auto

lemma write_loop_run:
  assumes "worker_run PacerDiscrete (map Write xs) w = Some (Inr (k, w'))"
  shows "write_loop xs w = Inr w'"
  using assms
proof (induction xs arbitrary: w k)
  case (Cons i xs)
  obtain s t m where w: "w = (s, t, m)" by (metis prod_cases3)
  obtain n ts s1 t1 m1 where p: "write_op_prepare s t i m = (n, ts, s1, t1, m1)" by (metis prod_cases5)
  from Cons.prems obtain k1 w1 k2 where "post_write s1 t1 n ts m1 = Inr (k1, w1)"
    "worker_run PacerDiscrete (map Write xs) w1 = Some (Inr (k2, w'))"
    by (auto simp: w p bind_run_Inr_iff)
  then show ?case using Cons.IH by (simp add: w p)
qed simp

lemma test_writes: write_reclaim_no_panic
proof -
  let ?is = "map of_nat [0..<unat WINDOW_SIZE] :: u64 list"
  have w: "fresh_worker (Fin 0) AggressiveEbr = (fst one_thread, thread_local_state_new 0, empty_memory)"
    by (simp add: fresh_worker_def one_thread_simps(1) thread_local_state_new_def)
  have "length (map Write ?is) \<le> 2 ^ 62" by (simp add: WINDOW_SIZE_def)
  then obtain k sys t m where
    "worker_run PacerDiscrete (map Write ?is) (fresh_worker (Fin 0) AggressiveEbr) = Some (Inr (k, sys, t, m))"
    using quiet_run [of "Fin 0" "map Write ?is" PacerDiscrete AggressiveEbr] by auto
  then have "write_loop ?is (fresh_worker (Fin 0) AggressiveEbr) = Inr (sys, t, m)" by (rule write_loop_run)
  then show ?thesis by (simp add: write_reclaim_no_panic_def thr_new_pair w)
qed

lemma test_hold_mode: hold_mode_limbo_growth_is_bounded
proof -
  let ?is = "map of_nat [0..<50000] :: u64 list"
  let ?t = "(thread_local_state_new 0)\<lparr>spi_ema := f64_lit (90 / 100), gc_mode := ConservativeHold\<rparr>"
  have w: "fresh_worker (f64_lit (90 / 100)) ConservativeHold = (fst one_thread, ?t, empty_memory)"
    by (simp add: fresh_worker_def one_thread_simps(1))
  obtain y where y: "f64_lit (90 / 100) = Fin y" "7 / 8 \<le> y" "y \<le> 1"
    using lit_between [OF dyadics(6) on_grid_1, of "90 / 100"] by auto
  have "spi_ok (f64_lit (90 / 100))"
    using f64_ok_of_rat [of "90 / 100"] y(2,3) unfolding spi_ok_def y(1) by simp
  moreover have "length (map Write ?is) \<le> 2 ^ 62" by simp
  ultimately obtain k sys t m where
    r: "worker_run PacerDiscrete (map Write ?is) (fresh_worker (f64_lit (90 / 100)) ConservativeHold) = Some (Inr (k, sys, t, m))"
    "run_ok (length (map Write ?is)) (sys, t, m)" "settled PacerDiscrete t"
    using quiet_run [of "f64_lit (90 / 100)" "map Write ?is" PacerDiscrete ConservativeHold] by blast
  have l: "write_loop ?is (fst one_thread, ?t, empty_memory) = Inr (sys, t, m)"
    using write_loop_run [OF r(1)] by (simp only: w)
  have "length (limbo_bag t) < 80"
    using r(3) mod_less_divisor [of 8 "unat (op_counter t)"] by (auto simp: settled_def split: if_splits)
  moreover have "bag_ok (limbo_bag t) m" using r(2) by (simp add: run_ok_def worker_ok_def)
  then obtain n where "drain_bag t u64_max usize_max m =
      Inr (n, t\<lparr>limbo_bag := drop n (limbo_bag t)\<rparr>, free_all (take n (limbo_bag t)) m)"
    using drain_bag_total [of t m u64_max usize_max] by blast
  ultimately show ?thesis
    by (simp only: hold_mode_limbo_growth_is_bounded_def thr_new_pair bind_res.simps prod.case l)
      (simp add: limbo_len_def HOLD_LIMIT_def)
qed

section \<open>Property\<close>


end
