(* ===== verification/Mini_Window.thy ===== *)
theory Mini_Window
  imports Prelude
begin

text \<open>
  \<open>MiniWindow\<close>, the fragment of the snapshot window the loom tests of \<open>src/src/lib.rs\<close> explore: claim
  the generation, write the data, publish. The loom test has one writer and one reader, since more threads
  exceed what loom can enumerate; here any number of threads call \<open>open_or_read\<close>, each with data of its
  own, one atomic access per step.
\<close>

section \<open>The structure and its one operation\<close>

record mini_window =
  mw_gen :: u64
  mw_data :: u64

definition mini_window_new :: mini_window where
  "mini_window_new = \<lparr>mw_gen = 0, mw_data = 0\<rparr>"

text \<open>A call with data \<open>d\<close>, before each of its accesses.\<close>

datatype mw_pc =
    Mw_Idle
  | Mw_Load_Gen u64
  | Mw_Load_Data
  | Mw_Claim u64 u64
  | Mw_Store u64 u64
  | Mw_Publish u64 u64
  | Mw_Done u64

fun open_or_read_step :: "mini_window \<Rightarrow> mw_pc \<Rightarrow> mini_window \<times> mw_pc" where
  "open_or_read_step s (Mw_Load_Gen d) =
     (let gen = mw_gen s in
      (s, if gen mod 2 = 1 then Mw_Load_Gen d
          else if gen \<noteq> 0 then Mw_Load_Data
          else Mw_Claim d gen))"
| "open_or_read_step s Mw_Load_Data = (s, Mw_Done (mw_data s))"
| "open_or_read_step s (Mw_Claim d gen) =
     (if mw_gen s = gen then (s\<lparr>mw_gen := gen + 1\<rparr>, Mw_Store d gen) else (s, Mw_Load_Gen d))"
| "open_or_read_step s (Mw_Store d gen) = (s\<lparr>mw_data := d\<rparr>, Mw_Publish d gen)"
| "open_or_read_step s (Mw_Publish d gen) = (s\<lparr>mw_gen := gen + 2\<rparr>, Mw_Done d)"
| "open_or_read_step s pc = (s, pc)"

section \<open>All interleavings\<close>

text \<open>The last field remembers the data of all calls.\<close>

record mw_world =
  mw_win :: mini_window
  mw_threads :: "nat \<Rightarrow> mw_pc"
  mw_asked :: "u64 set"

definition mw_world_new :: mw_world where
  "mw_world_new = \<lparr>mw_win = mini_window_new, mw_threads = (\<lambda>_. Mw_Idle), mw_asked = {}\<rparr>"

inductive mw_step :: "mw_world \<Rightarrow> mw_world \<Rightarrow> bool" where
  mw_call: "mw_threads w i = Mw_Idle \<Longrightarrow>
    mw_step w (w\<lparr>mw_threads := (mw_threads w)(i := Mw_Load_Gen d), mw_asked := insert d (mw_asked w)\<rparr>)"
| mw_access: "open_or_read_step (mw_win w) (mw_threads w i) = (s', pc') \<Longrightarrow>
    mw_step w (w\<lparr>mw_win := s', mw_threads := (mw_threads w)(i := pc')\<rparr>)"

inductive mw_reach :: "mw_world \<Rightarrow> bool" where
  mw_start: "mw_reach mw_world_new"
| mw_next: "mw_reach w \<Longrightarrow> mw_step w w' \<Longrightarrow> mw_reach w'"

section \<open>One writer, one value\<close>

text \<open>The value that the thread in the critical section, or the window itself, stands for.\<close>

fun claims_value :: "mw_pc \<Rightarrow> u64 option" where
  "claims_value (Mw_Store d gen) = Some d"
| "claims_value (Mw_Publish d gen) = Some d"
| "claims_value _ = None"

text \<open>What may be said of a thread while the generation is \<open>g\<close> and the data is \<open>x\<close>.\<close>

fun mw_pc_ok :: "u64 \<Rightarrow> u64 \<Rightarrow> u64 set \<Rightarrow> mw_pc \<Rightarrow> bool" where
  "mw_pc_ok g x A Mw_Idle \<longleftrightarrow> True"
| "mw_pc_ok g x A (Mw_Load_Gen d) \<longleftrightarrow> d \<in> A"
| "mw_pc_ok g x A Mw_Load_Data \<longleftrightarrow> g = 2"
| "mw_pc_ok g x A (Mw_Claim d gen) \<longleftrightarrow> d \<in> A \<and> gen = 0"
| "mw_pc_ok g x A (Mw_Store d gen) \<longleftrightarrow> d \<in> A \<and> gen = 0 \<and> g = 1"
| "mw_pc_ok g x A (Mw_Publish d gen) \<longleftrightarrow> d \<in> A \<and> gen = 0 \<and> g = 1 \<and> x = d"
| "mw_pc_ok g x A (Mw_Done y) \<longleftrightarrow> g = 2 \<and> x = y"

definition mw_inv :: "mw_world \<Rightarrow> bool" where
  "mw_inv w \<longleftrightarrow> (\<forall>i. mw_pc_ok (mw_gen (mw_win w)) (mw_data (mw_win w)) (mw_asked w) (mw_threads w i)) \<and>
     mw_gen (mw_win w) \<in> {0, 1, 2} \<and> (mw_gen (mw_win w) = 2 \<longrightarrow> mw_data (mw_win w) \<in> mw_asked w) \<and>
     (\<forall>i j. claims_value (mw_threads w i) \<noteq> None \<longrightarrow> claims_value (mw_threads w j) \<noteq> None \<longrightarrow> i = j)"

lemma mw_inv_new: "mw_inv mw_world_new"
  by (simp add: mw_inv_def mw_world_new_def mini_window_new_def)

lemma mw_pc_ok_asked: "mw_pc_ok g x A pc \<Longrightarrow> A \<subseteq> B \<Longrightarrow> mw_pc_ok g x B pc"
  by (cases pc) auto

lemma mw_invI:
  assumes "\<And>i. mw_pc_ok (mw_gen (mw_win w)) (mw_data (mw_win w)) (mw_asked w) (mw_threads w i)"
    and "mw_gen (mw_win w) \<in> {0, 1, 2}" "mw_gen (mw_win w) = 2 \<Longrightarrow> mw_data (mw_win w) \<in> mw_asked w"
    and "\<And>i j. claims_value (mw_threads w i) \<noteq> None \<Longrightarrow> claims_value (mw_threads w j) \<noteq> None \<Longrightarrow> i = j"
  shows "mw_inv w"
  using assms unfolding mw_inv_def by blast

lemma mw_invD:
  assumes "mw_inv w"
  shows "mw_pc_ok (mw_gen (mw_win w)) (mw_data (mw_win w)) (mw_asked w) (mw_threads w i)"
    and "mw_gen (mw_win w) \<in> {0, 1, 2}" "mw_gen (mw_win w) = 2 \<Longrightarrow> mw_data (mw_win w) \<in> mw_asked w"
    and "claims_value (mw_threads w i) \<noteq> None \<Longrightarrow> claims_value (mw_threads w j) \<noteq> None \<Longrightarrow> i = j"
  using assms unfolding mw_inv_def by blast+

text \<open>An access, seen from the thread that makes it and from another one.\<close>

lemma own_access:
  assumes "open_or_read_step s pc = (s', pc')" "mw_pc_ok (mw_gen s) (mw_data s) A pc" "mw_gen s \<in> {0, 1, 2}"
    and "mw_gen s = 2 \<Longrightarrow> mw_data s \<in> A"
  shows "mw_pc_ok (mw_gen s') (mw_data s') A pc'" "mw_gen s' \<in> {0, 1, 2}" "mw_gen s' = 2 \<Longrightarrow> mw_data s' \<in> A"
  using assms by (cases pc; auto simp: Let_def split: if_splits)+

lemma other_access:
  assumes "open_or_read_step s pc = (s', pc')" "mw_pc_ok (mw_gen s) (mw_data s) A pc" "mw_pc_ok (mw_gen s) (mw_data s) A pc2"
    and "claims_value pc \<noteq> None \<Longrightarrow> claims_value pc2 = None"
  shows "mw_pc_ok (mw_gen s') (mw_data s') A pc2" "claims_value pc' \<noteq> None \<Longrightarrow> claims_value pc2 = None"
  using assms by (cases pc; cases pc2; auto simp: Let_def split: if_splits)+

lemma mw_inv_step:
  assumes "mw_step w w'" "mw_inv w"
  shows "mw_inv w'"
  using assms
proof (induction rule: mw_step.induct)
  case (mw_call w i d)
  have ok: "mw_pc_ok (mw_gen (mw_win w)) (mw_data (mw_win w)) (insert d (mw_asked w)) (mw_threads w j)" for j
    by (rule mw_pc_ok_asked [OF mw_invD(1) [OF mw_call(2)]]) blast
  show ?case
  proof (rule mw_invI, goal_cases)
    case (1 j)
    then show ?case using ok [of j] by simp
  next
    case (4 j k)
    then show ?case using mw_invD(4) [OF mw_call(2), of j k] by (simp split: if_splits)
  qed (use mw_invD(2,3) [OF mw_call(2)] in simp_all)
next
  case (mw_access w i s' pc')
  note inv = mw_invD [OF mw_access(2)]
  note own = own_access [OF mw_access(1) inv(1,2,3)]
  have single: "claims_value (mw_threads w i) \<noteq> None \<Longrightarrow> j \<noteq> i \<Longrightarrow> claims_value (mw_threads w j) = None" for j
    using inv(4) [of i j] by blast
  note other = other_access [OF mw_access(1) inv(1) inv(1) single]
  show ?case
  proof (rule mw_invI, goal_cases)
    case (1 j)
    then show ?case using own(1) other(1) [of j] by simp
  next
    case (4 j k)
    then show ?case using other(2) [of j] other(2) [of k] inv(4) [of j k] by (simp split: if_splits)
  qed (use own(2,3) in simp_all)
qed

lemma mw_reach_inv: "mw_reach w \<Longrightarrow> mw_inv w"
  by (induction rule: mw_reach.induct) (auto intro: mw_inv_new mw_inv_step)

section \<open>Properties\<close>

lemma window_settled:
  assumes "mw_inv w" "mw_gen (mw_win w) \<noteq> 0" "even (mw_gen (mw_win w))" "mw_step w w'"
  shows "mw_win w' = mw_win w"
  using assms(4)
proof cases
  case (mw_access i s' pc')
  have "mw_gen (mw_win w) \<in> {0, 1, 2}" using assms(1) by (simp add: mw_inv_def)
  moreover have "odd (1 :: u64)" by simp
  ultimately have g: "mw_gen (mw_win w) = 2" using assms(2,3) by auto
  have "mw_pc_ok 2 (mw_data (mw_win w)) (mw_asked w) (mw_threads w i)"
    using assms(1) g by (metis mw_inv_def)
  then have "s' = mw_win w"
    using mw_access(2) g by (cases "mw_threads w i") (auto simp: Let_def split: if_splits)
  then show ?thesis by (simp add: mw_access(1))
qed simp

text \<open>A published window is never torn, whatever the number of writers: in every reachable state all calls
  that have returned have the same value, the data of the window, which some caller asked for; and once
  the generation is even and not 0 the window holds such a value and never changes again.\<close>

theorem mini_window_agrees:
  assumes "mw_reach w"
  shows "(\<forall>i x. mw_threads w i = Mw_Done x \<longrightarrow> mw_data (mw_win w) = x \<and> x \<in> mw_asked w) \<and>
    (mw_gen (mw_win w) \<noteq> 0 \<and> even (mw_gen (mw_win w)) \<longrightarrow>
       mw_data (mw_win w) \<in> mw_asked w \<and> (\<forall>w'. mw_step w w' \<longrightarrow> mw_win w' = mw_win w))"
proof -
  have inv: "mw_inv w" using assms by (rule mw_reach_inv)
  have "mw_data (mw_win w) = x \<and> x \<in> mw_asked w" if "mw_threads w i = Mw_Done x" for i x
  proof -
    have "mw_pc_ok (mw_gen (mw_win w)) (mw_data (mw_win w)) (mw_asked w) (Mw_Done x)"
      using inv that by (metis mw_inv_def)
    then show ?thesis using inv by (auto simp: mw_inv_def)
  qed
  moreover have "mw_data (mw_win w) \<in> mw_asked w" if "mw_gen (mw_win w) \<noteq> 0" "even (mw_gen (mw_win w))"
    using inv that by (auto simp: mw_inv_def)
  ultimately show ?thesis using window_settled [OF inv] by blast
qed

text \<open>The writer of the loom test, alone.\<close>

lemma mw_reach_access:
  assumes "mw_reach w" "open_or_read_step (mw_win w) (mw_threads w i) = (s', pc')"
  shows "mw_reach (w\<lparr>mw_win := s', mw_threads := (mw_threads w)(i := pc')\<rparr>)"
  using assms by (blast intro: mw_next mw_access)

theorem mini_window_agrees_witness:
  "\<exists>w. mw_reach w \<and> mw_threads w 0 = Mw_Done 7 \<and> mw_data (mw_win w) = 7"
proof -
  have "mw_reach (mw_world_new\<lparr>mw_threads := (mw_threads mw_world_new)(0 := Mw_Load_Gen 7), mw_asked := insert 7 (mw_asked mw_world_new)\<rparr>)"
    by (intro mw_next [OF mw_start] mw_call) (simp add: mw_world_new_def)
  from mw_reach_access [OF this, of 0 mini_window_new "Mw_Claim 7 0"]
  have "mw_reach \<lparr>mw_win = mini_window_new, mw_threads = (\<lambda>_. Mw_Idle)(0 := Mw_Claim 7 0), mw_asked = {7}\<rparr>"
    by (simp add: mw_world_new_def mini_window_new_def Let_def)
  from mw_reach_access [OF this, of 0 "\<lparr>mw_gen = 1, mw_data = 0\<rparr>" "Mw_Store 7 0"]
  have "mw_reach \<lparr>mw_win = \<lparr>mw_gen = 1, mw_data = 0\<rparr>, mw_threads = (\<lambda>_. Mw_Idle)(0 := Mw_Store 7 0), mw_asked = {7}\<rparr>"
    by (simp add: mini_window_new_def)
  from mw_reach_access [OF this, of 0 "\<lparr>mw_gen = 1, mw_data = 7\<rparr>" "Mw_Publish 7 0"]
  have "mw_reach \<lparr>mw_win = \<lparr>mw_gen = 1, mw_data = 7\<rparr>, mw_threads = (\<lambda>_. Mw_Idle)(0 := Mw_Publish 7 0), mw_asked = {7}\<rparr>"
    by simp
  from mw_reach_access [OF this, of 0 "\<lparr>mw_gen = 2, mw_data = 7\<rparr>" "Mw_Done 7"]
  have r: "mw_reach \<lparr>mw_win = \<lparr>mw_gen = 2, mw_data = 7\<rparr>, mw_threads = (\<lambda>_. Mw_Idle)(0 := Mw_Done 7), mw_asked = {7}\<rparr>"
    by simp
  from mini_window_agrees [OF this] r show ?thesis by (intro exI conjI) (assumption, simp_all)
qed

end
