(* ===== verification/Loom_Tests.thy ===== *)
theory Loom_Tests
  imports Mini_Window Announce_Scan Epoch_Steps
begin

text \<open>
  The loom tests of \<open>src/src/lib.rs\<close>: each runs two threads under every interleaving of their atomic
  accesses. Here the interleavings are the shuffles of two lists of actions, and a test is a truth
  value over all of them. The general statements, for any threads and any schedule, are in \<open>Mini_Window\<close>,
  \<open>Announce_Scan\<close> and \<open>Epoch_Steps\<close>.
\<close>

section \<open>A window is published whole\<close>

text \<open>The window after \<open>n\<close> accesses of the writer; the reader loads the generation and, later, the data.\<close>

definition writer_at :: "nat \<Rightarrow> mini_window" where
  "writer_at n = fst (((\<lambda>(s, pc). open_or_read_step s pc) ^^ n) (mini_window_new, Mw_Load_Gen 7))"

definition scc_window_open_race :: bool where
  "scc_window_open_race \<longleftrightarrow> (\<forall>p \<in> set [0..<5]. \<forall>q \<in> set [p..<5].
     let gen = mw_gen (writer_at p) in
     gen \<noteq> 0 \<and> gen mod 2 = 0 \<longrightarrow> mw_data (writer_at q) = 7)"

section \<open>The scan sees announced values only\<close>

definition announcing_thread :: "nat \<Rightarrow> scan_action list" where
  "announcing_thread a = [Ann a 10, Rel a]"

definition scanning_thread :: "nat \<Rightarrow> scan_action list" where
  "scanning_thread b = [Ann b 20, Begin_Scan b, Scan_Access b, Scan_Access b, Scan_Access b]"

definition announce_min_ts_never_torn :: bool where
  "announce_min_ts_never_torn \<longleftrightarrow>
     (let (tbl1, ra) = register announcement_table_new; (tbl2, rb) = register tbl1 in
      case (ra, rb) of
        (Inr a, Inr b) \<Rightarrow>
          (\<forall>sched \<in> shuffles (announcing_thread a) (scanning_thread b).
             case s_pc (scan_run sched \<lparr>s_tbl = tbl2, s_pc = (\<lambda>_. Scan_Idle)\<rparr>) b of
               Scan_Done (Inr observed) \<Rightarrow> observed = 10 \<or> observed = 20 \<or> observed = u64_max
             | _ \<Rightarrow> False)
      | _ \<Rightarrow> False)"

section \<open>No update of the epoch is lost\<close>

definition advancing_thread :: "nat \<Rightarrow> epoch_action list" where
  "advancing_thread i = [Call_Advance i, Access i, Access i]"

fun reported :: "epoch_pc \<Rightarrow> u64" where
  "reported (Advance_Done True) = 1"
| "reported _ = 0"

definition epoch_advance_no_lost_updates :: bool where
  "epoch_advance_no_lost_updates \<longleftrightarrow>
     (\<forall>sched \<in> shuffles (advancing_thread 0) (advancing_thread 1).
        let w = epoch_run sched (epoch_world_at 1)
        in {e_pc w 0, e_pc w 1} \<subseteq> {Advance_Done True, Advance_Done False} \<and>
           e_val w = 1 + reported (e_pc w 0) + reported (e_pc w 1))"

section \<open>They pass\<close>

lemma window_race: scc_window_open_race
  by (simp add: scc_window_open_race_def writer_at_def mini_window_new_def eval_nat_numeral Let_def)

lemma epoch_race: epoch_advance_no_lost_updates
  by (simp add: epoch_advance_no_lost_updates_def advancing_thread_def epoch_world_at_def)

lemma two_slots:
  "\<exists>ss. length ss = MAX_THREADS \<and> active_ts (ss ! 0) = 0 \<and> active_ts (ss ! Suc 0) = 0 \<and>
     slots announcement_table_new = ss"
  by (simp add: announcement_table_new_def announcement_slot_new_def MAX_THREADS_def)

lemma announce_race: announce_min_ts_never_torn
proof -
  obtain ss where ss: "length ss = MAX_THREADS" "active_ts (ss ! 0) = 0" "active_ts (ss ! Suc 0) = 0"
    "slots announcement_table_new = ss"
    using two_slots by blast
  have n: "0 < MAX_THREADS" "Suc 0 < MAX_THREADS" "unat (2 :: u32) = Suc (Suc 0)"
    by (simp_all add: MAX_THREADS_def)
  have c: "active_count announcement_table_new = 0" by (simp add: announcement_table_new_def)
  show ?thesis
    by (simp add: announce_min_ts_never_torn_def register_def c n announcing_thread_def scanning_thread_def
        announce_def release_def ss next_slot_def min_update_def Let_def)
qed

section \<open>Property\<close>

text \<open>The model passes the loom tests of the library: under every interleaving of the two threads, a published
  window carries its data, a scan returns a value that was announced, and the epoch has advanced by exactly
  the calls that report success.\<close>

theorem loom_tests_pass: "scc_window_open_race \<and> announce_min_ts_never_torn \<and> epoch_advance_no_lost_updates"
  by (intro conjI window_race announce_race epoch_race)

end
