(* ===== verification/Smoke_Test.thy ===== *)
theory Smoke_Test
  imports Unit_Tests Bench_Synth
begin

text \<open>
  The smoke test of \<open>src/src/lib.rs\<close>: two short runs of the synthetic benchmark with one thread, each of which
  has to count an operation. How often the thread's loop comes round within the tenth of a second is the
  schedule, so that the test passes whenever each run gets to one iteration.
\<close>

definition smoke_run :: "strategy \<Rightarrow> (u64 \<times> u64) list \<Rightarrow> bool" where
  "smoke_run S clock =
     (case run_bench_synthetic S 1 (f64_lit (1 / 10)) (f64_lit (1 / 10)) (map (\<lambda>x. (0, x)) clock) of
        Some r \<Rightarrow> passes (bind_res r (\<lambda>res. Inr (0 < total_ops res)))
      | None \<Rightarrow> False)"

definition bench_smoke :: "(u64 \<times> u64) list \<Rightarrow> (u64 \<times> u64) list \<Rightarrow> bool" where
  "bench_smoke clock clock2 \<longleftrightarrow> smoke_run PacerDiscrete clock \<and> smoke_run TokenAf clock2"

lemma smoke_run_passes:
  assumes "clock \<noteq> []" "length clock \<le> 2 ^ 62"
  shows "smoke_run S clock"
proof -
  have "1 \<le> MAX_THREADS" by (simp add: MAX_THREADS_def)
  then obtain res where res: "run_bench_synthetic S 1 (f64_lit (1 / 10)) (f64_lit (1 / 10)) (map (\<lambda>x. (0, x)) clock) = Some (Inr res)"
    "total_ops res = of_nat (length clock)"
    using bench_run_ok [of 1 "map (\<lambda>x. (0, x)) clock" S "f64_lit (1 / 10)" "f64_lit (1 / 10)"] assms(2) by auto
  have "unat (of_nat (length clock) :: u64) = length clock"
    using assms(2) by (simp add: unat_of_nat take_bit_eq_mod)
  then have "0 < total_ops res" using assms(1) by (simp add: res(2) word_less_nat_alt)
  then show ?thesis unfolding smoke_run_def res(1) by simp
qed

text \<open>The smoke test passes if each run gets to one iteration, and fails if one does not.\<close>

lemma bench_smoke_passes:
  assumes "length clock \<le> 2 ^ 62" "length clock2 \<le> 2 ^ 62"
  shows "bench_smoke clock clock2 \<longleftrightarrow> clock \<noteq> [] \<and> clock2 \<noteq> []"
proof -
  have "\<not> smoke_run S []" for S
  proof -
    have "1 \<le> MAX_THREADS" by (simp add: MAX_THREADS_def)
    then obtain res where "run_bench_synthetic S 1 (f64_lit (1 / 10)) (f64_lit (1 / 10)) [] = Some (Inr res)" "total_ops res = 0"
      using bench_run_ok [of 1 "[]" S "f64_lit (1 / 10)" "f64_lit (1 / 10)"] by auto
    then show ?thesis unfolding smoke_run_def list.map by simp
  qed
  then show ?thesis
    using smoke_run_passes assms unfolding bench_smoke_def by metis
qed

end
