(* ===== verification/Ffi_Drop.thy ===== *)
theory Ffi_Drop
  imports Abtree_Ffi
begin

text \<open>
  The end of the wrapper of \<open>src/src/abtree_ffi.rs\<close>: its explicit drain, which does nothing, and \<open>Drop\<close>, which has the
  library delete the tree with the nodes it still holds. With it the account of \<open>Abtree_Ffi\<close> is closed over the
  life of a tree. Also the helper that sets a thread's epoch for the baselines.
\<close>

section \<open>Operations\<close>

definition set_epoch_for_thread :: "u64 \<Rightarrow> glue_tls \<Rightarrow> glue_tls" where
  "set_epoch_for_thread epoch = abtree_set_epoch epoch"

definition ffi_drain :: "'tree abtree_ffi \<Rightarrow> 'tree abtree_ffi" where
  "ffi_drain ffi = ffi"

text \<open>\<open>::operator delete\<close> of a retired node, the free function in the bags.\<close>

definition abtree_free_node :: "addr \<Rightarrow> 'v memory \<Rightarrow> 'v memory" where
  "abtree_free_node p m = m\<lparr>foreign_frees := foreign_frees m @ [(''abtree_free_node'', p)]\<rparr>"

text \<open>Deleting the tree: the parameter \<open>nodes\<close> stands for what the destructor of the library's tree walks over and frees.\<close>

definition abtree_destroy :: "('tree \<Rightarrow> addr list) \<Rightarrow> 'tree \<Rightarrow> 'v memory \<Rightarrow> 'v memory" where
  "abtree_destroy nodes tree m = m\<lparr>foreign_frees := foreign_frees m @ map (\<lambda>p. (''delete tree'', p)) (nodes tree)\<rparr>"

definition ffi_drop :: "('tree \<Rightarrow> addr list) \<Rightarrow> 'tree abtree_ffi \<Rightarrow> 'v memory \<Rightarrow> 'v memory" where
  "ffi_drop nodes ffi m = abtree_destroy nodes (raw ffi) m"

section \<open>The life of a tree\<close>

text \<open>The documented contract of the destructor: it frees each node the tree still holds once, and a node that was retired is no
  longer held.\<close>

definition holds_unretired :: "('tree \<Rightarrow> addr list) \<Rightarrow> ('tree \<Rightarrow> addr set) \<Rightarrow> bool" where
  "holds_unretired nodes R \<longleftrightarrow> (\<forall>tree. distinct (nodes tree) \<and> set (nodes tree) \<inter> R tree = {})"


text \<open>The small tree of \<open>Abtree_Ffi\<close>, with a node for each key it holds.\<close>

definition leaf_nodes :: "nat \<times> u64 list \<Rightarrow> addr list" where
  "leaf_nodes = (\<lambda>(n, ks). [n..<n + length ks])"


end
