(* ===== verification/Build_Script.thy ===== *)
theory Build_Script
  imports Main
begin

text \<open>
  \<open>src/build.rs\<close>: what the build script prints for Cargo and what it asks the \<open>cc\<close> crate to compile, as a
  function of the two environment variables it reads. The crate itself, which runs the compiler, is
  outside the model; its request is data.
\<close>

section \<open>Directives and the request\<close>

datatype directive =
    Rerun_If_Changed string
  | Rerun_If_Env_Changed string
  | Cargo_Warning string
  | Link_Lib string

record cc_build =
  include_dirs :: "string list"
  cc_defines :: "(string \<times> string) list"
  cc_files :: "string list"
  is_cpp :: bool
  flags_if_supported :: "string list"

definition cc_build_new :: cc_build where
  "cc_build_new = \<lparr>include_dirs = [], cc_defines = [], cc_files = [], is_cpp = False, flags_if_supported = []\<rparr>"

definition setbench_dirs :: "string list" where
  "setbench_dirs = [''common'', ''common/recordmgr'', ''common/rq'', ''common/papi'', ''common/descriptors'', ''ds/brown_ext_abtree_lf'']"

definition not_linux_warning :: string where
  "not_linux_warning = ''skipping cpp/abtree_glue.cpp build: requires a Linux/POSIX toolchain '' @
     ''(see README.md). `bench` will fail to link on this platform; `cargo build --lib` '' @
     ''and `cargo test` are unaffected.''"

definition no_setbench_warning :: string where
  "no_setbench_warning = ''skipping cpp/abtree_glue.cpp build: set SETBENCH_DIR to a checkout of '' @
     ''https://gitlab.com/trbot86/setbench (its headers are not vendored here). `bench` '' @
     ''will fail to link without it; `cargo build --lib` and `cargo test` are unaffected.''"

definition glue_build :: "string \<Rightarrow> cc_build" where
  "glue_build sb =
     (let b = cc_build_new\<lparr>include_dirs := map (\<lambda>sub. sb @ ''/'' @ sub) setbench_dirs\<rparr>
      in b\<lparr>cc_defines := [(''MAX_THREADS_POW2'', ''512''), (''CPU_FREQ_GHZ'', ''2.1'')],
           cc_files := [''cpp/abtree_glue.cpp''],
           include_dirs := include_dirs b @ [''cpp''],
           is_cpp := True,
           flags_if_supported := [''-std=c++17'', ''-O3'', ''-march=native'', ''-fno-omit-frame-pointer'',
             ''-Wno-unused-variable'', ''-Wno-unused-parameter'', ''-Wno-sign-compare'']\<rparr>)"

text \<open>The directives in the order they are printed, and the library to compile with its name, if any. The link directive
  follows the compilation. A variable is None when it is not set.\<close>

definition build_main :: "string option \<Rightarrow> string option \<Rightarrow> directive list \<times> (cc_build \<times> string) option" where
  "build_main target_os setbench =
     (let watch = [Rerun_If_Changed ''cpp/abtree_glue.cpp'', Rerun_If_Changed ''cpp/brown_ext_abtree_lf_impl.h''] in
      if target_os \<noteq> Some ''linux'' then (watch @ [Cargo_Warning not_linux_warning], None)
      else
        let watch' = watch @ [Rerun_If_Env_Changed ''SETBENCH_DIR''] in
        case setbench of
          None \<Rightarrow> (watch' @ [Cargo_Warning no_setbench_warning], None)
        | Some sb \<Rightarrow> (watch' @ [Link_Lib ''stdc++''], Some (glue_build sb, ''abtree_glue'')))"

section \<open>What it does\<close>

fun is_warning :: "directive \<Rightarrow> bool" where
  "is_warning (Cargo_Warning m) = True"
| "is_warning _ = False"

text \<open>The glue is compiled on Linux with \<open>SETBENCH_DIR\<close> set and nowhere else; it is linked with the C++ library exactly
  when it is compiled, and a warning says so exactly when it is not; setbench's own directories come before the
  repository's on the include path. A change of \<open>SETBENCH_DIR\<close> runs the script again on Linux only.\<close>

lemma build_script_outcome:
  "snd (build_main os sb) \<noteq> None \<longleftrightarrow> os = Some ''linux'' \<and> sb \<noteq> None"
  "Link_Lib ''stdc++'' \<in> set (fst (build_main os sb)) \<longleftrightarrow> snd (build_main os sb) \<noteq> None"
  "list_ex is_warning (fst (build_main os sb)) \<longleftrightarrow> snd (build_main os sb) = None"
  "Rerun_If_Env_Changed ''SETBENCH_DIR'' \<in> set (fst (build_main os sb)) \<longleftrightarrow> os = Some ''linux''"
  "snd (build_main os sb) = Some (b, name) \<Longrightarrow>
     include_dirs b = map (\<lambda>sub. the sb @ ''/'' @ sub) setbench_dirs @ [''cpp''] \<and> cc_files b = [''cpp/abtree_glue.cpp'']"
  by (auto simp: build_main_def glue_build_def Let_def split: option.splits if_splits)

end
