(* ===== verification/Glue_Memory.thy ===== *)
theory Glue_Memory
  imports Abtree_Ffi
begin

text \<open>
  The memory of the tree's nodes in \<open>src/cpp/abtree_glue.cpp\<close>: the allocator stamps the first word of a node with the
  thread's epoch, and the reclaimer reads that word when the node is retired. \<open>Abtree_Ffi\<close> takes the nodes an operation
  retires, with their first words, as a parameter; here they come out of what the tree does with its nodes. Where
  \<open>operator new\<close> places a node is an argument.
\<close>

section \<open>Allocation and retirement\<close>

text \<open>The first word of every node that is allocated.\<close>

type_synonym node_heap = "addr \<rightharpoonup> u64"

definition abtree_create :: "'tree abtree_lib \<Rightarrow> nat \<Rightarrow> 'tree option" where
  "abtree_create lib num_threads = lib_new lib (of_nat num_threads)"

definition glue_allocate :: "glue_tls \<Rightarrow> addr \<Rightarrow> node_heap \<Rightarrow> node_heap" where
  "glue_allocate tls ptr heap = heap(ptr \<mapsto> tl_epoch_ptr tls)"

text \<open>Deleting a node that is not allocated is undefined.\<close>

definition glue_deallocate :: "addr \<Rightarrow> node_heap \<Rightarrow> node_heap res" where
  "glue_deallocate ptr heap = (if heap ptr = None then Inl DoubleFree else Inr (heap(ptr := None)))"

text \<open>\<open>PacerReclaimer::retire\<close>, with the read of the first word.\<close>

definition glue_retire_node ::
  "glue_tls \<Rightarrow> addr \<Rightarrow> node_heap \<times> thread_local_state \<times> 'v memory \<Rightarrow> (node_heap \<times> thread_local_state \<times> 'v memory) res" where
  "glue_retire_node tls ptr = (\<lambda>(heap, t, m).
     if tl_retire_fn tls = None
     then bind_res (glue_deallocate ptr heap) (\<lambda>heap'. Inr (heap', glue_retire tls (0, ptr) (t, m)))
     else (case heap ptr of None \<Rightarrow> Inl DoubleFree | Some birth \<Rightarrow> Inr (heap, glue_retire tls (birth, ptr) (t, m))))"

section \<open>What the tree does with its nodes\<close>

text \<open>An operation of the tree allocates nodes, writes their first field, retires those it unlinked, and gives
  back those it did not need.\<close>

datatype node_act = Alloc addr | Write_First addr u64 | Retire addr | Dealloc addr

fun glue_act ::
  "glue_tls \<Rightarrow> node_act \<Rightarrow> node_heap \<times> thread_local_state \<times> 'v memory \<Rightarrow> (node_heap \<times> thread_local_state \<times> 'v memory) res" where
  "glue_act tls (Alloc p) (heap, tm) = Inr (glue_allocate tls p heap, tm)"
| "glue_act tls (Write_First p w) (heap, tm) = (if heap p = None then Inl DoubleFree else Inr (heap(p \<mapsto> w), tm))"
| "glue_act tls (Retire p) s = glue_retire_node tls p s"
| "glue_act tls (Dealloc p) (heap, tm) = bind_res (glue_deallocate p heap) (\<lambda>heap'. Inr (heap', tm))"

fun glue_acts ::
  "glue_tls \<Rightarrow> node_act list \<Rightarrow> node_heap \<times> thread_local_state \<times> 'v memory \<Rightarrow> (node_heap \<times> thread_local_state \<times> 'v memory) res" where
  "glue_acts tls [] s = Inr s"
| "glue_acts tls (a # as) s = bind_res (glue_act tls a s) (glue_acts tls as)"

text \<open>The heap alone, for a registered thread; the acts it allows; the nodes that are retired, with their first words.\<close>

fun act_heap :: "glue_tls \<Rightarrow> node_act \<Rightarrow> node_heap \<Rightarrow> node_heap" where
  "act_heap tls (Alloc p) heap = heap(p \<mapsto> tl_epoch_ptr tls)"
| "act_heap tls (Write_First p w) heap = heap(p \<mapsto> w)"
| "act_heap tls (Retire p) heap = heap"
| "act_heap tls (Dealloc p) heap = heap(p := None)"

fun act_node :: "node_act \<Rightarrow> addr" where
  "act_node (Alloc p) = p"
| "act_node (Write_First p w) = p"
| "act_node (Retire p) = p"
| "act_node (Dealloc p) = p"

text \<open>\<open>operator new\<close> returns memory that is not in use, and the tree touches only nodes it has.\<close>

fun acts_ok :: "glue_tls \<Rightarrow> node_act list \<Rightarrow> node_heap \<Rightarrow> bool" where
  "acts_ok tls [] heap \<longleftrightarrow> True"
| "acts_ok tls (a # as) heap \<longleftrightarrow> (heap (act_node a) = None \<longleftrightarrow> a = Alloc (act_node a)) \<and> acts_ok tls as (act_heap tls a heap)"

fun retired_words :: "glue_tls \<Rightarrow> node_act list \<Rightarrow> node_heap \<Rightarrow> (u64 \<times> addr) list" where
  "retired_words tls [] heap = []"
| "retired_words tls (a # as) heap =
     (case a of Retire p \<Rightarrow> (the (heap p), p) # retired_words tls as heap | _ \<Rightarrow> retired_words tls as (act_heap tls a heap))"

lemma glue_acts_fold:
  assumes "tl_retire_fn tls \<noteq> None" "acts_ok tls as heap"
  shows "glue_acts tls as (heap, t, m) = Inr (fold (act_heap tls) as heap, fold (glue_retire tls) (retired_words tls as heap) (t, m))"
  using assms(2)
proof (induction as arbitrary: heap t m)
  case (Cons a as)
  obtain t' m' where r: "glue_retire tls (the (heap (act_node a)), act_node a) (t, m) = (t', m')" by fastforce
  then show ?case using Cons assms(1)
    by (cases a) (auto simp: glue_allocate_def glue_deallocate_def glue_retire_node_def r simp del: glue_retire.simps)
qed simp

text \<open>The tree's parameter stands for what its operations do with their nodes: for a registered thread, an operation
  that allocates, writes, retires and gives back nodes has on bag and memory the effect of retiring, in order, each
  node with the word that is then its first.\<close>

theorem retired_words_are_read:
  assumes "tl_retire_fn tls \<noteq> None" "acts_ok tls as heap" "lib_insert lib (tl_epoch_ptr tls) i key tree = (ok, tree', retired_words tls as heap)"
  shows "\<exists>heap'. glue_acts tls as (heap, t, m) = Inr (heap', snd (snd (abtree_insert lib tls i key (tree, t, m))))"
  using assms(3) glue_acts_fold [OF assms(1,2), of t m]
  by (simp add: abtree_insert_def case_prod_unfold)

section \<open>The stamp\<close>

lemma safe_ts_nonzero:
  assumes "table_ok (announce_tbl sys)"
  shows "0 < safe_ts_of sys"
proof -
  have "safe_ts_of sys \<in> insert u64_max (active_timestamps (announce_tbl sys))"
    unfolding safe_ts_of_def using finite_active_timestamps [OF assms] by (intro Min_in) auto
  then have "safe_ts_of sys \<noteq> 0" using assms by (auto simp: active_timestamps_iff)
  then show ?thesis by (simp add: word_neq_0_conv)
qed

text \<open>C35: The stamp of a node is lost with its first field: a node allocated at or after an announced snapshot stays in the
  bag when it is retired untouched, but is freed by the next write if the tree has set its first field to null.\<close>

theorem first_field_replaces_stamp:
  assumes "tl_retire_fn tls \<noteq> None" "heap p = None" "limbo_bag t = []" "gc_mode t = AggressiveEbr"
    and "table_ok (announce_tbl sys)" "ts \<in> active_timestamps (announce_tbl sys)" "ts \<le> tl_epoch_ptr tls"
  shows "bind_res (glue_acts tls [Alloc p, Retire p] (heap, t, m)) (\<lambda>(heap', t', m'). drain_discrete_tick sys t' m') =
      Inr (0, t\<lparr>hold_ticks := 0, limbo_bag := [(tl_epoch_ptr tls, Foreign p ''abtree_free_node'')]\<rparr>, m) \<and>
    bind_res (glue_acts tls [Alloc p, Write_First p 0, Retire p] (heap, t, m)) (\<lambda>(heap', t', m'). drain_discrete_tick sys t' m') =
      Inr (1, t\<lparr>hold_ticks := 0\<rparr>, m\<lparr>foreign_frees := foreign_frees m @ [(''abtree_free_node'', p)]\<rparr>)"
proof -
  obtain f where "tl_retire_fn tls = Some f" using assms(1) by blast
  then have cb: "tl_retire_fn tls = Some Pacer_Retire_Cb" by (cases f) simp
  have acts: "glue_acts tls [Alloc p, Retire p] (heap, t, m) =
      Inr (heap(p \<mapsto> tl_epoch_ptr tls), t\<lparr>limbo_bag := [(tl_epoch_ptr tls, Foreign p ''abtree_free_node'')]\<rparr>, m)"
    "glue_acts tls [Alloc p, Write_First p 0, Retire p] (heap, t, m) =
      Inr (heap(p \<mapsto> 0), t\<lparr>limbo_bag := [(0, Foreign p ''abtree_free_node'')]\<rparr>, m)"
    using cb assms(3) by (simp_all add: glue_allocate_def glue_retire_node_def pacer_retire_cb_def limbo_push_raw_def)
  have kept: "\<not> tl_epoch_ptr tls < safe_ts_of sys"
    using safe_ts_of_le [OF assms(5,6)] assms(7) by simp
  have r: "safe_reclaim_ts sys = Inr (safe_ts_of sys)" by (rule safe_reclaim_ts_of [OF assms(5)])
  have e: "t\<lparr>limbo_bag := [], hold_ticks := 0\<rparr> = t\<lparr>hold_ticks := 0\<rparr>" using assms(3) by (cases t) simp
  show ?thesis unfolding acts
    using kept safe_ts_nonzero [OF assms(5)] assms(3,4) e
    by (simp add: drain_discrete_tick_def r drain_bag_def drain_def AGGRESSIVE_DRAIN_PER_OP_def)
qed

section \<open>Instances\<close>

definition registered_tls :: glue_tls where
  "registered_tls = abtree_register_thread Pacer_Retire_Cb 0 9 glue_tls_init"

text \<open>A tree whose insertion copies the node it replaces: it allocates node 1, gives back a spare node, and retires node 0.\<close>

definition copying_acts :: "node_act list" where
  "copying_acts = [Alloc 1, Alloc 2, Dealloc 2, Retire 0]"

definition copying_lib :: "node_heap abtree_lib" where
  "copying_lib = \<lparr>lib_new = \<lambda>n. Some [0 \<mapsto> 5],
     lib_insert = \<lambda>stamp i key heap. (True, heap, retired_words (registered_tls\<lparr>tl_epoch_ptr := stamp\<rparr>) copying_acts heap),
     lib_erase = \<lambda>stamp i key heap. (False, heap, []), lib_find = \<lambda>i key heap. False\<rparr>"

theorem retired_words_are_read_witness:
  "\<exists>heap'. glue_acts registered_tls copying_acts ([0 \<mapsto> 5], thread_local_state_new 0, two_boxes) =
     Inr (heap', snd (snd (abtree_insert copying_lib registered_tls 0 7 ([0 \<mapsto> 5], thread_local_state_new 0, two_boxes))))"
proof -
  have "lib_insert copying_lib (tl_epoch_ptr registered_tls) 0 7 [0 \<mapsto> 5] = (True, [0 \<mapsto> 5], retired_words registered_tls copying_acts [0 \<mapsto> 5])"
    by (simp add: copying_lib_def registered_tls_def)
  moreover have "tl_retire_fn registered_tls \<noteq> None" "acts_ok registered_tls copying_acts [0 \<mapsto> 5]"
    by (simp_all add: registered_tls_def abtree_register_thread_def copying_acts_def)
  ultimately show ?thesis by (intro retired_words_are_read)
qed

theorem first_field_replaces_stamp_witness:
  "bind_res (glue_acts registered_tls [Alloc 3, Retire 3] (Map.empty, thread_local_state_new 2, two_boxes))
     (\<lambda>(heap', t', m'). drain_discrete_tick (pacer_system_new\<lparr>announce_tbl := two_readers\<rparr>) t' m') =
     Inr (0, (thread_local_state_new 2)\<lparr>limbo_bag := [(9, Foreign 3 ''abtree_free_node'')]\<rparr>, two_boxes) \<and>
   bind_res (glue_acts registered_tls [Alloc 3, Write_First 3 0, Retire 3] (Map.empty, thread_local_state_new 2, two_boxes))
     (\<lambda>(heap', t', m'). drain_discrete_tick (pacer_system_new\<lparr>announce_tbl := two_readers\<rparr>) t' m') =
     Inr (1, thread_local_state_new 2, two_boxes\<lparr>foreign_frees := [(''abtree_free_node'', 3)]\<rparr>)"
proof -
  let ?sys = "pacer_system_new\<lparr>announce_tbl := two_readers\<rparr>"
  have "4 \<in> active_timestamps (announce_tbl ?sys)"
    by (auto simp: active_timestamps_iff [OF table_ok_two_readers])
      (auto simp: two_readers_def announcement_table_new_def MAX_THREADS_def intro!: exI [of _ 1])
  moreover have "tl_retire_fn registered_tls \<noteq> None" "tl_epoch_ptr registered_tls = 9"
    by (simp_all add: registered_tls_def abtree_register_thread_def)
  ultimately show ?thesis
    using first_field_replaces_stamp [of registered_tls Map.empty 3 "thread_local_state_new 2" ?sys 4 two_boxes] table_ok_two_readers
    by (simp add: thread_local_state_new_def limbo_bag_new_def two_boxes_def version_node_new_def empty_memory_def)
qed

end
