(* ===== verification/Printing.thy ===== *)
theory Printing
  imports Float64 "HOL-Library.Char_ord"
begin

text \<open>
  What the programs use of Rust's formatting: decimal numbers, fixed numbers of fractional digits, padding to
  a width, and the debug form of lists. A string is its UTF-8 bytes; a width counts characters. With it, the reading of printed numbers.
\<close>

section \<open>Numbers\<close>

definition digit :: "nat \<Rightarrow> char" where
  "digit d = char_of (48 + d)"

fun dec :: "nat \<Rightarrow> string" where
  "dec n = (if n < 10 then [digit n] else dec (n div 10) @ [digit (n mod 10)])"

declare dec.simps [simp del]

definition zero_padded :: "nat \<Rightarrow> string \<Rightarrow> string" where
  "zero_padded p s = replicate (p - length s) (CHR ''0'') @ s"

definition fixed_nat :: "nat \<Rightarrow> nat \<Rightarrow> string" where
  "fixed_nat p n = (if p = 0 then dec n else dec (n div 10 ^ p) @ ''.'' @ zero_padded p (dec (n mod 10 ^ p)))"

text \<open>\<open>{:.p}\<close>: the exact value rounded to \<open>p\<close> digits, a tie to the even digit.\<close>

fun f64_fixed :: "nat \<Rightarrow> f64 \<Rightarrow> string" where
  "f64_fixed p (Fin x) = (if x < 0 then ''-'' else []) @ fixed_nat p (nat (rne_int (\<bar>x\<bar> * 10 ^ p)))"
| "f64_fixed p PInf = ''inf''"
| "f64_fixed p NInf = ''-inf''"
| "f64_fixed p NaN = ''NaN''"

text \<open>\<open>{}\<close> and \<open>{:?}\<close> of a number: the fewest fractional digits from which it can be read back, with \<open>{:?}\<close> at least one.
  This is the form of numbers neither very large nor very small.\<close>

definition f64_shortest :: "nat \<Rightarrow> f64 \<Rightarrow> string" where
  "f64_shortest least x =
     (case x of
        Fin r \<Rightarrow> (case List.find (\<lambda>p. f64_of_rat (of_int (rne_int (r * 10 ^ p)) / 10 ^ p) = x) [least..<18] of
                   Some p \<Rightarrow> f64_fixed p x | None \<Rightarrow> f64_fixed 17 x)
      | _ \<Rightarrow> f64_fixed 0 x)"

section \<open>Text\<close>

text \<open>The bytes that begin a character.\<close>

definition char_count :: "string \<Rightarrow> nat" where
  "char_count s = length (filter (\<lambda>c. \<not> (128 \<le> (of_char c :: nat) \<and> (of_char c :: nat) < 192)) s)"

definition pad_left :: "nat \<Rightarrow> string \<Rightarrow> string" where
  "pad_left w s = replicate (w - char_count s) (CHR '' '') @ s"

definition pad_right :: "nat \<Rightarrow> string \<Rightarrow> string" where
  "pad_right w s = s @ replicate (w - char_count s) (CHR '' '')"

definition println :: "string \<Rightarrow> string" where
  "println s = s @ [CHR 0x0A]"

fun joined :: "string list \<Rightarrow> string" where
  "joined [] = []"
| "joined [s] = s"
| "joined (s # ss) = s @ '', '' @ joined ss"

definition debug_list :: "string list \<Rightarrow> string" where
  "debug_list ss = ''['' @ joined ss @ '']''"

section \<open>Reading numbers\<close>

definition undec :: "string \<Rightarrow> nat" where
  "undec s = foldl (\<lambda>n c. 10 * n + (of_char c - 48)) 0 s"

definition read_fixed :: "nat \<Rightarrow> string \<Rightarrow> rat" where
  "read_fixed p s = of_nat (undec (filter (\<lambda>c. c \<noteq> CHR ''.'') s)) / 10 ^ p"

definition unpadded :: "string \<Rightarrow> string" where
  "unpadded s = dropWhile (\<lambda>c. c = CHR '' '') s"

definition is_digit :: "char \<Rightarrow> bool" where
  "is_digit c \<longleftrightarrow> 48 \<le> (of_char c :: nat) \<and> (of_char c :: nat) < 58"

lemma of_char_digit [simp]: "d < 10 \<Longrightarrow> (of_char (digit d) :: nat) = 48 + d"
  by (simp add: digit_def)

lemma is_digit_digit [simp]: "d < 10 \<Longrightarrow> is_digit (digit d)"
  by (simp add: is_digit_def)

lemma is_digit_0 [simp]: "is_digit (CHR ''0'')"
  by (simp add: is_digit_def)

lemma digit_not [simp]: "is_digit c \<Longrightarrow> c \<noteq> CHR ''.''" "is_digit c \<Longrightarrow> c \<noteq> CHR '' ''"
  by (auto simp: is_digit_def)

lemma undec_snoc [simp]: "undec (s @ [c]) = 10 * undec s + (of_char c - 48)"
  by (simp add: undec_def)

lemma undec_append: "undec (s @ t) = undec s * 10 ^ length t + undec t"
proof (induction t rule: rev_induct)
  case (snoc c t)
  have "undec (s @ t @ [c]) = 10 * undec (s @ t) + (of_char c - 48)" using undec_snoc [of "s @ t" c] by simp
  then show ?case using snoc by (simp add: algebra_simps)
qed (simp add: undec_def)

lemma dec_digits: "\<forall>c \<in> set (dec n). is_digit c"
  by (induction n rule: dec.induct) (subst dec.simps, auto)

lemma dec_nonempty [simp]: "dec n \<noteq> []"
  by (subst dec.simps) simp

lemma undec_dec [simp]: "undec (dec n) = n"
proof (induction n rule: dec.induct)
  case (1 n)
  show ?case
  proof (cases "n < 10")
    case True then show ?thesis by (subst dec.simps) (simp add: undec_def)
  next
    case False then show ?thesis using 1 by (subst dec.simps) simp
  qed
qed

lemma length_dec: "n < 10 ^ k \<Longrightarrow> 0 < k \<Longrightarrow> length (dec n) \<le> k"
proof (induction n arbitrary: k rule: dec.induct)
  case (1 n)
  show ?case
  proof (cases "n < 10")
    case True then show ?thesis using 1(3) by (subst dec.simps) simp
  next
    case False
    then obtain k' where k: "k = Suc k'" "0 < k'" using 1(2,3) by (cases k; cases "k - 1") auto
    have "n div 10 < 10 ^ k'" using 1(2) k by (simp add: less_mult_imp_div_less mult.commute)
    then have "length (dec (n div 10)) \<le> k'" using 1(1) False k(2) by blast
    then show ?thesis using False k by (subst dec.simps) simp
  qed
qed

lemma zero_padded:
  assumes "n < 10 ^ p" "0 < p"
  shows "length (zero_padded p (dec n)) = p" "undec (zero_padded p (dec n)) = n" "\<forall>c \<in> set (zero_padded p (dec n)). is_digit c"
proof -
  have "undec (replicate m (CHR ''0'')) = 0" for m
    by (induction m) (simp_all add: undec_def)
  then show "undec (zero_padded p (dec n)) = n" by (simp add: zero_padded_def undec_append)
  show "length (zero_padded p (dec n)) = p" using length_dec [OF assms] by (simp add: zero_padded_def)
  show "\<forall>c \<in> set (zero_padded p (dec n)). is_digit c" using dec_digits [of n] by (auto simp: zero_padded_def)
qed

lemma filter_digits: "\<forall>c \<in> set s. is_digit c \<Longrightarrow> filter (\<lambda>c. c \<noteq> CHR ''.'') s = s"
  by (auto intro!: filter_True)

lemma read_fixed_nat: "read_fixed p (fixed_nat p n) = of_nat n / 10 ^ p"
proof (cases "p = 0")
  case True
  then show ?thesis by (simp add: read_fixed_def fixed_nat_def filter_digits [OF dec_digits])
next
  case False
  have m: "n mod 10 ^ p < 10 ^ p" by simp
  note z = zero_padded [OF m] 
  have "undec (filter (\<lambda>c. c \<noteq> CHR ''.'') (fixed_nat p n)) = n div 10 ^ p * 10 ^ p + n mod 10 ^ p"
    using False z by (simp add: fixed_nat_def filter_digits dec_digits undec_append)
  then have "undec (filter (\<lambda>c. c \<noteq> CHR ''.'') (fixed_nat p n)) = n" by (simp only: div_mult_mod_eq)
  then show ?thesis by (simp add: read_fixed_def)
qed

lemma length_fixed_nat: "n < 10 ^ (k + p) \<Longrightarrow> 0 < k \<Longrightarrow> length (fixed_nat p n) \<le> k + (if p = 0 then 0 else p + 1)"
proof -
  assume a: "n < 10 ^ (k + p)" "0 < k"
  have "n div 10 ^ p < 10 ^ k" using a(1) by (simp add: less_mult_imp_div_less power_add)
  then have "length (dec (n div 10 ^ p)) \<le> k" using a(2) by (rule length_dec)
  then show ?thesis using zero_padded(1) [of "n mod 10 ^ p" p] by (cases "p = 0") (simp_all add: fixed_nat_def)
qed

text \<open>A printed number is within half a unit of its last digit.\<close>

lemma rne_int_half_unit: "\<bar>of_int (rne_int y) - y\<bar> \<le> 1 / 2"
  using floor_correct [of y] by (auto simp: rne_int_def Let_def abs_le_iff)

lemma rne_int_nonneg: "0 \<le> y \<Longrightarrow> 0 \<le> rne_int y"
  using rne_int_floor_bounds(1) [of y] by (meson order.trans zero_le_floor)

lemma read_f64_fixed:
  assumes "0 \<le> x"
  shows "\<bar>read_fixed p (f64_fixed p (Fin x)) - x\<bar> \<le> 1 / (2 * 10 ^ p)"
proof -
  let ?y = "x * 10 ^ p"
  have n: "0 \<le> rne_int ?y" using assms by (intro rne_int_nonneg) simp
  have "of_nat (nat (rne_int ?y)) = (of_int (rne_int ?y) :: rat)" using n by simp
  then have "read_fixed p (f64_fixed p (Fin x)) - x = (of_int (rne_int ?y) - ?y) / 10 ^ p"
    using assms by (simp add: read_fixed_nat diff_divide_distrib)
  then have "\<bar>read_fixed p (f64_fixed p (Fin x)) - x\<bar> = \<bar>of_int (rne_int ?y) - ?y\<bar> / 10 ^ p" by (simp add: abs_divide)
  also have "\<dots> \<le> (1 / 2) / 10 ^ p" using rne_int_half_unit by (intro divide_right_mono) simp_all
  finally show ?thesis by simp
qed

lemma length_f64_fixed:
  assumes "0 \<le> x" "x < of_nat (10 ^ k)" "0 < k"
  shows "length (f64_fixed p (Fin x)) \<le> Suc k + (if p = 0 then 0 else p + 1)"
proof -
  have "x * 10 ^ p \<le> of_int (10 ^ (k + p))" using assms(1,2) by (simp add: power_add)
  then have "rne_int (x * 10 ^ p) \<le> 10 ^ (k + p)" using rne_int_mono by (metis rne_int_of_int)
  then have "nat (rne_int (x * 10 ^ p)) \<le> 10 ^ (k + p)" by (simp add: nat_le_iff)
  also have "(10 :: nat) ^ (k + p) < 10 ^ (Suc k + p)" by (rule power_strict_increasing) simp_all
  finally show ?thesis using length_fixed_nat [of _ "Suc k" p] assms(1) by simp
qed

section \<open>Padding\<close>

definition ascii :: "string \<Rightarrow> bool" where
  "ascii s \<longleftrightarrow> (\<forall>c \<in> set s. (of_char c :: nat) < 128)"

lemma ascii_simps [simp]:
  "ascii []" "ascii (c # s) \<longleftrightarrow> (of_char c :: nat) < 128 \<and> ascii s" "ascii (s @ t) \<longleftrightarrow> ascii s \<and> ascii t"
  by (auto simp: ascii_def)

lemma char_count_ascii: "ascii s \<Longrightarrow> char_count s = length s"
  by (induction s) (auto simp: char_count_def)

lemma ascii_digits: "\<forall>c \<in> set s. is_digit c \<Longrightarrow> ascii s"
  by (auto simp: ascii_def is_digit_def)

lemma ascii_dec [simp]: "ascii (dec n)"
  by (rule ascii_digits) (rule dec_digits)

lemma ascii_fixed [simp]: "ascii (fixed_nat p n)"
proof -
  have "ascii (zero_padded p (dec m))" for m
    using dec_digits [of m] by (intro ascii_digits) (auto simp: zero_padded_def)
  then show ?thesis by (simp add: fixed_nat_def)
qed

lemma ascii_f64_fixed [simp]: "ascii (f64_fixed p x)"
  by (cases x) simp_all

lemma length_pad: "ascii s \<Longrightarrow> length (pad_left w s) = max w (length s)" "ascii s \<Longrightarrow> length (pad_right w s) = max w (length s)"
  by (simp_all add: pad_left_def pad_right_def char_count_ascii)

lemma unpadded_pad: "s \<noteq> [] \<Longrightarrow> hd s \<noteq> CHR '' '' \<Longrightarrow> unpadded (pad_left w s) = s"
  by (cases s) (simp_all add: unpadded_def pad_left_def dropWhile_append3 dropWhile_eq_Nil_conv)

lemma hd_dec: "hd (dec n) \<noteq> CHR '' ''"
  using dec_digits [of n] by (cases "dec n") auto

lemma fixed_nat_starts: "fixed_nat p n \<noteq> [] \<and> hd (fixed_nat p n) \<noteq> CHR '' ''"
  by (simp add: fixed_nat_def hd_dec)

lemma unpadded_dec [simp]: "unpadded (pad_left w (dec n)) = dec n"
  by (rule unpadded_pad) (simp_all add: hd_dec)

lemma unpadded_f64_fixed: "0 \<le> x \<Longrightarrow> unpadded (pad_left w (f64_fixed p (Fin x))) = f64_fixed p (Fin x)"
  by (rule unpadded_pad) (simp_all add: fixed_nat_starts)

end
