(* ===== verification/Reports.thy ===== *)
theory Reports
  imports Comparison Sweep Printing
begin

text \<open>
  What the two programs print: the comparison, the published figures and the mode table of \<open>src/src/bench.rs\<close>, and
  the table of \<open>src/examples/sweep.rs\<close>. The output is complete when the program ends without failure; a run that
  fails has printed a part of it. Characters beyond ASCII are written as their UTF-8 bytes.
\<close>

section \<open>The benchmark\<close>

definition WARMUP_SECS :: f64 where "WARMUP_SECS = f64_lit 1"

definition em_dash :: string where "em_dash = [CHR 0xE2, CHR 0x80, CHR 0x94]"

definition box_line :: string where "box_line = [CHR 0xE2, CHR 0x94, CHR 0x80]"

definition repeated :: "string \<Rightarrow> nat \<Rightarrow> string" where
  "repeated s n = concat (replicate n s)"

definition newline :: string where "newline = [CHR 0x0A]"

definition bench_intro :: "nat \<Rightarrow> nat list \<Rightarrow> string" where
  "bench_intro ncores tcs =
     println (newline @ repeated ''='' 90) @
     println (''  PACER vs token_af vs Batch-EBR  |  Brown ABtree FFI  |  [0, '' @ dec (unat KEY_RANGE) @ '')'') @
     println (''  Warmup '' @ f64_shortest 0 WARMUP_SECS @ ''s  |  Timed '' @ f64_shortest 0 RUN_SECS @ ''s  |  Threads '' @
       debug_list (map dec tcs) @ ''  |  This machine: '' @ dec ncores @ '' cores'') @
     println (repeated ''='' 90 @ newline) @
     println (pad_right 26 ''Strategy'' @ '' '' @ pad_left 5 ''T'' @ ''  '' @ pad_left 10 ''Mops/s'' @ ''  '' @ pad_left 12 ''PeakLimbo'' @
       ''  '' @ pad_left 9 ''vs-EBR'') @
     println (repeated ''-'' 68)"

definition summary_line :: "summary_row \<Rightarrow> string" where
  "summary_line r =
     pad_right 26 (s_name r) @ '' '' @ pad_left 5 (dec (s_threads r)) @ ''  '' @ pad_left 10 (f64_fixed 3 (s_mops r)) @ ''  '' @
     pad_left 12 (dec (s_peak r)) @ ''  '' @ pad_left 8 (f64_fixed 2 (s_vs r)) @ ''x''"

text \<open>Three rows for each number of threads, and an empty line.\<close>

fun summary_lines :: "summary_row list \<Rightarrow> string" where
  "summary_lines (a # b # c # rows) =
     println (summary_line a) @ println (summary_line b) @ println (summary_line c) @ println [] @ summary_lines rows"
| "summary_lines _ = []"

definition published_line :: "string \<Rightarrow> string \<Rightarrow> string \<Rightarrow> string \<Rightarrow> string" where
  "published_line a b c d = println (pad_right 26 a @ ''  '' @ pad_left 10 b @ ''  '' @ pad_left 8 c @ ''  '' @ d)"

definition published_table :: string where
  "published_table =
     println (newline @ repeated ''='' 90) @
     println (''  Kim et al. PPoPP 2024 '' @ em_dash @ '' Published (192T, 4-socket Xeon, JEmalloc 5.0.1, ABtree)'') @
     println (repeated ''='' 90) @
     published_line ''Strategy'' ''Mops/s'' ''vs-EBR'' ''Notes'' @
     println (repeated ''-'' 70) @
     published_line ''Batch-EBR (DEBRA)'' ''43.4'' ''1.00x'' ''60% time in free() at 192T'' @
     published_line ''token_af'' ''111.3'' ''2.57x'' ''K=1 Amortised Free'' @
     published_line ''token_af (best K)'' ''123.7'' ''2.85x'' ''Optimal K per workload''"

text \<open>The derived \<open>Debug\<close> of a mode writes its name and takes no notice of a width.\<close>

fun gc_mode_debug :: "gc_mode \<Rightarrow> string" where
  "gc_mode_debug AggressiveEbr = ''AggressiveEbr''"
| "gc_mode_debug AmortisedFree = ''AmortisedFree''"
| "gc_mode_debug ConservativeHold = ''ConservativeHold''"

definition mode_line :: "u64 \<Rightarrow> string" where
  "mode_line pct =
     (case mode_row pct of (spi, mode, bk, stride) \<Rightarrow>
        println (pad_right 8 (f64_fixed 2 spi) @ '' '' @ gc_mode_debug mode @ '' '' @ pad_left 8 (dec bk) @ '' '' @ pad_left 13 (dec (unat stride))))"

definition mode_table :: string where
  "mode_table =
     println (newline @ repeated box_line 2 @ '' PACER mode selection '' @ repeated box_line 41) @
     println (pad_right 8 ''SPI'' @ '' '' @ pad_right 22 ''Mode'' @ '' '' @ pad_left 8 ''batch_k'' @ '' '' @ pad_left 13 ''epoch_stride'') @
     println (repeated ''-'' 55) @
     concat (map mode_line [0, 15, 30, 31, 60, 61, 100]) @
     println (newline @ ''Done. Paste output to Claude to update paper with real numbers.'')"

definition bench_output :: "'tree abtree_lib \<Rightarrow> (strat \<Rightarrow> nat \<Rightarrow> (nat \<times> bool) list) \<Rightarrow> nat \<Rightarrow> string res" where
  "bench_output lib sched ncores =
     bind_res (bench_main lib sched ncores) (\<lambda>rows.
       Inr (bench_intro ncores (thread_counts ncores) @ summary_lines rows @ published_table @ mode_table))"

section \<open>The sweep\<close>

definition SWEEP_RUN_SECS :: f64 where "SWEEP_RUN_SECS = f64_lit (25 / 100)"

definition plus_minus :: string where "plus_minus = [CHR 0xC2, CHR 0xB1]"

definition section_sign :: string where "section_sign = [CHR 0xC2, CHR 0xA7]"

definition sweep_intro :: string where
  "sweep_intro =
     println (''Sweep: '' @ dec REPEATS @ '' repeats x '' @ f64_fixed 2 SWEEP_RUN_SECS @ ''s per (strategy, threads, snap_fraction); threads='' @
       debug_list (map dec THREAD_COUNTS) @ '' snap_fraction='' @ debug_list (map (f64_shortest 1) SNAP_FRACTIONS)) @
     println (pad_right 20 ''Strategy'' @ '' '' @ pad_left 3 ''T'' @ '' '' @ pad_left 5 ''snap'' @ ''  '' @
       pad_left 16 (''Mops/s (mean'' @ plus_minus @ ''sd)'') @ ''  '' @ pad_left 14 ''PeakLimbo'' @ ''  '' @ pad_left 12 ''%time-free'' @ ''  '' @
       pad_left 14 ''snap-lat(us)'') @
     println (repeated ''-'' 96)"

definition sweep_line :: "sweep_row \<Rightarrow> string" where
  "sweep_line r =
     pad_right 20 (row_name r) @ '' '' @ pad_left 3 (dec (row_threads r)) @ '' '' @ pad_left 5 (f64_fixed 2 (row_snap r)) @ ''  '' @
     pad_left 8 (f64_fixed 3 (mops_mean r)) @ '' '' @ plus_minus @ '' '' @ pad_right 5 (f64_fixed 3 (mops_sd r)) @ ''  '' @
     pad_left 14 (f64_fixed 0 (peak_mean r)) @ ''  '' @ pad_left 11 (f64_fixed 2 (free_mean r)) @ ''%  '' @ pad_left 14 (f64_fixed 2 (lat_mean r))"

text \<open>Four rows for each share of snapshots, and an empty line.\<close>

fun sweep_lines :: "sweep_row list \<Rightarrow> string" where
  "sweep_lines (a # b # c # d # rows) =
     println (sweep_line a) @ println (sweep_line b) @ println (sweep_line c) @ println (sweep_line d) @ println [] @ sweep_lines rows"
| "sweep_lines _ = []"

definition sweep_closing :: string where
  "sweep_closing =
     println ''Done. snap=0.0 rows reproduce the paper's write-only regime;'' @
     println (''snap>0.0 rows are the mixed-workload evaluation '' @ section_sign @ ''V.A of the paper called for'') @
     println ''but never ran. %time-free is a simulated-contention proxy, not real jemalloc'' @
     println (''instrumentation '' @ em_dash @ '' see AllocatorPressure in src/lib.rs.'')"

definition sweep_output :: "(nat \<Rightarrow> f64 \<Rightarrow> strategy \<Rightarrow> repeat list) \<Rightarrow> string res option" where
  "sweep_output reps = bind_run (sweep reps) (\<lambda>rows. Some (Inr (sweep_intro @ sweep_lines rows @ sweep_closing)))"

section \<open>Reading the comparison\<close>

text \<open>The characters of a column.\<close>

definition column :: "nat \<Rightarrow> nat \<Rightarrow> string \<Rightarrow> string" where
  "column k w line = take w (drop k line)"

lemma column_append:
  "length s \<le> k \<Longrightarrow> column k w (s @ t) = column (k - length s) w t"
  "length s = w \<Longrightarrow> column 0 w (s @ t) = s"
  by (simp_all add: column_def)

lemma column_pad:
  "ascii s \<Longrightarrow> length s \<le> w \<Longrightarrow> w \<le> k \<Longrightarrow> column k v (pad_right w s @ t) = column (k - w) v t"
  "ascii s \<Longrightarrow> length s \<le> w \<Longrightarrow> w \<le> k \<Longrightarrow> column k v (pad_left w s @ t) = column (k - w) v t"
  "ascii s \<Longrightarrow> length s \<le> w \<Longrightarrow> column 0 w (pad_left w s @ t) = pad_left w s"
  by (simp_all add: column_def length_pad)

text \<open>C38: The comparison can be read back from what is printed: a row whose values fit their columns is a line of 69
  characters with every value in its own column, the counts exact, the throughput within half a thousandth and
  the ratio within half a hundredth.\<close>

theorem summary_line_reads_back:
  assumes "ascii (s_name r)" "length (s_name r) \<le> 26" "s_threads r < 10 ^ 5" "s_peak r < 10 ^ 12"
    and "s_mops r = Fin m" "0 \<le> m" "m < 10 ^ 5" "s_vs r = Fin v" "0 \<le> v" "v < 10 ^ 4"
  shows "length (summary_line r) = 69 \<and>
    undec (unpadded (column 27 5 (summary_line r))) = s_threads r \<and>
    \<bar>read_fixed 3 (unpadded (column 34 10 (summary_line r))) - m\<bar> \<le> 1 / 2000 \<and>
    undec (unpadded (column 46 12 (summary_line r))) = s_peak r \<and>
    \<bar>read_fixed 2 (unpadded (column 60 8 (summary_line r))) - v\<bar> \<le> 1 / 200"
proof -
  have l: "length (dec (s_threads r)) \<le> 5" "length (dec (s_peak r)) \<le> 12"
    by (rule length_dec; use assms(3,4) in simp)+
  have f: "length (f64_fixed 3 (Fin m)) \<le> 10" "length (f64_fixed 2 (Fin v)) \<le> 8"
    using length_f64_fixed [of m 5 3] length_f64_fixed [of v 4 2] assms(6,7,9,10) by simp_all
  note col = column_pad [OF assms(1,2)] column_pad [OF ascii_dec l(1)] column_pad [OF ascii_dec l(2)]
    column_pad [OF ascii_f64_fixed f(1)] column_pad [OF ascii_f64_fixed f(2)]
  let ?line = "summary_line r"
  have line: "?line = pad_right 26 (s_name r) @ '' '' @ pad_left 5 (dec (s_threads r)) @ ''  '' @ pad_left 10 (f64_fixed 3 (Fin m)) @
      ''  '' @ pad_left 12 (dec (s_peak r)) @ ''  '' @ pad_left 8 (f64_fixed 2 (Fin v)) @ ''x''"
    by (simp only: summary_line_def assms(5,8))
  have "length ?line = 69" unfolding line
    using l f assms(1,2) by (simp add: length_pad del: f64_fixed.simps)
  moreover have "unpadded (column 27 5 ?line) = dec (s_threads r)" "unpadded (column 46 12 ?line) = dec (s_peak r)"
    "unpadded (column 34 10 ?line) = f64_fixed 3 (Fin m)" "unpadded (column 60 8 ?line) = f64_fixed 2 (Fin v)"
    unfolding line
    by (simp_all add: col column_append unpadded_f64_fixed assms(6,9) del: f64_fixed.simps append_Cons)
  ultimately show ?thesis
    using read_f64_fixed [OF assms(6), of 3] read_f64_fixed [OF assms(9), of 2] by (simp del: f64_fixed.simps)
qed

theorem summary_line_reads_back_witness:
  "let line = summary_line \<lparr>s_name = ''PACER-Discrete'', s_threads = 8, s_mops = Fin (12345 / 1000), s_peak = 1024, s_vs = Fin (5 / 2)\<rparr>
   in length line = 69 \<and> undec (unpadded (column 27 5 line)) = 8 \<and>
     \<bar>read_fixed 3 (unpadded (column 34 10 line)) - 12345 / 1000\<bar> \<le> 1 / 2000 \<and>
     undec (unpadded (column 46 12 line)) = 1024 \<and> \<bar>read_fixed 2 (unpadded (column 60 8 line)) - 5 / 2\<bar> \<le> 1 / 200"
  using summary_line_reads_back [of "\<lparr>s_name = ''PACER-Discrete'', s_threads = 8, s_mops = Fin (12345 / 1000), s_peak = 1024, s_vs = Fin (5 / 2)\<rparr>"
      "12345 / 1000" "5 / 2"]
  by (simp add: Let_def)

end
