(* ===== verification/Token_Reclaimer.thy ===== *)
theory Token_Reclaimer
  imports Gc_Mode "HOL-Library.Multiset"
begin

text \<open>
  The setbench reclaimer, \<open>src/pacer/reclaimer_pacer.h\<close>: the first form of the algorithm, in C++, which the published
  measurements ran. The threads form a ring in which a token goes round; a thread that starts an operation
  with the token passes it on and rotates its bags, so that a node is handed back only when the token
  has been with every thread since it was retired. A thread's bags exist for each record type; the classes
  for bags and pools are setbench's (\<open>blockbag.h\<close>, \<open>pool_interface\<close>, not part of the repository): the bag operations are the
  parameter \<open>blockbag\<close>, and what a pool is given is recorded.

  \<open>long long\<close> and \<open>int\<close> are words read as signed numbers. The accesses to the tokens, which are the only shared
  data, are one step each; everything between them is local to the thread.
\<close>

section \<open>Constants and modes\<close>

type_synonym s64 = "64 word"
type_synonym s32 = "32 word"

definition PACER_SPI_WRITE_HEAVY :: f64 where "PACER_SPI_WRITE_HEAVY = f64_lit (30 / 100)"

definition PACER_SPI_SNAP_HEAVY :: f64 where "PACER_SPI_SNAP_HEAVY = f64_lit (60 / 100)"

definition PACER_EMA_ALPHA :: f64 where "PACER_EMA_ALPHA = f64_lit (15 / 100)"

definition PACER_HOLD_LIMIT :: s32 where "PACER_HOLD_LIMIT = 8"

definition PACER_HYSTERESIS :: f64 where "PACER_HYSTERESIS = f64_lit (5 / 100)"

datatype pacer_gc_mode = Pacer_Aggressive_Ebr | Pacer_Amortised_Free | Pacer_Conservative_Hold

definition pacer_select_mode :: "f64 \<Rightarrow> pacer_gc_mode" where
  "pacer_select_mode spi =
     (if spi \<le> PACER_SPI_WRITE_HEAVY then Pacer_Aggressive_Ebr
      else if spi \<le> PACER_SPI_SNAP_HEAVY then Pacer_Amortised_Free
      else Pacer_Conservative_Hold)"

fun pacer_select_mode_hyst :: "f64 \<Rightarrow> pacer_gc_mode \<Rightarrow> pacer_gc_mode" where
  "pacer_select_mode_hyst spi Pacer_Aggressive_Ebr =
     (if PACER_SPI_SNAP_HEAVY + PACER_HYSTERESIS < spi then Pacer_Conservative_Hold
      else if PACER_SPI_WRITE_HEAVY + PACER_HYSTERESIS < spi then Pacer_Amortised_Free
      else Pacer_Aggressive_Ebr)"
| "pacer_select_mode_hyst spi Pacer_Amortised_Free =
     (if spi \<le> PACER_SPI_WRITE_HEAVY - PACER_HYSTERESIS then Pacer_Aggressive_Ebr
      else if PACER_SPI_SNAP_HEAVY + PACER_HYSTERESIS < spi then Pacer_Conservative_Hold
      else Pacer_Amortised_Free)"
| "pacer_select_mode_hyst spi Pacer_Conservative_Hold =
     (if spi \<le> PACER_SPI_WRITE_HEAVY - PACER_HYSTERESIS then Pacer_Aggressive_Ebr
      else if spi \<le> PACER_SPI_SNAP_HEAVY - PACER_HYSTERESIS then Pacer_Amortised_Free
      else Pacer_Conservative_Hold)"

section \<open>Bags\<close>

text \<open>What the reclaimer uses of setbench's bags. \<open>append_move_full_blocks\<close> takes the destination and the source;
  \<open>bag_list\<close> is what a pool's \<open>addMoveAll\<close> finds in a bag.\<close>

record ('a, 'b) blockbag =
  bag_new :: 'b
  bag_add :: "'a \<Rightarrow> 'b \<Rightarrow> 'b"
  bag_remove :: "'b \<Rightarrow> 'a \<times> 'b"
  bag_is_empty :: "'b \<Rightarrow> bool"
  compute_size :: "'b \<Rightarrow> nat"
  append_move_full_blocks :: "'b \<Rightarrow> 'b \<Rightarrow> 'b \<times> 'b"
  bag_list :: "'b \<Rightarrow> 'a list"

abbreviation items :: "('a, 'b) blockbag \<Rightarrow> 'b \<Rightarrow> 'a multiset" where
  "items B b \<equiv> mset (bag_list B b)"

text \<open>The documented behaviour of the bags. Which blocks a transfer moves is left open: some of the source, with nothing
  lost.\<close>

definition blockbag_laws :: "('a, 'b) blockbag \<Rightarrow> bool" where
  "blockbag_laws B \<longleftrightarrow>
     items B (bag_new B) = {#} \<and>
     (\<forall>p b. items B (bag_add B p b) = add_mset p (items B b)) \<and>
     (\<forall>b. bag_is_empty B b \<longleftrightarrow> items B b = {#}) \<and>
     (\<forall>b. items B b \<noteq> {#} \<longrightarrow> items B b = add_mset (fst (bag_remove B b)) (items B (snd (bag_remove B b)))) \<and>
     (\<forall>b. compute_size B b = size (items B b)) \<and>
     (\<forall>d s. items B (fst (append_move_full_blocks B d s)) + items B (snd (append_move_full_blocks B d s)) = items B d + items B s \<and>
        items B d \<subseteq># items B (fst (append_move_full_blocks B d s)))"

section \<open>One thread\<close>

text \<open>The three bags of a record type; they are allocated and deleted together.\<close>

record 'b epoch_bags =
  curr_bag :: 'b
  last_bag :: 'b
  free_bag :: 'b

record 'b thread_data =
  td_token :: s32
  td_token_count :: s32
  td_win_writes :: s64
  td_win_snaps :: s64
  td_spi_ema :: f64
  td_hold_ticks :: s32
  td_gc_mode :: pacer_gc_mode
  td_bags :: "'b epoch_bags option list"

text \<open>The constructor, for \<open>k\<close> record types: the first thread has the token, the bags are null.\<close>

definition thread_data_new :: "nat \<Rightarrow> nat \<Rightarrow> 'b thread_data" where
  "thread_data_new k i =
     \<lparr>td_token = (if i = 0 then 1 else 0), td_token_count = 0, td_win_writes = 0, td_win_snaps = 0,
      td_spi_ema = f64_lit 0, td_hold_ticks = 0, td_gc_mode = Pacer_Aggressive_Ebr, td_bags = replicate k None\<rparr>"

definition init_thread :: "('a, 'b) blockbag \<Rightarrow> 'b thread_data \<Rightarrow> 'b thread_data" where
  "init_thread B td =
     td\<lparr>td_bags := map (\<lambda>x. case x of
        None \<Rightarrow> Some \<lparr>curr_bag = bag_new B, last_bag = bag_new B, free_bag = bag_new B\<rparr> | Some b \<Rightarrow> Some b) (td_bags td)\<rparr>"

text \<open>The nodes given to the pools, and the thread without bags.\<close>

definition bags_list :: "('a, 'b) blockbag \<Rightarrow> 'b epoch_bags \<Rightarrow> 'a list" where
  "bags_list B b = bag_list B (curr_bag b) @ bag_list B (last_bag b) @ bag_list B (free_bag b)"

definition deinit_thread :: "('a, 'b) blockbag \<Rightarrow> 'b thread_data \<Rightarrow> 'a list \<times> 'b thread_data" where
  "deinit_thread B td =
     (concat (map (\<lambda>x. case x of None \<Rightarrow> [] | Some b \<Rightarrow> bags_list B b) (td_bags td)),
      td\<lparr>td_bags := map (\<lambda>_. None) (td_bags td)\<rparr>)"

definition f64_of_s64 :: "s64 \<Rightarrow> f64" where
  "f64_of_s64 x = f64_of_rat (of_int (sint x))"

definition pacer_resample :: "'b thread_data \<Rightarrow> 'b thread_data" where
  "pacer_resample td =
     (let total = td_win_writes td + td_win_snaps td in
      if 0 < sint total
      then let win_spi = f64_of_s64 (td_win_snaps td) / f64_of_s64 (total + 1)
           in td\<lparr>td_spi_ema := td_spi_ema td * (1 - PACER_EMA_ALPHA) + win_spi * PACER_EMA_ALPHA,
                 td_win_writes := 0, td_win_snaps := 0\<rparr>
      else td)"

definition rotate_epoch_bags :: "('a, 'b) blockbag \<Rightarrow> 'b epoch_bags \<Rightarrow> 'b epoch_bags" where
  "rotate_epoch_bags B b =
     (let freeable = last_bag b;
          (free', freeable') = append_move_full_blocks B (free_bag b) freeable
      in b\<lparr>free_bag := free', last_bag := curr_bag b, curr_bag := freeable'\<rparr>)"

text \<open>None stands for the use of a null pointer.\<close>

fun rotate_all_epoch_bags :: "('a, 'b) blockbag \<Rightarrow> 'b epoch_bags option list \<Rightarrow> 'b epoch_bags option list option" where
  "rotate_all_epoch_bags B [] = Some []"
| "rotate_all_epoch_bags B (None # bs) = None"
| "rotate_all_epoch_bags B (Some b # bs) =
     map_option (\<lambda>bs'. Some (rotate_epoch_bags B b) # bs') (rotate_all_epoch_bags B bs)"

text \<open>How many nodes this operation may hand back.\<close>

definition drain_gate :: "'b thread_data \<Rightarrow> 'b thread_data \<times> nat" where
  "drain_gate td =
     (let mode = pacer_select_mode_hyst (td_spi_ema td) (td_gc_mode td);
          td1 = td\<lparr>td_gc_mode := mode\<rparr>
      in if mode = Pacer_Conservative_Hold
         then let td2 = td1\<lparr>td_hold_ticks := td_hold_ticks td1 + 1\<rparr>
              in if sint PACER_HOLD_LIMIT \<le> sint (td_hold_ticks td2)
                 then (td2\<lparr>td_hold_ticks := 0\<rparr>, nat (sint PACER_HOLD_LIMIT))
                 else (td2, 0)
         else (td1\<lparr>td_hold_ticks := 0\<rparr>, 1))"

fun drain_freeables :: "('a, 'b) blockbag \<Rightarrow> nat \<Rightarrow> 'b \<Rightarrow> 'a list \<times> 'b" where
  "drain_freeables B 0 b = ([], b)"
| "drain_freeables B (Suc k) b =
     (if bag_is_empty B b then ([], b)
      else let (p, b1) = bag_remove B b; (ps, b2) = drain_freeables B k b1 in (p # ps, b2))"

text \<open>The drain of an operation: of the first record type's bag only, which is the one of the reclaimer that is called.\<close>

definition drain_this :: "('a, 'b) blockbag \<Rightarrow> nat \<Rightarrow> 'b epoch_bags option list \<Rightarrow> ('a list \<times> 'b epoch_bags option list) option" where
  "drain_this B k bs =
     (if k = 0 then Some ([], bs)
      else case bs of
        Some b # rest \<Rightarrow> (let (ps, f) = drain_freeables B k (free_bag b) in Some (ps, Some (b\<lparr>free_bag := f\<rparr>) # rest))
      | _ \<Rightarrow> None)"

text \<open>\<open>startOp\<close> after the accesses to the tokens.\<close>

definition finish_start :: "('a, 'b) blockbag \<Rightarrow> bool \<Rightarrow> 'b thread_data \<Rightarrow> ('a list \<times> 'b thread_data) option" where
  "finish_start B received td =
     (let td1 = (if received then pacer_resample (td\<lparr>td_token_count := td_token_count td + 1\<rparr>) else td) in
      case (if received then rotate_all_epoch_bags B (td_bags td1) else Some (td_bags td1)) of
        None \<Rightarrow> None
      | Some bs \<Rightarrow>
          (let (td2, k) = drain_gate td1 in
           case drain_this B k bs of
             None \<Rightarrow> None
           | Some (ps, bs') \<Rightarrow> Some (ps, td2\<lparr>td_bags := bs'\<rparr>)))"

section \<open>The ring\<close>

datatype start_pc = Outside | Read_Token | Clear_Token | Pass_Token | Finish_Start bool | Inside

text \<open>A thread with three counts the program does not keep: its calls of \<open>startOp\<close>, the nodes it has retired, and those
  it has handed back.\<close>

record 'b ring_thread =
  rt_td :: "'b thread_data"
  rt_pc :: start_pc
  rt_starts :: nat
  rt_retired :: nat
  rt_freed :: nat

text \<open>The pool holds the nodes handed back and not allocated again. Three sets describe the data structure that uses the
  reclaimer: the nodes linked into it, those that ever were, and for each thread the nodes of which it can
  hold a reference, which are those linked at some moment of its current operation.\<close>

record ('a, 'b) ring =
  r_threads :: "'b ring_thread list"
  r_pool :: "'a list"
  r_linked :: "'a set"
  r_born :: "'a set"
  r_sees :: "nat \<Rightarrow> 'a set"

text \<open>The first argument of \<open>Retire_Node\<close> is the record type.\<close>

datatype 'a ring_op = Start_Op bool | Token_Access | End_Op | Link_Node 'a | Retire_Node nat 'a | Init_Thread | Deinit_Thread

definition with_ring_thread :: "nat \<Rightarrow> 'b ring_thread \<Rightarrow> ('a, 'b) ring \<Rightarrow> ('a, 'b) ring" where
  "with_ring_thread i th w = w\<lparr>r_threads := (r_threads w)[i := th]\<rparr>"

fun token_access :: "('a, 'b) blockbag \<Rightarrow> nat \<Rightarrow> start_pc \<Rightarrow> ('a, 'b) ring \<Rightarrow> ('a, 'b) ring option" where
  "token_access B i Read_Token w =
     (let th = r_threads w ! i
      in Some (with_ring_thread i (th\<lparr>rt_pc := if td_token (rt_td th) \<noteq> 0 then Clear_Token else Finish_Start False\<rparr>) w))"
| "token_access B i Clear_Token w =
     (let th = r_threads w ! i
      in Some (with_ring_thread i (th\<lparr>rt_td := (rt_td th)\<lparr>td_token := 0\<rparr>, rt_pc := Pass_Token\<rparr>) w))"
| "token_access B i Pass_Token w =
     (let w1 = with_ring_thread i ((r_threads w ! i)\<lparr>rt_pc := Finish_Start True\<rparr>) w;
          j = (i + 1) mod length (r_threads w);
          next_th = r_threads w1 ! j
      in Some (with_ring_thread j (next_th\<lparr>rt_td := (rt_td next_th)\<lparr>td_token := 1\<rparr>\<rparr>) w1))"
| "token_access B i (Finish_Start received) w =
     (let th = r_threads w ! i in
      case finish_start B received (rt_td th) of
        None \<Rightarrow> None
      | Some (ps, td) \<Rightarrow>
          Some ((with_ring_thread i (th\<lparr>rt_td := td, rt_pc := Inside, rt_freed := rt_freed th + length ps\<rparr>) w)
                 \<lparr>r_pool := r_pool w @ ps, r_sees := (r_sees w)(i := r_linked w)\<rparr>))"
| "token_access B i _ w = Some w"

text \<open>A call that is not possible does nothing: an operation is started outside and ended inside one, nodes are linked and
  retired inside one, a node is allocated fresh or from the pool, and retired when it was linked.\<close>

fun ring_step :: "('a, 'b) blockbag \<Rightarrow> nat \<Rightarrow> 'a ring_op \<Rightarrow> ('a, 'b) ring \<Rightarrow> ('a, 'b) ring option" where
  "ring_step B i (Start_Op read_only) w =
     (let th = r_threads w ! i; td = rt_td th in
      Some (if rt_pc th = Outside
        then with_ring_thread i (th\<lparr>rt_pc := Read_Token, rt_starts := rt_starts th + 1,
           rt_td := if read_only then td\<lparr>td_win_snaps := td_win_snaps td + 1\<rparr> else td\<lparr>td_win_writes := td_win_writes td + 1\<rparr>\<rparr>) w
        else w))"
| "ring_step B i Token_Access w = token_access B i (rt_pc (r_threads w ! i)) w"
| "ring_step B i End_Op w =
     (let th = r_threads w ! i in
      Some (if rt_pc th = Inside
        then (with_ring_thread i (th\<lparr>rt_pc := Outside\<rparr>) w)\<lparr>r_sees := (r_sees w)(i := {})\<rparr> else w))"
| "ring_step B i (Link_Node p) w =
     Some (if rt_pc (r_threads w ! i) = Inside \<and> (p \<in> r_born w \<longrightarrow> p \<in> set (r_pool w))
       then w\<lparr>r_pool := remove1 p (r_pool w), r_linked := insert p (r_linked w), r_born := insert p (r_born w),
              r_sees := (\<lambda>j. if j < length (r_threads w) \<and> rt_pc (r_threads w ! j) = Inside then insert p (r_sees w j) else r_sees w j)\<rparr>
       else w)"
| "ring_step B i (Retire_Node k p) w =
     (let th = r_threads w ! i; td = rt_td th in
      if rt_pc th = Inside \<and> p \<in> r_linked w \<and> k < length (td_bags td)
      then case td_bags td ! k of
          None \<Rightarrow> None
        | Some b \<Rightarrow>
            Some ((with_ring_thread i (th\<lparr>rt_td := td\<lparr>td_bags := (td_bags td)[k := Some (b\<lparr>curr_bag := bag_add B p (curr_bag b)\<rparr>)]\<rparr>,
                     rt_retired := rt_retired th + 1\<rparr>) w)\<lparr>r_linked := r_linked w - {p}\<rparr>)
      else Some w)"
| "ring_step B i Init_Thread w =
     (let th = r_threads w ! i in
      Some (if rt_pc th = Outside then with_ring_thread i (th\<lparr>rt_td := init_thread B (rt_td th)\<rparr>) w else w))"
| "ring_step B i Deinit_Thread w =
     (let th = r_threads w ! i in
      Some (if rt_pc th = Outside
        then (let (ps, td) = deinit_thread B (rt_td th)
              in (with_ring_thread i (th\<lparr>rt_td := td, rt_freed := rt_freed th + length ps\<rparr>) w)\<lparr>r_pool := r_pool w @ ps\<rparr>)
        else w))"

fun ring_run :: "('a, 'b) blockbag \<Rightarrow> (nat \<times> 'a ring_op) list \<Rightarrow> ('a, 'b) ring \<Rightarrow> ('a, 'b) ring option" where
  "ring_run B [] w = Some w"
| "ring_run B ((i, op) # xs) w = (case ring_step B i op w of None \<Rightarrow> None | Some w' \<Rightarrow> ring_run B xs w')"

text \<open>The state after the constructor, for \<open>n\<close> threads and \<open>k\<close> record types.\<close>

definition ring_start :: "nat \<Rightarrow> nat \<Rightarrow> ('a, 'b) ring" where
  "ring_start n k =
     \<lparr>r_threads = map (\<lambda>i. \<lparr>rt_td = thread_data_new k i, rt_pc = Outside, rt_starts = 0, rt_retired = 0, rt_freed = 0\<rparr>) [0..<n],
      r_pool = [], r_linked = {}, r_born = {}, r_sees = (\<lambda>_. {})\<rparr>"

text \<open>\<open>getSizeInNodes\<close> of the reclaimer of a record type.\<close>

definition get_size_in_nodes :: "('a, 'b) blockbag \<Rightarrow> nat \<Rightarrow> ('a, 'b) ring \<Rightarrow> nat" where
  "get_size_in_nodes B k w =
     (\<Sum>th \<leftarrow> r_threads w. case td_bags (rt_td th) ! k of
        None \<Rightarrow> 0
      | Some b \<Rightarrow> compute_size B (curr_bag b) + compute_size B (last_bag b) + compute_size B (free_bag b))"

end
