(* ===== verification/Token_Items.thy ===== *)
theory Token_Items
  imports Token_Reclaimer
begin

text \<open>
  The nodes of the token ring: each operation on the bags keeps them, and at every moment each node that was ever linked
  is linked, in exactly one bag, or in the pool.
\<close>

section \<open>The items of bags\<close>

definition opt_items :: "('a, 'b) blockbag \<Rightarrow> 'b epoch_bags option \<Rightarrow> 'a multiset" where
  "opt_items B x = (case x of None \<Rightarrow> {#} | Some b \<Rightarrow> mset (bags_list B b))"

definition thread_items :: "('a, 'b) blockbag \<Rightarrow> 'b epoch_bags option list \<Rightarrow> 'a multiset" where
  "thread_items B bs = (\<Sum>x \<leftarrow> bs. opt_items B x)"

lemma opt_items_simps [simp]:
  "opt_items B None = {#}"
  "opt_items B (Some b) = items B (curr_bag b) + items B (last_bag b) + items B (free_bag b)"
  by (simp_all add: opt_items_def bags_list_def)

lemma thread_items_simps [simp]:
  "thread_items B [] = {#}"
  "thread_items B (x # bs) = opt_items B x + thread_items B bs"
  by (simp_all add: thread_items_def)

lemma sum_list_update_comm:
  fixes f :: "'x \<Rightarrow> 'y :: comm_monoid_add"
  shows "k < length xs \<Longrightarrow> (\<Sum>x \<leftarrow> xs[k := y]. f x) + f (xs ! k) = (\<Sum>x \<leftarrow> xs. f x) + f y"
  by (induction xs arbitrary: k) (auto simp: ac_simps less_Suc_eq_0_disj)

lemmas thread_items_update = sum_list_update_comm [where f = "opt_items B" for B, folded thread_items_def]

lemma thread_items_member: "x \<in> set bs \<Longrightarrow> opt_items B x \<subseteq># thread_items B bs"
  by (induction bs) (auto intro: subset_mset.add_increasing2 subset_mset.add_increasing)

lemma thread_items_null [simp]: "thread_items B (replicate k None) = {#}" "thread_items B (map (\<lambda>_. None) bs) = {#}"
  by (induction k, simp_all, induction bs, simp_all)

lemma lawsD:
  assumes "blockbag_laws B"
  shows "items B (bag_new B) = {#}" "items B (bag_add B p b) = add_mset p (items B b)"
    "bag_is_empty B b \<longleftrightarrow> items B b = {#}" "compute_size B b = size (items B b)"
    "items B b \<noteq> {#} \<Longrightarrow> add_mset (fst (bag_remove B b)) (items B (snd (bag_remove B b))) = items B b"
    "append_move_full_blocks B d s = (d', s') \<Longrightarrow> items B d' + items B s' = items B d + items B s"
    "append_move_full_blocks B d s = (d', s') \<Longrightarrow> items B d \<subseteq># items B d'"
  using assms by (simp_all add: blockbag_laws_def) (metis fst_conv snd_conv)+

lemma rotate_items:
  assumes "blockbag_laws B"
  shows "opt_items B (Some (rotate_epoch_bags B b)) = opt_items B (Some b)"
    "last_bag (rotate_epoch_bags B b) = curr_bag b"
    "items B (free_bag (rotate_epoch_bags B b)) \<subseteq># items B (free_bag b) + items B (last_bag b)"
proof -
  obtain d s where a: "append_move_full_blocks B (free_bag b) (last_bag b) = (d, s)" by fastforce
  note l = lawsD(6) [OF assms a]
  show "opt_items B (Some (rotate_epoch_bags B b)) = opt_items B (Some b)" "last_bag (rotate_epoch_bags B b) = curr_bag b"
    using l by (simp_all add: rotate_epoch_bags_def Let_def a ac_simps)
  show "items B (free_bag (rotate_epoch_bags B b)) \<subseteq># items B (free_bag b) + items B (last_bag b)"
    using l by (simp add: rotate_epoch_bags_def Let_def a) (metis mset_subset_eq_add_left)
qed

lemma rotate_all:
  assumes "blockbag_laws B" "rotate_all_epoch_bags B bs = Some bs'"
  shows "thread_items B bs' = thread_items B bs \<and> length bs' = length bs \<and>
    (\<forall>x \<in> set bs'. \<exists>b. Some b \<in> set bs \<and> x = Some (rotate_epoch_bags B b))"
  using assms
  by (induction B bs arbitrary: bs' rule: rotate_all_epoch_bags.induct)
    (fastforce simp: rotate_items(1) simp del: opt_items_simps(2))+

lemma drain_items:
  assumes "blockbag_laws B"
  shows "drain_freeables B k b = (ps, b') \<Longrightarrow> mset ps + items B b' = items B b \<and> length ps \<le> k"
proof (induction k arbitrary: b ps b')
  case (Suc k)
  show ?case
  proof (cases "bag_is_empty B b")
    case False
    obtain p b1 where r: "bag_remove B b = (p, b1)" by fastforce
    obtain qs b2 where q: "drain_freeables B k b1 = (qs, b2)" by fastforce
    have "add_mset p (items B b1) = items B b" using lawsD(5) [OF assms, of b] lawsD(3) [OF assms, of b] False r by simp
    with Suc.IH [OF q] Suc.prems False show ?thesis by (auto simp: r q)
  qed (use Suc.prems in auto)
qed simp

lemma drain_this_items:
  assumes "blockbag_laws B" "drain_this B k bs = Some (ps, bs')"
  shows "mset ps + thread_items B bs' = thread_items B bs" "length ps \<le> k" "length bs' = length bs"
    "Some b' \<in> set bs' \<Longrightarrow> \<exists>b. Some b \<in> set bs \<and> curr_bag b' = curr_bag b \<and> last_bag b' = last_bag b \<and> items B (free_bag b') \<subseteq># items B (free_bag b)"
    "p \<in> set ps \<Longrightarrow> \<exists>b. Some b \<in> set bs \<and> p \<in># items B (free_bag b)"
proof -
  have k0: "ps = []" "bs' = bs" if "k = 0" using assms(2) that by (simp_all add: drain_this_def)
  have pos: "\<exists>b f rest. bs = Some b # rest \<and> drain_freeables B k (free_bag b) = (ps, f) \<and> bs' = Some (b\<lparr>free_bag := f\<rparr>) # rest"
    if "k \<noteq> 0" using assms(2) that by (auto simp: drain_this_def split: list.splits option.splits prod.splits)
  note d = drain_items [OF assms(1)]
  show "mset ps + thread_items B bs' = thread_items B bs" "length ps \<le> k" "length bs' = length bs"
    using k0 pos d by (cases "k = 0"; force simp: ac_simps)+
  show "\<exists>b. Some b \<in> set bs \<and> curr_bag b' = curr_bag b \<and> last_bag b' = last_bag b \<and> items B (free_bag b') \<subseteq># items B (free_bag b)"
    if "Some b' \<in> set bs'"
  proof (cases "k = 0")
    case True then show ?thesis using that k0 by auto
  next
    case False
    then obtain b f rest where b: "bs = Some b # rest" "drain_freeables B k (free_bag b) = (ps, f)" "bs' = Some (b\<lparr>free_bag := f\<rparr>) # rest"
      using pos by blast
    have "items B f \<subseteq># items B (free_bag b)" using d [OF b(2)] by (metis mset_subset_eq_add_right)
    then show ?thesis using that b(1,3) by auto
  qed
  show "\<exists>b. Some b \<in> set bs \<and> p \<in># items B (free_bag b)" if "p \<in> set ps"
  proof (cases "k = 0")
    case True then show ?thesis using that k0 by auto
  next
    case False
    then obtain b f rest where b: "bs = Some b # rest" "drain_freeables B k (free_bag b) = (ps, f)" using pos by blast
    have "p \<in># items B (free_bag b)" using d [OF b(2)] that by (metis set_mset_mset mset_subset_eqD mset_subset_eq_add_left)
    then show ?thesis using b(1) by auto
  qed
qed

lemma finish_start_items:
  assumes "blockbag_laws B" "finish_start B r td = Some (ps, td')"
  shows "mset ps + thread_items B (td_bags td') = thread_items B (td_bags td)" "length (td_bags td') = length (td_bags td)"
    "td_token td' = td_token td"
    "Some b' \<in> set (td_bags td') \<Longrightarrow> \<exists>b. Some b \<in> set (td_bags td) \<and>
       (if r then last_bag b' = curr_bag b \<and> items B (free_bag b') \<subseteq># items B (free_bag b) + items B (last_bag b)
        else last_bag b' = last_bag b \<and> items B (free_bag b') \<subseteq># items B (free_bag b))"
    "p \<in> set ps \<Longrightarrow> \<exists>b. Some b \<in> set (td_bags td) \<and> p \<in># items B (free_bag b) + (if r then items B (last_bag b) else {#})"
proof -
  define td1 where "td1 = (if r then pacer_resample (td\<lparr>td_token_count := td_token_count td + 1\<rparr>) else td)"
  have td1: "td_bags td1 = td_bags td" "td_token td1 = td_token td" by (simp_all add: td1_def pacer_resample_def Let_def)
  obtain bs where bs: "(if r then rotate_all_epoch_bags B (td_bags td) else Some (td_bags td)) = Some bs"
    and f: "(case drain_gate td1 of (td2, k) \<Rightarrow> case drain_this B k bs of None \<Rightarrow> None | Some (ps, bs') \<Rightarrow> Some (ps, td2\<lparr>td_bags := bs'\<rparr>)) = Some (ps, td')"
    using assms(2) unfolding finish_start_def Let_def td1_def [symmetric] td1(1) by (auto split: option.splits)
  obtain td2 k where g: "drain_gate td1 = (td2, k)" by fastforce
  have td2: "td_token td2 = td_token td" using g by (auto simp: drain_gate_def Let_def td1 split: if_splits)
  obtain bs' where d: "drain_this B k bs = Some (ps, bs')" "td' = td2\<lparr>td_bags := bs'\<rparr>"
    using f by (auto simp: g split: option.splits)
  note i = drain_this_items [OF assms(1) d(1)]
  have rot: "thread_items B bs = thread_items B (td_bags td)" "length bs = length (td_bags td)"
    using bs rotate_all [OF assms(1), of "td_bags td" bs] by (auto split: if_splits)
  show "mset ps + thread_items B (td_bags td') = thread_items B (td_bags td)" "length (td_bags td') = length (td_bags td)"
    "td_token td' = td_token td"
    using i(1,3) rot td2 by (simp_all add: d(2))
  have from_bs: "\<exists>b0. Some b0 \<in> set (td_bags td) \<and> (if r then last_bag b = curr_bag b0 \<and> items B (free_bag b) \<subseteq># items B (free_bag b0) + items B (last_bag b0) else b = b0)"
    if m: "Some b \<in> set bs" for b
  proof (cases r)
    case True
    then have "rotate_all_epoch_bags B (td_bags td) = Some bs" using bs by simp
    then obtain b0 where b0: "Some b0 \<in> set (td_bags td)" "b = rotate_epoch_bags B b0"
      using m rotate_all [OF assms(1)] by blast
    have "last_bag b = curr_bag b0" unfolding b0(2) by (rule rotate_items(2) [OF assms(1)])
    moreover have "items B (free_bag b) \<subseteq># items B (free_bag b0) + items B (last_bag b0)"
      unfolding b0(2) by (rule rotate_items(3) [OF assms(1)])
    ultimately show ?thesis unfolding if_P [OF True] using b0(1) by blast
  qed (use bs m in simp)
  show "\<exists>b. Some b \<in> set (td_bags td) \<and>
       (if r then last_bag b' = curr_bag b \<and> items B (free_bag b') \<subseteq># items B (free_bag b) + items B (last_bag b)
        else last_bag b' = last_bag b \<and> items B (free_bag b') \<subseteq># items B (free_bag b))"
    if "Some b' \<in> set (td_bags td')"
  proof -
    obtain b where b: "Some b \<in> set bs" "last_bag b' = last_bag b" "items B (free_bag b') \<subseteq># items B (free_bag b)"
      using i(4) [of b'] \<open>Some b' \<in> set (td_bags td')\<close> by (auto simp: d(2))
    show ?thesis using from_bs [OF b(1)] b(2,3) by (cases r) (auto intro: subset_mset.order_trans)
  qed
  show "\<exists>b. Some b \<in> set (td_bags td) \<and> p \<in># items B (free_bag b) + (if r then items B (last_bag b) else {#})"
    if "p \<in> set ps"
  proof -
    obtain b where b: "Some b \<in> set bs" "p \<in># items B (free_bag b)" using i(5) \<open>p \<in> set ps\<close> by blast
    have p: "p \<in># items B (free_bag b)" using b(2) by simp
    obtain b0 where b0: "Some b0 \<in> set (td_bags td)" "if r then last_bag b = curr_bag b0 \<and>
        items B (free_bag b) \<subseteq># items B (free_bag b0) + items B (last_bag b0) else b = b0"
      using from_bs [OF b(1)] by blast
    have "p \<in># items B (free_bag b0) + (if r then items B (last_bag b0) else {#})"
    proof (cases r)
      case True then show ?thesis using mset_subset_eqD [OF _ p, of "items B (free_bag b0) + items B (last_bag b0)"] b0(2) by simp
    next
      case False then show ?thesis using p b0(2) by simp
    qed
    with b0(1) show ?thesis by blast
  qed
qed

section \<open>The items of the ring\<close>

text \<open>Every node that was ever linked is linked, in one bag, or in the pool.\<close>

abbreviation bags_at :: "('a, 'b) ring \<Rightarrow> nat \<Rightarrow> 'b epoch_bags option list" where
  "bags_at w i \<equiv> td_bags (rt_td (r_threads w ! i))"

definition all_items :: "('a, 'b) blockbag \<Rightarrow> ('a, 'b) ring \<Rightarrow> 'a multiset" where
  "all_items B w = (\<Sum>th \<leftarrow> r_threads w. thread_items B (td_bags (rt_td th))) + mset (r_pool w)"

definition conserved :: "('a, 'b) blockbag \<Rightarrow> ('a, 'b) ring \<Rightarrow> bool" where
  "conserved B w \<longleftrightarrow> r_linked w \<subseteq> r_born w \<and> (\<forall>p. count (all_items B w) p = (if p \<in> r_born w - r_linked w then 1 else 0))"

lemma all_items_with:
  "i < length (r_threads w) \<Longrightarrow>
     all_items B (with_ring_thread i th w) + thread_items B (bags_at w i) = all_items B w + thread_items B (td_bags (rt_td th))"
  using sum_list_update_comm [of i "r_threads w" "\<lambda>th. thread_items B (td_bags (rt_td th))" th]
  by (simp add: all_items_def with_ring_thread_def ac_simps)

lemma all_items_same:
  "i < length (r_threads w) \<Longrightarrow> thread_items B (td_bags (rt_td th)) = thread_items B (bags_at w i) \<Longrightarrow>
     all_items B (with_ring_thread i th w) = all_items B w"
  using all_items_with [of i w B th] by simp

lemma all_items_fields [simp]:
  "all_items B (w\<lparr>r_sees := s\<rparr>) = all_items B w" "all_items B (w\<lparr>r_linked := l\<rparr>) = all_items B w"
  "all_items B (w\<lparr>r_born := l\<rparr>) = all_items B w"
  by (simp_all add: all_items_def)

lemma with_ring_thread_fields [simp]:
  "r_pool (with_ring_thread i th w) = r_pool w" "r_linked (with_ring_thread i th w) = r_linked w"
  "r_born (with_ring_thread i th w) = r_born w" "r_sees (with_ring_thread i th w) = r_sees w"
  "length (r_threads (with_ring_thread i th w)) = length (r_threads w)"
  "i < length (r_threads w) \<Longrightarrow> r_threads (with_ring_thread i th w) ! i = th"
  "i \<noteq> j \<Longrightarrow> r_threads (with_ring_thread i th w) ! j = r_threads w ! j"
  by (simp_all add: with_ring_thread_def)

lemma all_items_pass:
  assumes "i < length (r_threads w)" "rt_pc (r_threads w ! i) = Pass_Token" "token_access B i Pass_Token w = Some w'"
  shows "all_items B w' = all_items B w"
proof -
  have "(i + 1) mod length (r_threads w) < length (r_threads w)" by (rule mod_less_divisor) (use assms(1) in linarith)
  with assms(1,3) show ?thesis
    by (cases "(i + 1) mod length (r_threads w) = i") (auto simp: Let_def all_items_same)
qed

lemma conserved_same:
  "conserved B w \<Longrightarrow> all_items B w' = all_items B w \<Longrightarrow> r_linked w' = r_linked w \<Longrightarrow> r_born w' = r_born w \<Longrightarrow> conserved B w'"
  by (simp add: conserved_def)

lemma all_items_pool: "all_items B (w\<lparr>r_pool := r_pool w @ ps\<rparr>) = all_items B w + mset ps"
  by (simp add: all_items_def ac_simps)

lemma finish_access_items:
  assumes "blockbag_laws B" "i < length (r_threads w)" "token_access B i (Finish_Start r) w = Some w'"
  shows "all_items B w' = all_items B w" "r_linked w' = r_linked w" "r_born w' = r_born w"
proof -
  obtain ps td where f: "finish_start B r (rt_td (r_threads w ! i)) = Some (ps, td)"
    and w': "w' = (with_ring_thread i ((r_threads w ! i)\<lparr>rt_td := td, rt_pc := Inside, rt_freed := rt_freed (r_threads w ! i) + length ps\<rparr>) w)
                 \<lparr>r_pool := r_pool w @ ps, r_sees := (r_sees w)(i := r_linked w)\<rparr>"
    using assms(3) by (auto simp: Let_def split: option.splits)
  let ?th = "(r_threads w ! i)\<lparr>rt_td := td, rt_pc := Inside, rt_freed := rt_freed (r_threads w ! i) + length ps\<rparr>"
  let ?w1 = "with_ring_thread i ?th w"
  have "all_items B ?w1 + thread_items B (bags_at w i) = all_items B w + thread_items B (td_bags td)"
    using all_items_with [OF assms(2), of B ?th] by simp
  then have "all_items B ?w1 + mset ps = all_items B w"
    unfolding finish_start_items(1) [OF assms(1) f, symmetric] by (simp add: add.assoc [symmetric])
  then show "all_items B w' = all_items B w"
    unfolding w' using all_items_pool [of B ?w1 ps] by simp
  show "r_linked w' = r_linked w" "r_born w' = r_born w" by (simp_all add: w')
qed

lemma thread_items_init:
  "blockbag_laws B \<Longrightarrow> thread_items B (td_bags (init_thread B td)) = thread_items B (td_bags td)"
proof -
  assume "blockbag_laws B"
  then have "thread_items B (map (\<lambda>x. case x of None \<Rightarrow> Some \<lparr>curr_bag = bag_new B, last_bag = bag_new B, free_bag = bag_new B\<rparr>
       | Some b \<Rightarrow> Some b) bs) = thread_items B bs" for bs
    by (induction bs) (auto simp: lawsD(1) split: option.splits)
  then show ?thesis by (simp add: init_thread_def)
qed

lemma deinit_items:
  "deinit_thread B td = (ps, td') \<Longrightarrow> mset ps = thread_items B (td_bags td) \<and> thread_items B (td_bags td') = {#}"
proof -
  have "mset (concat (map (\<lambda>x. case x of None \<Rightarrow> [] | Some b \<Rightarrow> bags_list B b) bs)) = thread_items B bs" for bs
    by (induction bs) (auto simp: bags_list_def split: option.splits)
  then show "deinit_thread B td = (ps, td') \<Longrightarrow> mset ps = thread_items B (td_bags td) \<and> thread_items B (td_bags td') = {#}"
    by (auto simp: deinit_thread_def)
qed

lemma conserved_item:
  assumes "conserved B w" "p \<in># all_items B w"
  shows "p \<in> r_born w" "p \<notin> r_linked w" "count (all_items B w) p = 1"
  using assms by (auto simp: conserved_def simp flip: count_greater_zero_iff split: if_splits)

lemma pool_items: "p \<in> set (r_pool w) \<Longrightarrow> p \<in># all_items B w"
  by (simp add: all_items_def)

lemma conserved_link:
  assumes "conserved B w" "p \<in> r_born w \<longrightarrow> p \<in> set (r_pool w)"
    and "all_items B w' = all_items B (w\<lparr>r_pool := remove1 p (r_pool w)\<rparr>)" "r_linked w' = insert p (r_linked w)" "r_born w' = insert p (r_born w)"
  shows "conserved B w'"
proof -
  have "all_items B w' = all_items B w - {#p#}"
  proof (cases "p \<in> set (r_pool w)")
    case False
    then have "p \<notin># all_items B w" using assms(2) conserved_item(1) [OF assms(1)] by metis
    with False show ?thesis using assms(3) by (simp add: all_items_def remove1_idem diff_single_trivial)
  qed (use assms(3) in \<open>simp add: all_items_def\<close>)
  moreover have "r_linked w' \<subseteq> r_born w'" using assms(1,4,5) by (auto simp: conserved_def)
  ultimately show ?thesis using assms(1,4,5) by (auto simp: conserved_def)
qed

lemma conserved_retire:
  assumes "conserved B w" "p \<in> r_linked w" "all_items B w' = add_mset p (all_items B w)" "r_linked w' = r_linked w - {p}"
    and "r_born w' = r_born w"
  shows "conserved B w'"
  using assms by (auto simp: conserved_def)

lemma ring_step_conserved:
  assumes "blockbag_laws B" "i < length (r_threads w)" "conserved B w" "ring_step B i op w = Some w'"
  shows "conserved B w'"
proof (cases op)
  case (Start_Op ro)
  with assms(2-4) show ?thesis by (auto simp: Let_def all_items_same elim!: conserved_same split: if_splits)
next
  case Token_Access
  show ?thesis
  proof (cases "rt_pc (r_threads w ! i)")
    case Pass_Token
    then have a: "token_access B i Pass_Token w = Some w'" using assms(4) Token_Access by simp
    then have "r_linked w' = r_linked w" "r_born w' = r_born w" by (auto simp: Let_def)
    then show ?thesis using conserved_same [OF assms(3) all_items_pass [OF assms(2) Pass_Token a]] by simp
  next
    case (Finish_Start r)
    then show ?thesis
      using conserved_same [OF assms(3)] finish_access_items [OF assms(1,2)] assms(4) Token_Access by simp
  qed (use assms(2-4) Token_Access in \<open>auto simp: Let_def all_items_same elim!: conserved_same\<close>)
next
  case End_Op
  with assms(2-4) show ?thesis by (auto simp: Let_def all_items_same elim!: conserved_same split: if_splits)
next
  case (Link_Node p)
  show ?thesis
  proof (cases "rt_pc (r_threads w ! i) = Inside \<and> (p \<in> r_born w \<longrightarrow> p \<in> set (r_pool w))")
    case True
    then show ?thesis
      by (intro conserved_link [OF assms(3), of p w']) (use assms(4) Link_Node in \<open>auto simp: all_items_def\<close>)
  qed (use assms(3,4) Link_Node in auto)
next
  case (Retire_Node k p)
  let ?th = "r_threads w ! i"
  show ?thesis
  proof (cases "rt_pc ?th = Inside \<and> p \<in> r_linked w \<and> k < length (bags_at w i)")
    case True
    then obtain b where b: "bags_at w i ! k = Some b"
      using assms(4) Retire_Node by (auto simp: Let_def split: option.splits)
    let ?bs = "(bags_at w i)[k := Some (b\<lparr>curr_bag := bag_add B p (curr_bag b)\<rparr>)]"
    let ?th' = "?th\<lparr>rt_td := (rt_td ?th)\<lparr>td_bags := ?bs\<rparr>, rt_retired := rt_retired ?th + 1\<rparr>"
    let ?w = "with_ring_thread i ?th' w"
    have w': "w' = ?w\<lparr>r_linked := r_linked w - {p}\<rparr>" using assms(4) Retire_Node True b by (simp add: Let_def)
    have "thread_items B ?bs = add_mset p (thread_items B (bags_at w i))"
      using thread_items_update [of k "bags_at w i" B "Some (b\<lparr>curr_bag := bag_add B p (curr_bag b)\<rparr>)"] True b
      by (simp add: lawsD(2) [OF assms(1)])
    then have "all_items B ?w = add_mset p (all_items B w)" using all_items_with [OF assms(2), of B ?th'] by simp
    then show ?thesis by (intro conserved_retire [OF assms(3), of p]) (use True w' in simp_all)
  qed (use assms(3,4) Retire_Node in \<open>auto simp: Let_def\<close>)
next
  case Init_Thread
  with assms show ?thesis by (auto simp: Let_def all_items_same thread_items_init elim!: conserved_same split: if_splits)
next
  case Deinit_Thread
  let ?th = "r_threads w ! i"
  obtain ps td where d: "deinit_thread B (rt_td ?th) = (ps, td)" by fastforce
  let ?w = "with_ring_thread i (?th\<lparr>rt_td := td, rt_freed := rt_freed ?th + length ps\<rparr>) w"
  have "all_items B ?w + mset ps = all_items B w"
    using all_items_with [OF assms(2), of B "?th\<lparr>rt_td := td, rt_freed := rt_freed ?th + length ps\<rparr>"] deinit_items [OF d] by simp
  then have "all_items B (?w\<lparr>r_pool := r_pool w @ ps\<rparr>) = all_items B w" using all_items_pool [of B ?w ps] by simp
  then show ?thesis
    using assms(3,4) Deinit_Thread d by (auto simp: Let_def elim!: conserved_same split: if_splits)
qed

end
