(* ===== verification/Token_Safety.thy ===== *)
theory Token_Safety
  imports Token_Items
begin

text \<open>
  What the token ring guarantees: there is one token; no operation fails once the bags are there; every node is in one place;
  and, as long as no thread takes its bags down, no node is handed back that a thread can still hold. The last rests on an
  invariant of how far round the ring the token has gone since a thread last rotated its bags.
\<close>

section \<open>One token\<close>

abbreviation pc_at :: "('a, 'b) ring \<Rightarrow> nat \<Rightarrow> start_pc" where
  "pc_at w i \<equiv> rt_pc (r_threads w ! i)"

abbreviation ring_size :: "('a, 'b) ring \<Rightarrow> nat" where
  "ring_size w \<equiv> length (r_threads w)"

definition token_at :: "nat \<Rightarrow> ('a, 'b) ring \<Rightarrow> bool" where
  "token_at h w \<longleftrightarrow> h < ring_size w \<and>
     (\<forall>i < ring_size w.
        td_token (rt_td (r_threads w ! i)) = (if i = h \<and> pc_at w i \<noteq> Pass_Token then 1 else 0) \<and>
        (pc_at w i \<in> {Clear_Token, Pass_Token} \<longrightarrow> i = h))"

definition token_next :: "nat \<Rightarrow> 'a ring_op \<Rightarrow> nat \<Rightarrow> ('a, 'b) ring \<Rightarrow> nat" where
  "token_next i op h w = (if op = Token_Access \<and> pc_at w i = Pass_Token then (i + 1) mod ring_size w else h)"

lemma token_atI:
  assumes "token_at h w" "ring_size w' = ring_size w"
    and "\<And>j. j < ring_size w \<Longrightarrow> j \<noteq> i \<Longrightarrow> r_threads w' ! j = r_threads w ! j"
    and "i < ring_size w \<Longrightarrow> td_token (rt_td (r_threads w' ! i)) = (if i = h \<and> pc_at w' i \<noteq> Pass_Token then 1 else 0)"
    and "i < ring_size w \<Longrightarrow> pc_at w' i \<in> {Clear_Token, Pass_Token} \<Longrightarrow> i = h"
  shows "token_at h w'"
  using assms unfolding token_at_def by metis

lemma ring_step_size: "ring_step B i op w = Some w' \<Longrightarrow> ring_size w' = ring_size w"
  by (cases op; cases "pc_at w i") (auto simp: Let_def split: option.splits if_splits prod.splits)

lemma ring_step_token:
  assumes "blockbag_laws B" "i < ring_size w" "token_at h w" "ring_step B i op w = Some w'"
  shows "token_at (token_next i op h w) w'"
proof -
  have t: "td_token (rt_td (r_threads w ! i)) = (if i = h \<and> pc_at w i \<noteq> Pass_Token then 1 else 0)"
    "pc_at w i \<in> {Clear_Token, Pass_Token} \<Longrightarrow> i = h"
    using assms(2,3) by (auto simp: token_at_def)
  have same: "token_at h w'" if "\<not> (op = Token_Access \<and> pc_at w i = Pass_Token)"
  proof (rule token_atI [OF assms(3) ring_step_size [OF assms(4)], of i])
    show "r_threads w' ! j = r_threads w ! j" if "j < ring_size w" "j \<noteq> i" for j
      using assms(2,4) that \<open>\<not> (op = Token_Access \<and> pc_at w i = Pass_Token)\<close>
      by (cases op; cases "pc_at w i") (auto simp: Let_def split: option.splits if_splits prod.splits)
    show "td_token (rt_td (r_threads w' ! i)) = (if i = h \<and> pc_at w' i \<noteq> Pass_Token then 1 else 0)"
      using assms(2,4) t \<open>\<not> (op = Token_Access \<and> pc_at w i = Pass_Token)\<close>
      by (cases op; cases "pc_at w i")
        (auto simp: Let_def init_thread_def deinit_thread_def finish_start_items(3) [OF assms(1)] split: option.splits if_splits prod.splits)
    show "i = h" if "pc_at w' i \<in> {Clear_Token, Pass_Token}"
      using assms(2,4) t that \<open>\<not> (op = Token_Access \<and> pc_at w i = Pass_Token)\<close>
      by (cases op; cases "pc_at w i") (auto simp: Let_def split: option.splits if_splits prod.splits)
  qed
  have "token_at ((i + 1) mod ring_size w) w'" if p: "op = Token_Access" "pc_at w i = Pass_Token"
  proof -
    let ?j = "(i + 1) mod ring_size w"
    have j: "?j < ring_size w" by (rule mod_less_divisor) (use assms(2) in linarith)
    have h: "i = h" using t(2) p(2) by simp
    have c: "\<forall>k < ring_size w. k \<noteq> i \<longrightarrow> td_token (rt_td (r_threads w ! k)) = 0 \<and> pc_at w k \<notin> {Clear_Token, Pass_Token}"
      using assms(3) h by (auto simp: token_at_def)
    have w': "r_threads w' = (let ths = (r_threads w)[i := (r_threads w ! i)\<lparr>rt_pc := Finish_Start True\<rparr>]
        in ths[?j := (ths ! ?j)\<lparr>rt_td := (rt_td (ths ! ?j))\<lparr>td_token := 1\<rparr>\<rparr>])"
      using assms(4) p by (auto simp: with_ring_thread_def Let_def)
    have t0: "td_token (rt_td (r_threads w ! i)) = 0" using t(1) p(2) by simp
    show ?thesis
      unfolding token_at_def using assms(2) j c t0
      by (auto simp: w' Let_def nth_list_update)
  qed
  with same show ?thesis by (auto simp: token_next_def)
qed

lemma token_at_start: "0 < n \<Longrightarrow> token_at 0 (ring_start n k)"
  by (simp add: token_at_def ring_start_def thread_data_new_def)

lemma conserved_start: "blockbag_laws B \<Longrightarrow> conserved B (ring_start n k)"
  by (simp add: conserved_def ring_start_def all_items_def thread_data_new_def o_def sum_list_triv)

text \<open>Induction over a run, with an invariant of the holder and the state.\<close>

lemma ring_run_induct:
  assumes "ring_run B as w = Some w'" "I h w" "\<forall>(i, op) \<in> set as. i < ring_size w \<and> Q op"
    and step: "\<And>i op h w w'. I h w \<Longrightarrow> i < ring_size w \<Longrightarrow> Q op \<Longrightarrow> ring_step B i op w = Some w' \<Longrightarrow> I (token_next i op h w) w'"
  shows "(\<exists>h'. I h' w') \<and> ring_size w' = ring_size w"
  using assms(1-3)
proof (induction as arbitrary: w h)
  case (Cons x xs)
  obtain i op where x: "x = (i, op)" by fastforce
  obtain w1 where w1: "ring_step B i op w = Some w1" "ring_run B xs w1 = Some w'"
    using Cons.prems(1) by (auto simp: x split: option.splits)
  have s: "I (token_next i op h w) w1" using step [OF Cons.prems(2) _ _ w1(1)] Cons.prems(3) by (simp add: x)
  show ?case using Cons.IH [OF w1(2) s] Cons.prems(3) ring_step_size [OF w1(1)] by (auto simp: x)
qed auto

section \<open>The grace period\<close>

text \<open>The token has been with \<open>j\<close> since it left \<open>i\<close>, when it is at \<open>h\<close> now; at \<open>i\<close> itself it has been with all.\<close>

definition around :: "nat \<Rightarrow> nat \<Rightarrow> nat \<Rightarrow> nat \<Rightarrow> bool" where
  "around n h i j \<longleftrightarrow> j = i \<or> i = h \<or> (j + n - i) mod n < (h + n - i) mod n"

lemma ring_distance:
  fixes n :: nat
  assumes "x < n" "i < n"
  shows "(x + n - i) mod n = (if i \<le> x then x - i else x + n - i)"
proof (cases "i \<le> x")
  case True
  then have "x + n - i = (x - i) + n" by simp
  then show ?thesis using True assms(1) by (metis less_imp_diff_less mod_add_self2 mod_less)
qed (use assms in auto)

lemma next_station:
  fixes n :: nat
  assumes "h < n"
  obtains s where "(h + 1) mod n = s" "s < n" "s = (if h + 1 = n then 0 else h + 1)"
proof -
  have "(h + 1) mod n = (if h + 1 = n then 0 else h + 1)" using assms by simp
  with assms show thesis by (intro that [of "(h + 1) mod n"]) auto
qed

lemma around_next:
  assumes "h < n" "k < n" "j < n" "around n ((h + 1) mod n) k j"
  shows "around n h k j \<or> j = h"
proof -
  obtain s where s: "(h + 1) mod n = s" "s < n" "s = (if h + 1 = n then 0 else h + 1)" by (rule next_station [OF assms(1)])
  have "j = k \<or> k = s \<or> (j + n - k) mod n < (s + n - k) mod n" using assms(4) unfolding s(1) around_def .
  then show ?thesis
    unfolding around_def ring_distance [OF assms(3,2)] ring_distance [OF s(2) assms(2)] ring_distance [OF assms(1,2)]
    using assms(1-3) s(2,3) by (auto split: if_splits)
qed

lemma around_left:
  assumes "i < n" "j < n" "around n ((i + 1) mod n) i j"
  shows "j = i"
proof -
  obtain s where s: "(i + 1) mod n = s" "s < n" "s = (if i + 1 = n then 0 else i + 1)" by (rule next_station [OF assms(1)])
  have "j = i \<or> i = s \<or> (j + n - i) mod n < (s + n - i) mod n" using assms(3) unfolding s(1) around_def .
  then show ?thesis
    unfolding ring_distance [OF assms(2,1)] ring_distance [OF s(2) assms(1)] using assms(1,2) s(2,3) by (auto split: if_splits)
qed

text \<open>What the threads cannot see: the bag of nodes to hand back is out of everyone's sight; the last bag is out of the
  sight of the threads the token has been with, and of all threads when this one is about to rotate its bags; the
  current bag then is where the last bag will be.\<close>

abbreviation hidden :: "('a, 'b) blockbag \<Rightarrow> ('a, 'b) ring \<Rightarrow> 'b \<Rightarrow> nat \<Rightarrow> bool" where
  "hidden B w b j \<equiv> set (bag_list B b) \<inter> r_sees w j = {}"

definition bag_grace :: "('a, 'b) blockbag \<Rightarrow> nat \<Rightarrow> ('a, 'b) ring \<Rightarrow> nat \<Rightarrow> 'b epoch_bags \<Rightarrow> nat \<Rightarrow> bool" where
  "bag_grace B h w i b j \<longleftrightarrow>
     hidden B w (free_bag b) j \<and>
     (pc_at w i = Finish_Start True \<or> around (ring_size w) h i j \<longrightarrow> hidden B w (last_bag b) j) \<and>
     (pc_at w i = Finish_Start True \<and> around (ring_size w) h i j \<longrightarrow> hidden B w (curr_bag b) j)"

definition grace :: "('a, 'b) blockbag \<Rightarrow> nat \<Rightarrow> ('a, 'b) ring \<Rightarrow> bool" where
  "grace B h w \<longleftrightarrow>
     (\<forall>j. r_sees w j \<noteq> {} \<longrightarrow> j < ring_size w \<and> pc_at w j = Inside) \<and>
     (\<forall>j. set (r_pool w) \<inter> r_sees w j = {}) \<and>
     (\<forall>i < ring_size w. \<forall>b. Some b \<in> set (bags_at w i) \<longrightarrow> (\<forall>j < ring_size w. bag_grace B h w i b j))"

lemma graceD:
  assumes "grace B h w"
  shows "r_sees w j \<noteq> {} \<Longrightarrow> j < ring_size w" "r_sees w j \<noteq> {} \<Longrightarrow> pc_at w j = Inside" "set (r_pool w) \<inter> r_sees w j = {}"
    "i < ring_size w \<Longrightarrow> Some b \<in> set (bags_at w i) \<Longrightarrow> j < ring_size w \<Longrightarrow> bag_grace B h w i b j"
  using assms unfolding grace_def by blast+

lemma bag_item:
  assumes "i < ring_size w" "Some b \<in> set (bags_at w i)" "p \<in> set (bags_list B b)"
  shows "p \<in># all_items B w"
proof -
  have "p \<in># opt_items B (Some b)" using assms(3) by (simp add: bags_list_def)
  then have "p \<in># thread_items B (bags_at w i)" using thread_items_member [OF assms(2), of B] by (rule mset_subset_eqD [rotated])
  moreover have "thread_items B (bags_at w i) \<subseteq># all_items B w"
    using all_items_with [OF assms(1), of B "(r_threads w ! i)\<lparr>rt_td := (rt_td (r_threads w ! i))\<lparr>td_bags := []\<rparr>\<rparr>"]
    by (simp add: mset_subset_eq_exists_conv) (metis add.commute)
  ultimately show ?thesis by (rule mset_subset_eqD [rotated])
qed

text \<open>Steps that leave the bags as they are, or take nodes out of sight.\<close>

lemma grace_quiet:
  assumes g: "grace B h w" and "ring_size w' = ring_size w" "set (r_pool w') \<subseteq> set (r_pool w)"
    and s: "\<And>j. r_sees w' j \<subseteq> r_sees w j \<union> L" "L \<inter> set (r_pool w') = {}" "\<And>i b. i < ring_size w \<Longrightarrow> Some b \<in> set (bags_at w' i) \<Longrightarrow> L \<inter> set (bags_list B b) = {}"
    and i: "\<And>j. r_sees w' j \<noteq> {} \<Longrightarrow> j < ring_size w \<and> pc_at w' j = Inside"
    and f: "\<And>i. i < ring_size w \<Longrightarrow> pc_at w' i = Finish_Start True \<Longrightarrow> pc_at w i = Finish_Start True"
    and b: "\<And>i b'. i < ring_size w \<Longrightarrow> Some b' \<in> set (bags_at w' i) \<Longrightarrow> bags_list B b' = [] \<or>
       (\<exists>b. Some b \<in> set (bags_at w i) \<and> free_bag b' = free_bag b \<and> last_bag b' = last_bag b \<and> (pc_at w' i = Finish_Start True \<longrightarrow> curr_bag b' = curr_bag b))"
  shows "grace B h w'"
  unfolding grace_def assms(2)
proof (intro conjI allI impI)
  fix j
  show "r_sees w' j \<noteq> {} \<Longrightarrow> j < ring_size w" "r_sees w' j \<noteq> {} \<Longrightarrow> pc_at w' j = Inside" using i by blast+
  show "set (r_pool w') \<inter> r_sees w' j = {}" using graceD(3) [OF g, of j] assms(3) s(1) [of j] s(2) by blast
next
  fix i b' j
  assume a: "i < ring_size w" "Some b' \<in> set (bags_at w' i)" "j < ring_size w"
  have L: "L \<inter> set (bags_list B b') = {}" using s(3) a(1,2) by blast
  consider "bags_list B b' = []" | c where "Some c \<in> set (bags_at w i)" "free_bag b' = free_bag c" "last_bag b' = last_bag c"
      "pc_at w' i = Finish_Start True \<longrightarrow> curr_bag b' = curr_bag c"
    using b [OF a(1,2)] by blast
  then show "bag_grace B h w' i b' j"
  proof cases
    case 1 then show ?thesis by (simp add: bag_grace_def bags_list_def)
  next
    case 2
    have c: "bag_grace B h w i c j" using graceD(4) [OF g a(1) 2(1) a(3)] .
    have "hidden B w x j \<Longrightarrow> set (bag_list B x) \<subseteq> set (bags_list B b') \<Longrightarrow> hidden B w' x j" for x using s(1) [of j] L by blast
    then show ?thesis using c f [OF a(1)] 2(2-4) assms(2) unfolding bag_grace_def bags_list_def by auto
  qed
qed

lemma pass_threads:
  assumes "i < ring_size w" "token_access B i Pass_Token w = Some w'" "k < ring_size w"
  shows "pc_at w' i = Finish_Start True" "bags_at w' k = bags_at w k" "k \<noteq> i \<Longrightarrow> pc_at w' k = pc_at w k"
proof -
  obtain j where j: "(i + 1) mod ring_size w = j" "j < ring_size w" by (rule next_station [OF assms(1)])
  have w': "w' = with_ring_thread j (let th = r_threads (with_ring_thread i ((r_threads w ! i)\<lparr>rt_pc := Finish_Start True\<rparr>) w) ! j
       in th\<lparr>rt_td := (rt_td th)\<lparr>td_token := 1\<rparr>\<rparr>) (with_ring_thread i ((r_threads w ! i)\<lparr>rt_pc := Finish_Start True\<rparr>) w)"
    using assms(2) j(1) by (simp add: Let_def)
  show "pc_at w' i = Finish_Start True" "bags_at w' k = bags_at w k" "k \<noteq> i \<Longrightarrow> pc_at w' k = pc_at w k"
    unfolding w' using assms(1,3) j(2) by (cases "k = j"; cases "i = j"; cases "k = i"; simp add: Let_def)+
qed

text \<open>The token goes on: the station it has left is in the middle of starting an operation, so that it sees nothing.\<close>

lemma grace_pass:
  assumes g: "grace B i w" and i: "i < ring_size w" "pc_at w i = Pass_Token"
    and w': "ring_size w' = ring_size w" "r_pool w' = r_pool w" "r_sees w' = r_sees w" "pc_at w' i = Finish_Start True"
      "\<And>k. k < ring_size w \<Longrightarrow> bags_at w' k = bags_at w k" "\<And>k. k < ring_size w \<Longrightarrow> k \<noteq> i \<Longrightarrow> pc_at w' k = pc_at w k"
  shows "grace B ((i + 1) mod ring_size w) w'"
  unfolding grace_def w'(1-3)
proof (intro conjI allI impI)
  have e: "r_sees w i = {}" using graceD(2) [OF g, of i] i(2) by force
  fix j
  show "r_sees w j \<noteq> {} \<Longrightarrow> j < ring_size w" "set (r_pool w) \<inter> r_sees w j = {}" using graceD [OF g] by blast+
  show "r_sees w j \<noteq> {} \<Longrightarrow> pc_at w' j = Inside" using graceD(1,2) [OF g] w'(6) [of j] e by (cases "j = i") auto
  fix k b
  assume a: "k < ring_size w" "Some b \<in> set (bags_at w' k)" "j < ring_size w"
  have c: "bag_grace B i w k b j" using graceD(4) [OF g a(1) _ a(3)] a(2) w'(5) [OF a(1)] by simp
  show "bag_grace B ((i + 1) mod ring_size w) w' k b j"
  proof (cases "j = i")
    case True then show ?thesis using e by (simp add: bag_grace_def w'(3))
  next
    case False
    show ?thesis
    proof (cases "k = i")
      case True
      have "\<not> around (ring_size w) ((i + 1) mod ring_size w) i j" using around_left [OF i(1) a(3)] False by blast
      moreover have "around (ring_size w) i i j" by (simp add: around_def)
      ultimately show ?thesis using c True i(2) unfolding bag_grace_def w'(1,3) by auto
    next
      case k: False
      have "around (ring_size w) ((i + 1) mod ring_size w) k j \<Longrightarrow> around (ring_size w) i k j"
        using around_next [OF i(1) a(1,3)] False by blast
      then show ?thesis using c unfolding bag_grace_def w'(1,3) w'(6) [OF a(1) k] by blast
    qed
  qed
qed

text \<open>The rotation and the drain: what leaves the bags was out of sight, and the thread now sees what is linked, which no bag
  holds.\<close>

lemma hidden_mset: "hidden B w b j \<Longrightarrow> items B b' \<subseteq># items B b \<Longrightarrow> hidden B w b' j"
  using set_mset_mono [of "items B b'" "items B b"] by auto

lemma grace_finish:
  assumes laws: "blockbag_laws B" and c: "conserved B w" and g: "grace B h w" and i: "i < ring_size w" "pc_at w i = Finish_Start r"
    and step: "ring_step B i Token_Access w = Some w'"
  shows "grace B h w'"
proof -
  obtain ps td where f: "finish_start B r (rt_td (r_threads w ! i)) = Some (ps, td)"
    and w': "w' = (with_ring_thread i ((r_threads w ! i)\<lparr>rt_td := td, rt_pc := Inside, rt_freed := rt_freed (r_threads w ! i) + length ps\<rparr>) w)
                 \<lparr>r_pool := r_pool w @ ps, r_sees := (r_sees w)(i := r_linked w)\<rparr>"
    using step i(2) by (auto simp: Let_def split: option.splits)
  note fs = finish_start_items(4,5) [OF laws f]
  have n: "ring_size w' = ring_size w" "pc_at w' i = Inside" "bags_at w' i = td_bags td" using i(1) by (simp_all add: w')
  have k: "r_threads w' ! k = r_threads w ! k" if "k \<noteq> i" for k using that by (simp add: w')
  have c': "conserved B w'" by (rule ring_step_conserved [OF laws i(1) c step])
  have own: "p \<notin> r_sees w' i" if "p \<in># all_items B w'" for p
    using conserved_item(2) [OF c' that] by (simp add: w')
  have other: "r_sees w' j = r_sees w j" if "j \<noteq> i" for j using that by (simp add: w')
  have gone: "hidden B w (free_bag b) j \<and> (r \<longrightarrow> hidden B w (last_bag b) j)" if "Some b \<in> set (bags_at w i)" for b j
    using graceD(1) [OF g, of j] graceD(4) [OF g i(1) that, of j] i(2) by (cases "r_sees w j = {}") (auto simp: bag_grace_def)
  show ?thesis
    unfolding grace_def n(1)
  proof (intro conjI allI impI)
    fix j
    show "r_sees w' j \<noteq> {} \<Longrightarrow> j < ring_size w" "r_sees w' j \<noteq> {} \<Longrightarrow> pc_at w' j = Inside"
      using graceD(1,2) [OF g] other [of j] k [of j] i(1) n(2) by (cases "j = i"; simp)+
    show "set (r_pool w') \<inter> r_sees w' j = {}"
    proof (cases "j = i")
      case True then show ?thesis using own pool_items [of _ w' B] by blast
    next
      case False
      have "p \<notin> r_sees w j" if p: "p \<in> set ps" for p
      proof -
        obtain b where "Some b \<in> set (bags_at w i)" "p \<in> set (bag_list B (free_bag b)) \<or> r \<and> p \<in> set (bag_list B (last_bag b))"
          using fs(2) [OF p] by (auto split: if_splits)
        then show ?thesis using gone [of b j] by blast
      qed
      then show ?thesis using graceD(3) [OF g, of j] other [OF False] by (auto simp: w')
    qed
  next
    fix m b' j
    assume a: "m < ring_size w" "Some b' \<in> set (bags_at w' m)" "j < ring_size w"
    show "bag_grace B h w' m b' j"
    proof (cases "j = i")
      case True
      have "p \<notin> r_sees w' i" if "p \<in> set (bags_list B b')" for p using own bag_item [of m w'] a(1,2) n(1) that by simp
      then show ?thesis unfolding True bag_grace_def bags_list_def by auto
    next
      case j: False
      show ?thesis
      proof (cases "m = i")
        case True
        then obtain b where b: "Some b \<in> set (bags_at w i)"
          "if r then last_bag b' = curr_bag b \<and> items B (free_bag b') \<subseteq># items B (free_bag b) + items B (last_bag b)
             else last_bag b' = last_bag b \<and> items B (free_bag b') \<subseteq># items B (free_bag b)"
          using fs(1) [of b'] a(2) n(3) by auto
        have bg: "bag_grace B h w i b j" using graceD(4) [OF g i(1) b(1) a(3)] .
        have "hidden B w (free_bag b') j"
        proof (cases r)
          case True
          then have "set (bag_list B (free_bag b')) \<subseteq> set (bag_list B (free_bag b)) \<union> set (bag_list B (last_bag b))"
            using b(2) set_mset_mono [of "items B (free_bag b')" "items B (free_bag b) + items B (last_bag b)"] by simp
          then show ?thesis using gone [OF b(1), of j] True by blast
        next
          case False then show ?thesis using b(2) hidden_mset [of B "free_bag b" w j] gone [OF b(1), of j] by simp
        qed
        moreover have "around (ring_size w) h i j \<Longrightarrow> hidden B w (last_bag b') j"
          using b(2) bg i(2) by (cases r) (auto simp: bag_grace_def)
        ultimately show ?thesis unfolding bag_grace_def True n(1,2) other [OF j] by simp
      next
        case False
        then show ?thesis
          using graceD(4) [OF g a(1) _ a(3), of b'] a(2) unfolding bag_grace_def n(1) other [OF j] k [OF False] by blast
      qed
    qed
  qed
qed

lemma ring_step_grace:
  assumes laws: "blockbag_laws B" and c: "conserved B w" and t: "token_at h w" and g: "grace B h w"
    and i: "i < ring_size w" "op \<noteq> Deinit_Thread" and step: "ring_step B i op w = Some w'"
  shows "grace B (token_next i op h w) w'"
proof -
  note n = ring_step_size [OF step]
  have inside: "r_sees w i = {}" if "pc_at w i \<noteq> Inside" using graceD(2) [OF g, of i] that by blast
  have quiet: "grace B h w'"
    if "r_pool w' = r_pool w" "r_sees w' = r_sees w" "bags_at w' i = bags_at w i" "\<And>j. j \<noteq> i \<Longrightarrow> r_threads w' ! j = r_threads w ! j"
      "pc_at w' i = pc_at w i \<or> pc_at w i \<noteq> Inside \<and> pc_at w' i \<noteq> Finish_Start True"
  proof (rule grace_quiet [OF g n, where L = "{}"])
    show "r_sees w' j \<noteq> {} \<Longrightarrow> j < ring_size w \<and> pc_at w' j = Inside" for j
      using graceD(1,2) [OF g, of j] inside that(2,4,5) by (cases "j = i") auto
    show "pc_at w' m = Finish_Start True \<Longrightarrow> pc_at w m = Finish_Start True" for m using that(4,5) by (cases "m = i") auto
    show "bags_list B b' = [] \<or> (\<exists>b. Some b \<in> set (bags_at w m) \<and> free_bag b' = free_bag b \<and> last_bag b' = last_bag b \<and>
        (pc_at w' m = Finish_Start True \<longrightarrow> curr_bag b' = curr_bag b))" if "Some b' \<in> set (bags_at w' m)" for m b'
      using that \<open>bags_at w' i = bags_at w i\<close> \<open>\<And>j. j \<noteq> i \<Longrightarrow> r_threads w' ! j = r_threads w ! j\<close> by (cases "m = i") auto
  qed (use that in auto)
  have at: "r_threads w' ! j = r_threads w ! j" if "j \<noteq> i" "op \<noteq> Token_Access" for j
    using step that by (cases op) (auto simp: Let_def split: option.splits if_splits prod.splits)
  show ?thesis
  proof (cases op)
    case (Start_Op ro)
    have s: "r_pool w' = r_pool w" "r_sees w' = r_sees w" "pc_at w' i = pc_at w i \<or> pc_at w i = Outside \<and> pc_at w' i = Read_Token"
      "bags_at w' i = bags_at w i"
      using step i(1) Start_Op by (auto simp: Let_def split: if_splits)
    have "grace B h w'" by (rule quiet [OF s(1,2,4)]) (use s(3) at Start_Op in auto)
    then show ?thesis by (simp add: token_next_def Start_Op)
  next
    case Token_Access
    show ?thesis
    proof (cases "pc_at w i")
      case Pass_Token
      have h: "h = i" using t i(1) Pass_Token by (auto simp: token_at_def)
      have a: "token_access B i Pass_Token w = Some w'" using step Token_Access Pass_Token by simp
      have "grace B ((i + 1) mod ring_size w) w'"
      proof (rule grace_pass [OF g [unfolded h] i(1) Pass_Token n])
        note ths = pass_threads [OF i(1) a]
        show "pc_at w' i = Finish_Start True" by (rule ths(1) [OF i(1)])
        show "bags_at w' k = bags_at w k" if "k < ring_size w" for k by (rule ths(2) [OF that])
        show "pc_at w' k = pc_at w k" if "k < ring_size w" "k \<noteq> i" for k by (rule ths(3) [OF that])
        show "r_pool w' = r_pool w" "r_sees w' = r_sees w" using a by (auto simp: Let_def)
      qed
      then show ?thesis by (simp add: token_next_def Token_Access Pass_Token)
    next
      case (Finish_Start r)
      then show ?thesis
        using grace_finish [OF laws c g i(1) Finish_Start] step Token_Access by (simp add: token_next_def)
    next
      case Read_Token
      then have "grace B h w'"
        by (intro quiet) (use step i(1) Token_Access Read_Token in \<open>auto simp: Let_def split: if_splits\<close>)
      then show ?thesis by (simp add: token_next_def Token_Access Read_Token)
    next
      case Clear_Token
      then have "grace B h w'"
        by (intro quiet) (use step i(1) Token_Access Clear_Token in \<open>auto simp: Let_def split: if_splits\<close>)
      then show ?thesis by (simp add: token_next_def Token_Access Clear_Token)
    qed (use g step Token_Access in \<open>auto simp: token_next_def\<close>)
  next
    case End_Op
    have s: "r_pool w' = r_pool w" "r_sees w' = (if pc_at w i = Inside then (r_sees w)(i := {}) else r_sees w)"
      "bags_at w' i = bags_at w i" "pc_at w' i = Outside \<or> pc_at w' i = pc_at w i" "pc_at w i \<noteq> Inside \<Longrightarrow> w' = w"
      using step i(1) End_Op by (auto simp: Let_def split: if_splits)
    have "grace B h w'"
    proof (cases "pc_at w i = Inside")
      case True
      have b: "bags_at w' j = bags_at w j" for j using s(3) at End_Op by (cases "j = i") auto
      have p: "pc_at w' j = (if j = i then Outside else pc_at w j)" for j using at [of j] End_Op s(4) True step i(1) by (auto simp: Let_def)
      show ?thesis
      proof (rule grace_quiet [OF g n, where L = "{}"])
        show "r_sees w' j \<noteq> {} \<Longrightarrow> j < ring_size w \<and> pc_at w' j = Inside" for j
          using graceD(1,2) [OF g, of j] s(2) p [of j] True by (cases "j = i") auto
      qed (use s(1,2) b p True in \<open>auto split: if_splits\<close>)
    qed (use s(5) g in simp)
    then show ?thesis by (simp add: token_next_def End_Op)
  next
    case (Link_Node p)
    have b: "r_threads w' = r_threads w" using step Link_Node by (auto split: if_splits)
    have "grace B h w'"
    proof (cases "pc_at w i = Inside \<and> (p \<in> r_born w \<longrightarrow> p \<in> set (r_pool w))")
      case True
      then have s: "r_pool w' = remove1 p (r_pool w)"
          "\<And>j. r_sees w' j = (if j < ring_size w \<and> pc_at w j = Inside then insert p (r_sees w j) else r_sees w j)" "r_linked w' = insert p (r_linked w)"
        using step Link_Node by auto
      have c': "conserved B w'" by (rule ring_step_conserved [OF laws i(1) c step])
      have p: "p \<notin># all_items B w'" using conserved_item(2) [OF c', of p] s(3) by blast
      show ?thesis
      proof (rule grace_quiet [OF g n, where L = "{p}"])
        show "{p} \<inter> set (r_pool w') = {}" using p pool_items by fastforce
        show "{p} \<inter> set (bags_list B b) = {}" if "i < ring_size w" "Some b \<in> set (bags_at w' i)" for i b
          using p bag_item [of i w' b p B] that n by auto
        show "r_sees w' j \<noteq> {} \<Longrightarrow> j < ring_size w \<and> pc_at w' j = Inside" for j
          using s(2) [of j] graceD(1,2) [OF g, of j] b by (auto split: if_splits)
      qed (use s b set_remove1_subset [of p "r_pool w"] in auto)
    qed (use step Link_Node g in auto)
    then show ?thesis by (simp add: token_next_def Link_Node)
  next
    case (Retire_Node k p)
    have "grace B h w'"
    proof (cases "pc_at w i = Inside \<and> p \<in> r_linked w \<and> k < length (bags_at w i)")
      case True
      then obtain b where b: "bags_at w i ! k = Some b" using step Retire_Node by (auto simp: Let_def split: option.splits)
      have s: "r_pool w' = r_pool w" "r_sees w' = r_sees w" "pc_at w' i = Inside"
        "bags_at w' i = (bags_at w i)[k := Some (b\<lparr>curr_bag := bag_add B p (curr_bag b)\<rparr>)]"
        using step Retire_Node True b i(1) by (auto simp: Let_def)
      show ?thesis
      proof (rule grace_quiet [OF g n, where L = "{}"])
        fix m b'
        assume m: "m < ring_size w" "Some b' \<in> set (bags_at w' m)"
        show "bags_list B b' = [] \<or> (\<exists>b. Some b \<in> set (bags_at w m) \<and> free_bag b' = free_bag b \<and> last_bag b' = last_bag b \<and>
            (pc_at w' m = Finish_Start True \<longrightarrow> curr_bag b' = curr_bag b))"
        proof (cases "m = i")
          case True
          have "Some b \<in> set (bags_at w i)" using b \<open>pc_at w i = Inside \<and> _\<close> by (metis nth_mem)
          then show ?thesis using m(2) s(3,4) True by (auto dest!: set_update_subset_insert [THEN subsetD])
        next
          case False then show ?thesis using at [OF False] m(2) Retire_Node by auto
        qed
      next
        have p: "pc_at w' j = pc_at w j" for j using at [of j] s(3) True Retire_Node by (cases "j = i") auto
        show "r_sees w' j \<noteq> {} \<Longrightarrow> j < ring_size w \<and> pc_at w' j = Inside" for j
          using graceD(1,2) [OF g, of j] s(2) p [of j] by simp
        show "pc_at w' m = Finish_Start True \<Longrightarrow> pc_at w m = Finish_Start True" for m using p [of m] by simp
      qed (use s(1,2) in auto)
    qed (use step Retire_Node g in \<open>auto simp: Let_def\<close>)
    then show ?thesis by (simp add: token_next_def Retire_Node)
  next
    case Init_Thread
    have s: "r_pool w' = r_pool w" "r_sees w' = r_sees w" "pc_at w' i = pc_at w i"
      "bags_at w' i = bags_at w i \<or> bags_at w' i = td_bags (init_thread B (rt_td (r_threads w ! i)))"
      using step i(1) Init_Thread by (auto simp: Let_def split: if_splits)
    have pc: "pc_at w' j = pc_at w j" for j using s(3) at Init_Thread by (cases "j = i") auto
    have e: "bag_list B (bag_new B) = []" using lawsD(1) [OF laws] by simp
    have "grace B h w'"
    proof (rule grace_quiet [OF g n, where L = "{}"])
      fix m b'
      assume m: "m < ring_size w" "Some b' \<in> set (bags_at w' m)"
      have "Some b' \<in> set (bags_at w m) \<or> bags_list B b' = []"
        using m(2) s(4) at [of m] Init_Thread e
        by (cases "m = i") (auto simp: init_thread_def bags_list_def split: option.splits)
      then show "bags_list B b' = [] \<or> (\<exists>b. Some b \<in> set (bags_at w m) \<and> free_bag b' = free_bag b \<and> last_bag b' = last_bag b \<and>
            (pc_at w' m = Finish_Start True \<longrightarrow> curr_bag b' = curr_bag b))" by blast
    qed (use s(1,2) pc graceD(1,2) [OF g] in auto)
    then show ?thesis by (simp add: token_next_def Init_Thread)
  qed (use i(2) in simp)
qed

section \<open>Bags in place\<close>

definition ready :: "('a, 'b) ring \<Rightarrow> bool" where
  "ready w \<longleftrightarrow> (\<forall>i < ring_size w. bags_at w i \<noteq> [] \<and> None \<notin> set (bags_at w i))"

lemma rotate_all_ready: "None \<notin> set bs \<Longrightarrow> \<exists>bs'. rotate_all_epoch_bags B bs = Some bs' \<and> None \<notin> set bs' \<and> length bs' = length bs"
proof (induction bs)
  case (Cons x bs)
  then show ?case by (cases x) auto
qed simp

lemma drain_this_ready:
  assumes "bs \<noteq> []" "None \<notin> set bs"
  shows "\<exists>ps bs'. drain_this B k bs = Some (ps, bs') \<and> bs' \<noteq> [] \<and> None \<notin> set bs'"
  using assms by (cases bs) (auto simp: drain_this_def split: option.splits prod.splits)

lemma finish_start_ready:
  assumes "td_bags td \<noteq> []" "None \<notin> set (td_bags td)"
  shows "\<exists>ps td'. finish_start B r td = Some (ps, td') \<and> td_bags td' \<noteq> [] \<and> None \<notin> set (td_bags td')"
proof -
  define td1 where "td1 = (if r then pacer_resample (td\<lparr>td_token_count := td_token_count td + 1\<rparr>) else td)"
  have td1: "td_bags td1 = td_bags td" by (simp add: td1_def pacer_resample_def Let_def)
  obtain bs where bs: "(if r then rotate_all_epoch_bags B (td_bags td) else Some (td_bags td)) = Some bs" "bs \<noteq> []" "None \<notin> set bs"
    using rotate_all_ready [OF assms(2), of B] assms by (cases r) fastforce+
  obtain td2 k where g: "drain_gate td1 = (td2, k)" by fastforce
  obtain ps bs' where d: "drain_this B k bs = Some (ps, bs')" "bs' \<noteq> []" "None \<notin> set bs'"
    using drain_this_ready [OF bs(2,3)] by blast
  have "finish_start B r td = Some (ps, td2\<lparr>td_bags := bs'\<rparr>)"
    unfolding finish_start_def Let_def td1_def [symmetric] td1 bs(1) g by (simp add: d(1))
  with d(2,3) show ?thesis by simp
qed

lemma ring_step_ready:
  assumes "ready w" "i < ring_size w" "op \<noteq> Deinit_Thread"
  shows "\<exists>w'. ring_step B i op w = Some w' \<and> ready w'"
proof -
  have i: "bags_at w i \<noteq> []" "None \<notin> set (bags_at w i)" using assms(1,2) by (auto simp: ready_def)
  have keep: "ready (with_ring_thread i th w)" if "td_bags (rt_td th) \<noteq> []" "None \<notin> set (td_bags (rt_td th))" for th
    using assms(1,2) that by (auto simp: ready_def with_ring_thread_def nth_list_update)
  have fields: "ready (w'\<lparr>r_pool := a\<rparr>) = ready w'" "ready (w'\<lparr>r_linked := l\<rparr>) = ready w'" "ready (w'\<lparr>r_born := l\<rparr>) = ready w'"
    "ready (w'\<lparr>r_sees := s\<rparr>) = ready w'" for a l s and w' :: "('a, 'b) ring"
    by (simp_all add: ready_def)
  show ?thesis
  proof (cases op)
    case Token_Access
    show ?thesis
    proof (cases "pc_at w i")
      case Pass_Token
      then obtain w' where w': "token_access B i Pass_Token w = Some w'" by (auto simp: Let_def)
      have "ring_step B i op w = Some w'" using w' Pass_Token Token_Access by simp
      moreover have "ready w'"
        using assms(1) pass_threads(2) [OF assms(2) w'] ring_step_size [of B i op w w'] calculation by (simp add: ready_def)
      ultimately show ?thesis by blast
    next
      case (Finish_Start r)
      then show ?thesis using finish_start_ready [OF i, of B r] Token_Access by (auto simp: Let_def fields intro!: keep)
    qed (use i assms(1) Token_Access in \<open>auto simp: Let_def intro!: keep\<close>)
  next
    case (Retire_Node k p)
    have "bags_at w i ! k \<noteq> None" if "k < length (bags_at w i)" using i(2) that by (metis nth_mem)
    then show ?thesis
      using assms(1) i Retire_Node
      by (auto simp: Let_def fields intro!: keep dest!: set_update_subset_insert [THEN subsetD] split: option.splits)
  qed (use i assms(1,3) in \<open>auto simp: Let_def fields init_thread_def intro!: keep split: option.splits\<close>)
qed

lemma ready_run: "ready w \<Longrightarrow> \<forall>(i, op) \<in> set as. i < ring_size w \<and> op \<noteq> Deinit_Thread \<Longrightarrow> \<exists>w'. ring_run B as w = Some w' \<and> ready w'"
proof (induction as arbitrary: w)
  case (Cons x as)
  obtain i op where x: "x = (i, op)" by fastforce
  obtain w1 where w1: "ring_step B i op w = Some w1" "ready w1" using ring_step_ready [OF Cons.prems(1), of i op B] Cons.prems(2) by (auto simp: x)
  show ?case using Cons.IH [OF w1(2)] Cons.prems(2) ring_step_size [OF w1(1)] w1(1) by (auto simp: x)
qed simp

definition all_init :: "nat \<Rightarrow> (nat \<times> 'a ring_op) list" where
  "all_init n = map (\<lambda>i. (i, Init_Thread)) [0..<n]"

lemma ring_run_append:
  "ring_run B (as @ bs) w = (case ring_run B as w of None \<Rightarrow> None | Some w' \<Rightarrow> ring_run B bs w')"
  by (induction B as w rule: ring_run.induct) (auto split: option.splits)

lemma all_init_run:
  "m \<le> n \<Longrightarrow> \<exists>w. ring_run B (all_init m) (ring_start n k) = Some w \<and> ring_size w = n \<and> r_pool w = [] \<and> r_linked w = {} \<and> r_born w = {} \<and>
     (\<forall>i < n. pc_at w i = Outside \<and> bags_at w i = (if i < m then replicate k (Some \<lparr>curr_bag = bag_new B, last_bag = bag_new B, free_bag = bag_new B\<rparr>) else replicate k None))"
proof (induction m)
  case (Suc m)
  then obtain w where w: "ring_run B (all_init m) (ring_start n k) = Some w" "ring_size w = n" "r_pool w = []" "r_linked w = {}" "r_born w = {}"
     "\<forall>i < n. pc_at w i = Outside \<and> bags_at w i = (if i < m then replicate k (Some \<lparr>curr_bag = bag_new B, last_bag = bag_new B, free_bag = bag_new B\<rparr>) else replicate k None)"
    by auto
  let ?w = "with_ring_thread m ((r_threads w ! m)\<lparr>rt_td := init_thread B (rt_td (r_threads w ! m))\<rparr>) w"
  have "ring_run B (all_init (Suc m)) (ring_start n k) = Some ?w"
    using w(1,2,6) Suc.prems by (simp add: all_init_def ring_run_append Let_def)
  then show ?case
    using w(2-6) Suc.prems by (intro exI [of _ ?w]) (auto simp: with_ring_thread_def nth_list_update init_thread_def)
qed (simp add: all_init_def ring_start_def thread_data_new_def)

lemma ready_start:
  assumes "0 < k"
  obtains w where "ring_run B (all_init n) (ring_start n k) = Some w" "ready w" "ring_size w = n" "r_linked w = {}" "r_born w = {}"
    "\<forall>i < n. pc_at w i = Outside" "\<forall>i < n. length (bags_at w i) = k"
proof -
  obtain w where w: "ring_run B (all_init n) (ring_start n k) = Some w \<and> ring_size w = n \<and> r_pool w = [] \<and> r_linked w = {} \<and> r_born w = {} \<and>
     (\<forall>i < n. pc_at w i = Outside \<and> bags_at w i = replicate k (Some \<lparr>curr_bag = bag_new B, last_bag = bag_new B, free_bag = bag_new B\<rparr>))"
    using all_init_run [of n n B k] by auto
  show thesis by (rule that [of w]) (use w assms in \<open>auto simp: ready_def\<close>)
qed

section \<open>Properties\<close>

definition ring_ok :: "('a, 'b) blockbag \<Rightarrow> nat \<Rightarrow> ('a, 'b) ring \<Rightarrow> bool" where
  "ring_ok B h w \<longleftrightarrow> conserved B w \<and> token_at h w"

definition ring_safe :: "('a, 'b) blockbag \<Rightarrow> nat \<Rightarrow> ('a, 'b) ring \<Rightarrow> bool" where
  "ring_safe B h w \<longleftrightarrow> ring_ok B h w \<and> grace B h w"

lemma ring_run_ok:
  assumes "blockbag_laws B" "0 < n" "\<forall>(i, op) \<in> set as. i < n" "ring_run B as (ring_start n k) = Some w"
  shows "(\<exists>h. ring_ok B h w) \<and> ring_size w = n"
proof -
  have s: "ring_size (ring_start n k :: ('a, 'b) ring) = n" by (simp add: ring_start_def)
  have "(\<exists>h. ring_ok B h w) \<and> ring_size w = ring_size (ring_start n k :: ('a, 'b) ring)"
    by (rule ring_run_induct [where Q = "\<lambda>_. True" and h = 0, OF assms(4)])
      (use assms(1-3) s in \<open>auto simp: ring_ok_def conserved_start token_at_start intro: ring_step_conserved ring_step_token\<close>)
  then show ?thesis by (simp add: s)
qed

lemma ring_run_safe:
  assumes "blockbag_laws B" "0 < n" "\<forall>(i, op) \<in> set as. i < n \<and> op \<noteq> Deinit_Thread" "ring_run B as (ring_start n k) = Some w"
  shows "\<exists>h. ring_safe B h w"
proof -
  have s: "ring_size (ring_start n k :: ('a, 'b) ring) = n" by (simp add: ring_start_def)
  have g: "grace B 0 (ring_start n k :: ('a, 'b) ring)" by (simp add: grace_def ring_start_def thread_data_new_def)
  have "(\<exists>h. ring_safe B h w) \<and> ring_size w = ring_size (ring_start n k :: ('a, 'b) ring)"
    by (rule ring_run_induct [where Q = "\<lambda>op. op \<noteq> Deinit_Thread" and h = 0, OF assms(4)])
      (use assms(1-3) s g in \<open>auto simp: ring_safe_def ring_ok_def conserved_start token_at_start intro: ring_step_conserved ring_step_token ring_step_grace\<close>)
  then show ?thesis by blast
qed

text \<open>C3: The grace period of the token ring. For any bags with the laws of setbench's, any number of threads and
  record types, and every interleaving of their accesses to the tokens, as long as no thread takes its bags down: a node
  that has been handed back, and not been allocated again, is not one that any thread can hold a reference of, that is one
  linked at some moment of the operation the thread is in.\<close>

theorem no_use_after_free:
  assumes "blockbag_laws B" "0 < n" "\<forall>(i, op) \<in> set as. i < n \<and> op \<noteq> Deinit_Thread" "ring_run B as (ring_start n k) = Some w"
  shows "set (r_pool w) \<inter> r_sees w j = {}"
  using ring_run_safe [OF assms] by (auto simp: ring_safe_def grace_def)

text \<open>C9: The ring goes round with one token: in every reachable state there is exactly one thread that has the token or is
  about to pass it on.\<close>

theorem one_token:
  assumes "blockbag_laws B" "0 < n" "\<forall>(i, op) \<in> set as. i < n" "ring_run B as (ring_start n k) = Some w"
  shows "\<exists>!h. h < n \<and> (td_token (rt_td (r_threads w ! h)) \<noteq> 0 \<or> rt_pc (r_threads w ! h) = Pass_Token)"
proof -
  obtain h where h: "token_at h w" "ring_size w = n" using ring_run_ok [OF assms] unfolding ring_ok_def by blast
  have t: "h < n" "\<And>j. j < n \<Longrightarrow> td_token (rt_td (r_threads w ! j)) = (if j = h \<and> pc_at w j \<noteq> Pass_Token then 1 else 0)"
    "\<And>j. j < n \<Longrightarrow> pc_at w j = Pass_Token \<Longrightarrow> j = h"
    using h(1) unfolding token_at_def h(2) by blast+
  show ?thesis
  proof (rule ex1I [of _ h])
    show "h < n \<and> (td_token (rt_td (r_threads w ! h)) \<noteq> 0 \<or> pc_at w h = Pass_Token)" using t(1) t(2) [OF t(1)] by simp
    show "j = h" if "j < n \<and> (td_token (rt_td (r_threads w ! j)) \<noteq> 0 \<or> pc_at w j = Pass_Token)" for j
    proof (rule ccontr)
      assume "j \<noteq> h"
      then have "td_token (rt_td (r_threads w ! j)) = 0" using t(2) that by simp
      then show False using that t(3) \<open>j \<noteq> h\<close> by blast
    qed
  qed
qed

text \<open>C10: Once the threads have their bags, no schedule uses a null pointer, and no node is lost or handed back twice: every
  node that was ever linked is still linked, or else exactly once in a bag or the pool.\<close>

theorem token_ring_runs:
  assumes "blockbag_laws B" "0 < n" "0 < k" "\<forall>(i, op) \<in> set as. i < n \<and> op \<noteq> Deinit_Thread"
  shows "\<exists>w. ring_run B (all_init n @ as) (ring_start n k) = Some w \<and> r_linked w \<subseteq> r_born w \<and>
    (\<forall>p. count (\<Sum>th \<leftarrow> r_threads w. thread_items B (td_bags (rt_td th))) p + count (mset (r_pool w)) p
       = (if p \<in> r_born w - r_linked w then 1 else 0))"
proof -
  obtain w0 where w0: "ring_run B (all_init n) (ring_start n k) = Some w0" "ready w0" "ring_size w0 = n" by (rule ready_start [OF assms(3)])
  obtain w where w: "ring_run B as w0 = Some w" using ready_run [OF w0(2)] assms(4) w0(3) by blast
  have run: "ring_run B (all_init n @ as) (ring_start n k) = Some w" by (simp add: ring_run_append w0(1) w)
  have "\<forall>(i, op) \<in> set (all_init n @ as). i < n" using assms(4) by (auto simp: all_init_def)
  from ring_run_ok [OF assms(1,2) this run] have "conserved B w" by (auto simp: ring_ok_def)
  then show ?thesis using run by (simp add: conserved_def all_items_def)
qed

end
