(* ===== verification/Token_Accounts.thy ===== *)
theory Token_Accounts
  imports Token_Safety
begin

text \<open>
  How much the setbench reclaimer hands back: never more nodes than the thread has started operations, so that a structure
  which retires more than one node per operation outruns it; nothing at all of any record type but
  the first. What a thread that takes its bags down hands back: also what the others can still see. With a bag of
  setbench's kind for which everything is computed.
\<close>

section \<open>A bag\<close>

text \<open>A list in blocks of two; the block that is not full stays where it is.\<close>

definition pair_bag :: "('a, 'a list) blockbag" where
  "pair_bag = \<lparr>bag_new = [], bag_add = (#), bag_remove = (\<lambda>b. (hd b, tl b)), bag_is_empty = (\<lambda>b. b = []), compute_size = length,
     append_move_full_blocks = (\<lambda>d s. (d @ drop (length s mod 2) s, take (length s mod 2) s)), bag_list = (\<lambda>b. b)\<rparr>"

lemma pair_bag_laws: "blockbag_laws pair_bag"
proof -
  have "mset (drop n s) + mset (take n s) = mset s" for n and s :: "'a list"
    by (metis add.commute append_take_drop_id mset_append)
  moreover have "b \<noteq> [] \<Longrightarrow> add_mset (hd b) (mset (tl b)) = mset b" for b :: "'a list" by (cases b) simp_all
  ultimately show ?thesis by (simp add: blockbag_laws_def pair_bag_def add.assoc)
qed

section \<open>Operations started and nodes handed back\<close>

lemma hold_count:
  fixes x :: s32
  assumes "unat x < 8"
  shows "unat (x + 1) = unat x + 1" "sint PACER_HOLD_LIMIT \<le> sint (x + 1) \<longleftrightarrow> unat x = 7" "nat (sint PACER_HOLD_LIMIT) = 8"
proof -
  obtain n where n: "x = of_nat n" "n < 8" by (rule that [of "unat x"]) (use assms in simp_all)
  then have "n \<in> {0, 1, 2, 3, 4, 5, 6, 7}" by auto
  then show "unat (x + 1) = unat x + 1" "sint PACER_HOLD_LIMIT \<le> sint (x + 1) \<longleftrightarrow> unat x = 7" "nat (sint PACER_HOLD_LIMIT) = 8"
    unfolding n(1) PACER_HOLD_LIMIT_def by auto
qed

lemma gate_count:
  assumes "unat (td_hold_ticks td) < 8" "drain_gate td = (td', k)"
  shows "unat (td_hold_ticks td') < 8" "k + unat (td_hold_ticks td') \<le> unat (td_hold_ticks td) + 1"
  using assms(2) hold_count [OF assms(1)] assms(1) by (auto simp: drain_gate_def Let_def split: if_splits)

lemma finish_start_count:
  assumes "blockbag_laws B" "unat (td_hold_ticks td) < 8" "finish_start B r td = Some (ps, td')"
  shows "unat (td_hold_ticks td') < 8" "length ps + unat (td_hold_ticks td') \<le> unat (td_hold_ticks td) + 1"
proof -
  define td1 where "td1 = (if r then pacer_resample (td\<lparr>td_token_count := td_token_count td + 1\<rparr>) else td)"
  have td1: "td_hold_ticks td1 = td_hold_ticks td" by (simp add: td1_def pacer_resample_def Let_def)
  obtain td2 k where g: "drain_gate td1 = (td2, k)" by fastforce
  obtain bs bs' where d: "drain_this B k bs = Some (ps, bs')" "td' = td2\<lparr>td_bags := bs'\<rparr>"
    using assms(3) unfolding finish_start_def Let_def td1_def [symmetric] g by (auto split: option.splits)
  have "length ps \<le> k" by (rule drain_this_items(2) [OF assms(1) d(1)])
  with gate_count [OF _ g] assms(2) td1 show "unat (td_hold_ticks td') < 8"
    "length ps + unat (td_hold_ticks td') \<le> unat (td_hold_ticks td) + 1" by (simp_all add: d(2))
qed

definition starting :: "start_pc \<Rightarrow> nat" where
  "starting pc = (if pc \<in> {Outside, Inside} then 0 else 1)"

definition thread_accounts :: "('a, 'b) blockbag \<Rightarrow> 'b ring_thread \<Rightarrow> bool" where
  "thread_accounts B th \<longleftrightarrow> unat (td_hold_ticks (rt_td th)) < 8 \<and>
     rt_retired th = rt_freed th + size (thread_items B (td_bags (rt_td th))) \<and>
     rt_freed th + unat (td_hold_ticks (rt_td th)) + starting (rt_pc th) \<le> rt_starts th"

lemma finish_accounts:
  assumes "blockbag_laws B" "thread_accounts B th" "rt_pc th = Finish_Start r" "finish_start B r (rt_td th) = Some (ps, td)"
  shows "thread_accounts B (th\<lparr>rt_td := td, rt_pc := Inside, rt_freed := rt_freed th + length ps\<rparr>)"
proof -
  have h: "unat (td_hold_ticks (rt_td th)) < 8" using assms(2) by (simp add: thread_accounts_def)
  note c = finish_start_count [OF assms(1) h assms(4)]
  have "size (thread_items B (td_bags (rt_td th))) = length ps + size (thread_items B (td_bags td))"
    using arg_cong [OF finish_start_items(1) [OF assms(1,4)], of size] by simp
  with c assms(2,3) show ?thesis by (simp add: thread_accounts_def starting_def)
qed

lemma ring_step_accounts:
  assumes "blockbag_laws B" "\<forall>th \<in> set (r_threads w). thread_accounts B th" "i < ring_size w" "op \<noteq> Deinit_Thread"
    and "ring_step B i op w = Some w'"
  shows "\<forall>th \<in> set (r_threads w'). thread_accounts B th"
proof -
  have i: "thread_accounts B (r_threads w ! i)" using assms(2,3) by simp
  have upd: "\<forall>th \<in> set (r_threads w''). thread_accounts B th"
    if "r_threads w'' = (r_threads w)[i := th]" "thread_accounts B th" for w'' :: "('a, 'b) ring" and th
    using assms(2) that set_update_subset_insert [of "r_threads w" i th] by auto
  have choice: "\<forall>th \<in> set (r_threads w'). thread_accounts B th"
    if a: "c \<Longrightarrow> thread_accounts B th" and e: "r_threads w' = (if c then (r_threads w)[i := th] else r_threads w)" for c th
  proof (cases c)
    case True show ?thesis by (rule upd [of w' th]) (simp_all add: e a True)
  next
    case False show ?thesis using assms(2) by (simp add: e False)
  qed
  show ?thesis
  proof (cases op)
    case (Start_Op ro)
    define th where "th = (r_threads w ! i)\<lparr>rt_pc := Read_Token, rt_starts := rt_starts (r_threads w ! i) + 1,
       rt_td := if ro then (rt_td (r_threads w ! i))\<lparr>td_win_snaps := td_win_snaps (rt_td (r_threads w ! i)) + 1\<rparr>
         else (rt_td (r_threads w ! i))\<lparr>td_win_writes := td_win_writes (rt_td (r_threads w ! i)) + 1\<rparr>\<rparr>"
    have "thread_accounts B th" if "pc_at w i = Outside"
      using i that by (simp add: th_def thread_accounts_def starting_def)
    moreover have "r_threads w' = (if pc_at w i = Outside then (r_threads w)[i := th] else r_threads w)"
      using assms(5) by (auto simp: Start_Op Let_def with_ring_thread_def th_def split: if_splits)
    ultimately show ?thesis by (rule choice)
  next
    case Token_Access
    show ?thesis
    proof (cases "pc_at w i")
      case Pass_Token
      obtain j where j: "(i + 1) mod ring_size w = j" "j < ring_size w" by (rule next_station [OF assms(3)])
      let ?ths = "(r_threads w)[i := (r_threads w ! i)\<lparr>rt_pc := Finish_Start True\<rparr>]"
      have w': "r_threads w' = ?ths[j := (?ths ! j)\<lparr>rt_td := (rt_td (?ths ! j))\<lparr>td_token := 1\<rparr>\<rparr>]"
        using assms(5) Token_Access Pass_Token j(1) by (auto simp: with_ring_thread_def Let_def)
      have "thread_accounts B ((r_threads w ! i)\<lparr>rt_pc := Finish_Start True\<rparr>)"
        using i Pass_Token by (simp add: thread_accounts_def starting_def)
      then have a: "\<forall>th \<in> set ?ths. thread_accounts B th"
        using assms(2) set_update_subset_insert [of "r_threads w" i "(r_threads w ! i)\<lparr>rt_pc := Finish_Start True\<rparr>"] by auto
      then have "thread_accounts B (?ths ! j)" using j(2) by simp
      then have "thread_accounts B ((?ths ! j)\<lparr>rt_td := (rt_td (?ths ! j))\<lparr>td_token := 1\<rparr>\<rparr>)" by (simp add: thread_accounts_def)
      then show ?thesis
        using a set_update_subset_insert [of ?ths j "(?ths ! j)\<lparr>rt_td := (rt_td (?ths ! j))\<lparr>td_token := 1\<rparr>\<rparr>"] unfolding w' by blast
    next
      case (Finish_Start r)
      then obtain ps td where f: "finish_start B r (rt_td (r_threads w ! i)) = Some (ps, td)"
        using assms(5) Token_Access by (auto simp: Let_def split: option.splits)
      show ?thesis
        by (rule upd [OF _ finish_accounts [OF assms(1) i Finish_Start f]])
          (use f assms(5) Token_Access Finish_Start in \<open>auto simp: Let_def with_ring_thread_def\<close>)
    next
      case Read_Token
      define th where "th = (r_threads w ! i)\<lparr>rt_pc := if td_token (rt_td (r_threads w ! i)) \<noteq> 0 then Clear_Token else Finish_Start False\<rparr>"
      show ?thesis
        by (rule upd [of w' th])
          (use assms(5) i Token_Access Read_Token in \<open>simp_all add: th_def with_ring_thread_def thread_accounts_def starting_def Let_def, force?\<close>)
    next
      case Clear_Token
      define th where "th = (r_threads w ! i)\<lparr>rt_td := (rt_td (r_threads w ! i))\<lparr>td_token := 0\<rparr>, rt_pc := Pass_Token\<rparr>"
      show ?thesis
        by (rule upd [of w' th])
          (use assms(5) i Token_Access Clear_Token in \<open>simp_all add: th_def with_ring_thread_def thread_accounts_def starting_def Let_def, force?\<close>)
    qed (use assms(2,5) Token_Access in auto)
  next
    case End_Op
    have "thread_accounts B ((r_threads w ! i)\<lparr>rt_pc := Outside\<rparr>)" if "pc_at w i = Inside"
      using i that by (simp add: thread_accounts_def starting_def)
    moreover have "r_threads w' = (if pc_at w i = Inside then (r_threads w)[i := (r_threads w ! i)\<lparr>rt_pc := Outside\<rparr>] else r_threads w)"
      using assms(5) by (auto simp: End_Op Let_def with_ring_thread_def split: if_splits)
    ultimately show ?thesis by (rule choice)
  next
    case (Retire_Node k p)
    show ?thesis
    proof (cases "pc_at w i = Inside \<and> p \<in> r_linked w \<and> k < length (bags_at w i)")
      case True
      then obtain b where b: "bags_at w i ! k = Some b" using assms(5) Retire_Node by (auto simp: Let_def split: option.splits)
      have "thread_items B ((bags_at w i)[k := Some (b\<lparr>curr_bag := bag_add B p (curr_bag b)\<rparr>)]) = add_mset p (thread_items B (bags_at w i))"
        using thread_items_update [of k "bags_at w i" B "Some (b\<lparr>curr_bag := bag_add B p (curr_bag b)\<rparr>)"] True b
        by (simp add: lawsD(2) [OF assms(1)])
      with i have "thread_accounts B ((r_threads w ! i)\<lparr>rt_td := (rt_td (r_threads w ! i))\<lparr>td_bags :=
          (bags_at w i)[k := Some (b\<lparr>curr_bag := bag_add B p (curr_bag b)\<rparr>)]\<rparr>, rt_retired := rt_retired (r_threads w ! i) + 1\<rparr>)"
        by (simp add: thread_accounts_def)
      then show ?thesis
        by (rule upd [rotated]) (use assms(5) Retire_Node True b in \<open>auto simp: Let_def with_ring_thread_def\<close>)
    qed (use assms(2,5) Retire_Node in \<open>auto simp: Let_def\<close>)
  next
    case Init_Thread
    have "thread_accounts B ((r_threads w ! i)\<lparr>rt_td := init_thread B (rt_td (r_threads w ! i))\<rparr>)" if "pc_at w i = Outside"
      using i thread_items_init [OF assms(1), of "rt_td (r_threads w ! i)"] by (simp add: thread_accounts_def init_thread_def)
    moreover have "r_threads w' = (if pc_at w i = Outside then (r_threads w)[i := (r_threads w ! i)\<lparr>rt_td := init_thread B (rt_td (r_threads w ! i))\<rparr>]
        else r_threads w)"
      using assms(5) by (auto simp: Init_Thread Let_def with_ring_thread_def split: if_splits)
    ultimately show ?thesis by (rule choice)
  qed (use assms in \<open>auto split: if_splits\<close>)
qed

lemma ring_run_accounts:
  assumes "blockbag_laws B" "\<forall>(i, op) \<in> set as. i < n \<and> op \<noteq> Deinit_Thread" "ring_run B as (ring_start n k) = Some w"
  shows "(\<forall>th \<in> set (r_threads w). thread_accounts B th) \<and> ring_size w = n"
proof -
  have s: "ring_size (ring_start n k :: ('a, 'b) ring) = n" by (simp add: ring_start_def)
  have "\<forall>th \<in> set (r_threads (ring_start n k :: ('a, 'b) ring)). thread_accounts B th"
    by (auto simp: ring_start_def thread_data_new_def thread_accounts_def starting_def)
  then have "(\<exists>h :: nat. \<forall>th \<in> set (r_threads w). thread_accounts B th) \<and> ring_size w = ring_size (ring_start n k :: ('a, 'b) ring)"
    by (intro ring_run_induct [where Q = "\<lambda>op. op \<noteq> Deinit_Thread" and I = "\<lambda>h w. \<forall>th \<in> set (r_threads w). thread_accounts B th", OF assms(3)])
      (use assms(1,2) s ring_step_accounts [OF assms(1)] in auto)
  then show ?thesis by (simp add: s)
qed

lemma ring_run_bags:
  assumes "blockbag_laws B" "\<forall>(i, op) \<in> set as. i < n" "ring_run B as (ring_start n k) = Some w"
  shows "\<forall>i < n. length (bags_at w i) = k"
proof -
  let ?I = "\<lambda>(h :: nat) w :: ('a, 'b) ring. \<forall>i < ring_size w. length (bags_at w i) = k"
  have s: "ring_size (ring_start n k :: ('a, 'b) ring) = n" "?I 0 (ring_start n k)" by (simp_all add: ring_start_def thread_data_new_def)
  have "(\<exists>h. ?I h w) \<and> ring_size w = ring_size (ring_start n k :: ('a, 'b) ring)"
  proof (rule ring_run_induct [where Q = "\<lambda>_. True" and h = 0 and I = ?I, OF assms(3) s(2)])
    fix i op and h :: nat and w w' :: "('a, 'b) ring"
    assume a: "\<forall>i < ring_size w. length (bags_at w i) = k" "i < ring_size w" "ring_step B i op w = Some w'"
    have l: "length (bags_at w' j) = length (bags_at w j)" if "j < ring_size w" for j
    proof (cases "op = Token_Access \<and> pc_at w i = Pass_Token")
      case True
      then show ?thesis using pass_threads(2) [OF a(2), of B w' j] a(3) that by simp
    next
      case False
      then show ?thesis using a(2,3) that
        by (cases op; cases "pc_at w i"; cases "j = i")
          (auto simp: Let_def init_thread_def deinit_thread_def finish_start_items(2) [OF assms(1)] split: option.splits if_splits prod.splits)
    qed
    show "\<forall>i < ring_size w'. length (bags_at w' i) = k" using l a(1) ring_step_size [OF a(3)] by simp
  qed (use assms(2) s(1) in auto)
  then show ?thesis by (simp add: s(1))
qed


section \<open>The other record types\<close>

lemma rotate_all_nth:
  "rotate_all_epoch_bags B bs = Some bs' \<Longrightarrow> r < length bs \<Longrightarrow> bs ! r = Some b \<Longrightarrow> bs' ! r = Some (rotate_epoch_bags B b)"
  by (induction B bs arbitrary: bs' r rule: rotate_all_epoch_bags.induct) (auto simp: nth_Cons' split: if_splits)

lemma finish_start_later:
  assumes "blockbag_laws B" "finish_start B rc td = Some (ps, td')" "0 < r" "r < length (td_bags td)" "td_bags td ! r = Some b"
  shows "\<exists>b'. td_bags td' ! r = Some b' \<and> items B (free_bag b) \<subseteq># items B (free_bag b')"
proof -
  define td1 where "td1 = (if rc then pacer_resample (td\<lparr>td_token_count := td_token_count td + 1\<rparr>) else td)"
  have td1: "td_bags td1 = td_bags td" by (simp add: td1_def pacer_resample_def Let_def)
  obtain td2 k where g: "drain_gate td1 = (td2, k)" by fastforce
  obtain bs bs' where bs: "(if rc then rotate_all_epoch_bags B (td_bags td) else Some (td_bags td)) = Some bs"
    and d: "drain_this B k bs = Some (ps, bs')" "td' = td2\<lparr>td_bags := bs'\<rparr>"
    using assms(2) unfolding finish_start_def Let_def td1_def [symmetric] td1 g by (auto split: option.splits)
  have "bs' ! r = bs ! r" using d(1) assms(3) by (auto simp: drain_this_def split: if_splits list.splits option.splits prod.splits)
  moreover have "\<exists>c. bs ! r = Some c \<and> items B (free_bag b) \<subseteq># items B (free_bag c)"
  proof (cases rc)
    case True
    obtain d' s' where m: "append_move_full_blocks B (free_bag b) (last_bag b) = (d', s')" by fastforce
    have "free_bag (rotate_epoch_bags B b) = d'" by (simp add: rotate_epoch_bags_def m Let_def)
    then show ?thesis using rotate_all_nth [of B "td_bags td" bs r b] bs True assms(4,5) lawsD(7) [OF assms(1) m] by simp
  qed (use bs assms(5) in simp)
  ultimately show ?thesis by (simp add: d(2))
qed

lemma ring_step_later:
  assumes "blockbag_laws B" "j < ring_size w" "op \<noteq> Deinit_Thread" "ring_step B j op w = Some w'"
    and "i < ring_size w" "0 < r" "r < length (bags_at w i)" "bags_at w i ! r = Some b"
  shows "\<exists>b'. bags_at w' i ! r = Some b' \<and> items B (free_bag b) \<subseteq># items B (free_bag b') \<and> length (bags_at w' i) = length (bags_at w i)"
proof (cases "op = Token_Access \<and> pc_at w j = Pass_Token")
  case True
  then show ?thesis using pass_threads(2) [OF assms(2), of B w' i] assms(4,5,8) by simp
next
  case False
  show ?thesis
  proof (cases "\<exists>rc. op = Token_Access \<and> pc_at w j = Finish_Start rc \<and> j = i")
    case True
    then obtain rc ps td where f: "finish_start B rc (rt_td (r_threads w ! i)) = Some (ps, td)" and t: "rt_td (r_threads w' ! i) = td"
      using assms(4,5) by (auto simp: Let_def split: option.splits)
    show ?thesis
      using finish_start_later [OF assms(1) f assms(6-8)] finish_start_items(2) [OF assms(1) f] t by auto
  next
    case other: False
    have "bags_at w' i = bags_at w i \<or> op = Init_Thread \<and> bags_at w' i = td_bags (init_thread B (rt_td (r_threads w ! i)))
        \<or> (\<exists>k c p. k < length (bags_at w i) \<and> bags_at w i ! k = Some c \<and> bags_at w' i = (bags_at w i)[k := Some (c\<lparr>curr_bag := bag_add B p (curr_bag c)\<rparr>)])"
      using assms(2-5) False other
      by (cases op; cases "pc_at w j"; cases "j = i") (auto simp: Let_def split: option.splits if_splits prod.splits, blast)
    then show ?thesis using assms(7,8) by (auto simp: init_thread_def nth_list_update)
  qed
qed

text \<open>C36: Nodes of every record type but the first pile up: once a node of such a type is in the bag of nodes to hand back, it
  stays there until the thread takes its bags down, whatever the threads do, since the rotation fills the bags of all types
  but the drain empties only that of the reclaimer it is called for.\<close>

theorem later_types_pile_up:
  assumes "blockbag_laws B" "\<forall>(j, op) \<in> set as. j < ring_size w \<and> op \<noteq> Deinit_Thread" "ring_run B as w = Some w'"
    and "i < ring_size w" "0 < r" "r < length (td_bags (rt_td (r_threads w ! i)))" "td_bags (rt_td (r_threads w ! i)) ! r = Some b"
  shows "\<exists>b'. td_bags (rt_td (r_threads w' ! i)) ! r = Some b' \<and> items B (free_bag b) \<subseteq># items B (free_bag b')"
  using assms(2-4,6,7)
proof (induction as arbitrary: w b)
  case (Cons x as)
  obtain j op where x: "x = (j, op)" by fastforce
  obtain w1 where w1: "ring_step B j op w = Some w1" "ring_run B as w1 = Some w'"
    using Cons.prems(2) by (auto simp: x split: option.splits)
  have j: "j < ring_size w" "op \<noteq> Deinit_Thread" using Cons.prems(1) by (auto simp: x)
  obtain b1 where b1: "bags_at w1 i ! r = Some b1" "items B (free_bag b) \<subseteq># items B (free_bag b1)" "length (bags_at w1 i) = length (bags_at w i)"
    using ring_step_later [OF assms(1) j w1(1) Cons.prems(3) assms(5) Cons.prems(4,5)] by blast
  have n: "ring_size w1 = ring_size w" by (rule ring_step_size [OF w1(1)])
  obtain b' where "bags_at w' i ! r = Some b'" "items B (free_bag b1) \<subseteq># items B (free_bag b')"
    using Cons.IH [OF _ w1(2) _ _ b1(1)] Cons.prems(1,3,4) n b1(3) by auto
  with b1(2) show ?case by (meson subset_mset.order_trans)
qed auto

section \<open>Starting an operation\<close>

fun to_go :: "start_pc \<Rightarrow> nat" where
  "to_go Read_Token = 4"
| "to_go Clear_Token = 3"
| "to_go Pass_Token = 2"
| "to_go (Finish_Start r) = 1"
| "to_go _ = 0"

lemma to_go_pos: "0 < to_go pc \<longleftrightarrow> pc \<notin> {Outside, Inside}"
  by (cases pc) auto

lemma access_to_go:
  assumes "i < ring_size w" "0 < to_go (pc_at w i)" "ring_step B i Token_Access w = Some w'"
  shows "pc_at w' i \<noteq> Outside \<and> to_go (pc_at w' i) < to_go (pc_at w i)"
    "\<And>j. j < ring_size w \<Longrightarrow> j \<noteq> i \<Longrightarrow> pc_at w' j = pc_at w j" "r_linked w' = r_linked w" "r_born w' = r_born w"
proof -
  show "pc_at w' i \<noteq> Outside \<and> to_go (pc_at w' i) < to_go (pc_at w i)"
  proof (cases "pc_at w i = Pass_Token")
    case True
    then show ?thesis using pass_threads(1) [OF assms(1), of B w' i] assms(1,3) by simp
  qed (use assms in \<open>cases "pc_at w i"; auto simp: Let_def split: option.splits if_splits\<close>)
  show "pc_at w' j = pc_at w j" if "j < ring_size w" "j \<noteq> i" for j
  proof (cases "pc_at w i = Pass_Token")
    case True
    then show ?thesis using pass_threads(3) [OF assms(1), of B w' j] assms(3) that by simp
  qed (use assms that in \<open>cases "pc_at w i"; auto simp: Let_def split: option.splits\<close>)
  show "r_linked w' = r_linked w" "r_born w' = r_born w"
    using assms(2,3) by (cases "pc_at w i"; auto simp: Let_def split: option.splits)+
qed

lemma waiting_step:
  assumes "i < ring_size w" "j < ring_size w" "0 < to_go (pc_at w i)" "ring_step B j op w = Some w'" "\<not> (j = i \<and> op = Token_Access)"
  shows "pc_at w' i = pc_at w i"
proof (cases "op = Token_Access \<and> pc_at w j = Pass_Token")
  case True
  then show ?thesis using pass_threads(3) [OF assms(2), of B w' i] assms(1,4,5) by auto
next
  case False
  then show ?thesis
    using assms unfolding to_go_pos
    by (cases op; cases "pc_at w j"; cases "j = i") (auto simp: Let_def split: option.splits if_splits prod.splits)
qed

text \<open>C15: \<open>startOp\<close> never waits: whatever the other threads do, a thread that has called it is inside its operation
  by the time it has made four accesses to the tokens.\<close>

theorem start_op_is_wait_free:
  assumes "\<forall>(j, op) \<in> set as. j < ring_size w" "i < ring_size w" "rt_pc (r_threads w ! i) \<noteq> Outside"
    and "ring_run B as w = Some w'" "4 \<le> count_list as (i, Token_Access)"
  shows "\<exists>as1 as2 w1. as = as1 @ as2 \<and> ring_run B as1 w = Some w1 \<and> rt_pc (r_threads w1 ! i) = Inside"
proof -
  have "to_go (pc_at w i) \<le> count_list as (i, Token_Access)" using assms(5) by (cases "pc_at w i") auto
  then show ?thesis using assms(1-4)
  proof (induction as arbitrary: w)
    case (Cons x as)
    obtain j op where x: "x = (j, op)" by fastforce
    obtain w1 where w1: "ring_step B j op w = Some w1" "ring_run B as w1 = Some w'"
      using Cons.prems(5) by (auto simp: x split: option.splits)
    have n: "ring_size w1 = ring_size w" by (rule ring_step_size [OF w1(1)])
    show ?case
    proof (cases "pc_at w i = Inside")
      case True then show ?thesis by (intro exI [of _ "[]"] exI [of _ "x # as"] exI [of _ w]) simp
    next
      case False
      then have pos: "0 < to_go (pc_at w i)" using Cons.prems(4) by (simp add: to_go_pos)
      have "to_go (pc_at w1 i) \<le> count_list as (i, Token_Access) \<and> pc_at w1 i \<noteq> Outside"
      proof (cases "j = i \<and> op = Token_Access")
        case True
        then show ?thesis using access_to_go(1) [OF Cons.prems(3) pos, of B w1] w1(1) Cons.prems(1) by (simp add: x)
      next
        case False
        then have "pc_at w1 i = pc_at w i" using waiting_step [OF Cons.prems(3) _ pos w1(1)] Cons.prems(2) by (auto simp: x)
        then show ?thesis using False Cons.prems(1,4) by (auto simp: x)
      qed
      then obtain as1 as2 w2 where "as = as1 @ as2" "ring_run B as1 w1 = Some w2" "pc_at w2 i = Inside"
        using Cons.IH [of w1] Cons.prems(2,3) n w1(2) by auto
      then show ?thesis by (intro exI [of _ "x # as1"] exI [of _ as2] exI [of _ w2]) (simp add: x w1(1))
    qed
  next
    case Nil
    then have "pc_at w i = Inside" using to_go_pos [of "pc_at w i"] by simp
    then show ?case by simp
  qed
qed

definition start_op :: "nat \<Rightarrow> (nat \<times> 'a ring_op) list" where
  "start_op i = (i, Start_Op False) # replicate 4 (i, Token_Access)"

lemma accesses_finish:
  assumes "ready w" "i < ring_size w" "pc_at w i \<noteq> Outside" "to_go (pc_at w i) \<le> m"
  shows "\<exists>w'. ring_run B (replicate m (i, Token_Access)) w = Some w' \<and> ready w' \<and> ring_size w' = ring_size w \<and> pc_at w' i = Inside \<and>
    (\<forall>j < ring_size w. j \<noteq> i \<longrightarrow> pc_at w' j = pc_at w j) \<and> r_linked w' = r_linked w \<and> r_born w' = r_born w"
  using assms
proof (induction m arbitrary: w)
  case 0
  then show ?case using to_go_pos [of "pc_at w i"] by simp
next
  case (Suc m)
  obtain w1 where w1: "ring_step B i Token_Access w = Some w1" "ready w1" using ring_step_ready [OF Suc.prems(1,2)] by blast
  have n: "ring_size w1 = ring_size w" by (rule ring_step_size [OF w1(1)])
  show ?case
  proof (cases "to_go (pc_at w i) = 0")
    case True
    then have "pc_at w i = Inside" using Suc.prems(3) to_go_pos [of "pc_at w i"] by simp
    then have "w1 = w" using w1(1) by simp
    then show ?thesis using Suc.IH [of w] Suc.prems True w1(1) by auto
  next
    case False
    note a = access_to_go [OF Suc.prems(2) _ w1(1)]
    then show ?thesis using Suc.IH [OF w1(2)] Suc.prems n w1(1) False by auto
  qed
qed

lemma start_op_run:
  assumes "ready w" "i < ring_size w" "pc_at w i = Outside"
  obtains w' where "ring_run B (start_op i) w = Some w'" "ready w'" "ring_size w' = ring_size w" "pc_at w' i = Inside"
    "\<And>j. j < ring_size w \<Longrightarrow> j \<noteq> i \<Longrightarrow> pc_at w' j = pc_at w j" "r_linked w' = r_linked w" "r_born w' = r_born w"
proof -
  obtain w1 where w1: "ring_step B i (Start_Op False) w = Some w1" "ready w1" using ring_step_ready [OF assms(1,2)] by blast
  have p: "pc_at w1 i = Read_Token" "\<And>j. j \<noteq> i \<Longrightarrow> pc_at w1 j = pc_at w j" "r_linked w1 = r_linked w" "r_born w1 = r_born w"
    using w1(1) assms(2,3) by (auto simp: Let_def)
  have n: "ring_size w1 = ring_size w" by (rule ring_step_size [OF w1(1)])
  obtain w' where "ring_run B (replicate 4 (i, Token_Access)) w1 = Some w' \<and> ready w' \<and> ring_size w' = ring_size w1 \<and> pc_at w' i = Inside \<and>
    (\<forall>j < ring_size w1. j \<noteq> i \<longrightarrow> pc_at w' j = pc_at w1 j) \<and> r_linked w' = r_linked w1 \<and> r_born w' = r_born w1"
    using accesses_finish [OF w1(2), of i 4 B] assms(2) p(1) n by auto
  moreover have "ring_run B (start_op i) w = Some w'"
    using w1(1) calculation by (simp add: start_op_def del: ring_step.simps)
  ultimately show thesis by (intro that [of w']) (simp_all add: p n)
qed

section \<open>Taking bags down\<close>

text \<open>Two threads in an operation, a node that both can see, retired by the first, which then ends its operation.\<close>

definition retire_and_leave :: "'a \<Rightarrow> (nat \<times> 'a ring_op) list" where
  "retire_and_leave p = all_init 2 @ start_op 0 @ start_op 1 @ [(0, Link_Node p), (0, Retire_Node 0 p), (0, End_Op)]"

lemma retire_and_leave_run:
  assumes "blockbag_laws B"
  obtains w b where "ring_run B (retire_and_leave p) (ring_start 2 1) = Some w" "ring_size w = 2" "pc_at w 0 = Outside"
    "bags_at w 0 = [Some b]" "p \<in># items B (curr_bag b)" "p \<in> r_sees w 1"
proof -
  obtain w0 where w0: "ring_run B (all_init 2) (ring_start 2 1) = Some w0" "ready w0" "ring_size w0 = 2" "r_linked w0 = {}" "r_born w0 = {}"
    "\<forall>i < 2. pc_at w0 i = Outside" "\<forall>i < 2. length (bags_at w0 i) = 1" by (rule ready_start [where k = 1 and n = 2 and B = B]) simp
  obtain w1 where w1: "ring_run B (start_op 0) w0 = Some w1" "ready w1" "ring_size w1 = ring_size w0" "pc_at w1 0 = Inside"
    "\<And>j. j < ring_size w0 \<Longrightarrow> j \<noteq> 0 \<Longrightarrow> pc_at w1 j = pc_at w0 j" "r_linked w1 = r_linked w0" "r_born w1 = r_born w0"
    by (rule start_op_run [where B = B, OF w0(2), of 0]) (use w0(3,6) in auto)
  obtain w2 where w2: "ring_run B (start_op 1) w1 = Some w2" "ready w2" "ring_size w2 = ring_size w1" "pc_at w2 1 = Inside"
    "\<And>j. j < ring_size w1 \<Longrightarrow> j \<noteq> 1 \<Longrightarrow> pc_at w2 j = pc_at w1 j" "r_linked w2 = r_linked w1" "r_born w2 = r_born w1"
    by (rule start_op_run [where B = B, OF w1(2), of 1]) (use w0(3,6) w1(3,5) in auto)
  have run: "ring_run B (all_init 2 @ start_op 0 @ start_op 1) (ring_start 2 1) = Some w2"
    by (simp only: ring_run_append w0(1) w1(1) w2(1) option.case)
  have n: "ring_size w2 = 2" "pc_at w2 0 = Inside" "r_born w2 = {}" using w0(3,5) w1 w2 by simp_all
  have "length (bags_at w2 0) = 1"
    using ring_run_bags [OF assms _ run] by (auto simp: all_init_def start_op_def)
  then obtain x where x: "bags_at w2 0 = [x]" by (auto simp: length_Suc_conv)
  have "None \<notin> set (bags_at w2 0)" using w2(2) n(1) by (simp add: ready_def)
  then obtain b where b: "bags_at w2 0 = [Some b]" using x by (cases x) auto
  let ?w3 = "w2\<lparr>r_pool := remove1 p (r_pool w2), r_linked := insert p (r_linked w2), r_born := insert p (r_born w2),
     r_sees := (\<lambda>j. if j < ring_size w2 \<and> pc_at w2 j = Inside then insert p (r_sees w2 j) else r_sees w2 j)\<rparr>"
  obtain w where w: "ring_run B [(0, Link_Node p), (0, Retire_Node 0 p), (0, End_Op)] w2 = Some w" "ring_size w = 2" "pc_at w 0 = Outside"
    "bags_at w 0 = [Some (b\<lparr>curr_bag := bag_add B p (curr_bag b)\<rparr>)]" "p \<in> r_sees w 1"
    using n b w2(4) by (auto simp: Let_def with_ring_thread_def)
  show thesis
  proof (rule that [of w "b\<lparr>curr_bag := bag_add B p (curr_bag b)\<rparr>"])
    have "ring_run B ((all_init 2 @ start_op 0 @ start_op 1) @ [(0, Link_Node p), (0, Retire_Node 0 p), (0, End_Op)]) (ring_start 2 1) = Some w"
      unfolding ring_run_append [of B "all_init 2 @ start_op 0 @ start_op 1"] run by (simp only: option.case w(1))
    then show "ring_run B (retire_and_leave p) (ring_start 2 1) = Some w" by (simp only: retire_and_leave_def append_assoc)
  qed (use w in \<open>simp_all add: lawsD(2) [OF assms]\<close>)
qed

text \<open>C37: Taking the bags down is not covered by the grace period: \<open>deinitThread\<close> hands back all three bags at once, the
  current one included. A thread that leaves right after it has retired a node hands it back while another thread, inside an
  operation begun before, can still hold it.\<close>

theorem early_deinit_frees_seen_node:
  assumes "blockbag_laws B"
  shows "\<exists>w. ring_run B (retire_and_leave p @ [(0, Deinit_Thread)]) (ring_start 2 1) = Some w \<and> p \<in> set (r_pool w) \<and> p \<in> r_sees w 1"
proof -
  obtain w b where w: "ring_run B (retire_and_leave p) (ring_start 2 1) = Some w" "ring_size w = 2" "pc_at w 0 = Outside"
    "bags_at w 0 = [Some b]" "p \<in># items B (curr_bag b)" "p \<in> r_sees w 1" by (rule retire_and_leave_run [OF assms])
  have "\<exists>w'. ring_step B 0 Deinit_Thread w = Some w' \<and> p \<in> set (r_pool w') \<and> p \<in> r_sees w' 1"
    using w(3-6) by (simp add: Let_def deinit_thread_def bags_list_def)
  then show ?thesis unfolding ring_run_append w(1) by (auto simp del: ring_step.simps)
qed

theorem early_deinit_frees_seen_node_witness:
  "\<exists>w. ring_run pair_bag (retire_and_leave 7 @ [(0, Deinit_Thread)]) (ring_start 2 1) = Some w \<and> (7 :: nat) \<in> set (r_pool w) \<and> 7 \<in> r_sees w 1"
  by (rule early_deinit_frees_seen_node [OF pair_bag_laws])

end
