(* ===== verification/Token_Policy.thy ===== *)
theory Token_Policy
  imports Token_Accounts Sampling
begin

text \<open>
  The setbench reclaimer and the library decide alike: the same smoothed index from the same counts, the same modes
  from the same index. What the modes mean differs. With it, instances of the properties of the ring, on a run in which nodes are handed back.
\<close>

section \<open>The same policy\<close>

fun rust_mode :: "pacer_gc_mode \<Rightarrow> gc_mode" where
  "rust_mode Pacer_Aggressive_Ebr = AggressiveEbr"
| "rust_mode Pacer_Amortised_Free = AmortisedFree"
| "rust_mode Pacer_Conservative_Hold = ConservativeHold"

lemma same_constants:
  "PACER_SPI_WRITE_HEAVY = SPI_WRITE_HEAVY" "PACER_SPI_SNAP_HEAVY = SPI_SNAP_HEAVY" "PACER_EMA_ALPHA = SPI_EMA_ALPHA"
  "PACER_HYSTERESIS = HYSTERESIS"
  by (simp_all add: PACER_SPI_WRITE_HEAVY_def SPI_WRITE_HEAVY_def PACER_SPI_SNAP_HEAVY_def SPI_SNAP_HEAVY_def
      PACER_EMA_ALPHA_def SPI_EMA_ALPHA_def PACER_HYSTERESIS_def HYSTERESIS_def)

lemma same_selection:
  "rust_mode (pacer_select_mode spi) = select_gc_mode spi"
  "rust_mode (pacer_select_mode_hyst spi m) = select_gc_mode_with_hysteresis spi (rust_mode m)"
  by (simp add: pacer_select_mode_def select_gc_mode_def same_constants)
    (cases m; simp add: same_constants select_gc_mode_with_hysteresis.simps)

lemma sint_small:
  fixes x :: s64
  assumes "unat x < 2 ^ 63"
  shows "sint x = int (unat x)"
proof -
  have u: "uint x = int (unat x)" by simp
  have "uint x < 2 ^ 63" unfolding u using assms by (metis of_nat_less_iff of_nat_numeral of_nat_power)
  then have "signed_take_bit 63 (uint x) = uint x" by (intro signed_take_bit_int_eq_self) (simp_all add: order.trans [of _ 0])
  then have "sint x = uint x" by (simp add: sint_uint)
  then show ?thesis using u by (rule trans)
qed

lemma f64_of_s64_small: "unat x < 2 ^ 63 \<Longrightarrow> f64_of_s64 x = f64_of_u64 x"
  by (simp add: f64_of_s64_def f64_of_u64_def rat_of_u64_def sint_small)

text \<open>C14: One policy in two languages: from the same counts, index and mode the setbench reclaimer and the library compute the same
  smoothed index, bit for bit, and select the same mode, as long as the counts fit a signed number.\<close>

theorem same_policy_as_library:
  assumes "td_win_writes td = win_writes t" "td_win_snaps td = win_snaps t" "td_spi_ema td = spi_ema t"
    and "gc_mode t = rust_mode (td_gc_mode td)" "unat (win_writes t) + unat (win_snaps t) < 2 ^ 63 - 1"
  shows "td_spi_ema (pacer_resample td) = spi_ema (snd (resample_spi sys t)) \<and>
    rust_mode (pacer_select_mode_hyst (td_spi_ema (pacer_resample td)) (td_gc_mode td))
      = select_gc_mode_with_hysteresis (spi_ema (snd (resample_spi sys t))) (gc_mode t)"
proof -
  let ?total = "win_writes t + win_snaps t"
  have u: "unat ?total = unat (win_writes t) + unat (win_snaps t)" using assms(5) by (intro unat_add_lem [THEN iffD1]) simp
  have u1: "unat (?total + 1) = unat ?total + 1" using unat_add_lem [of ?total 1] assms(5) u by simp
  have s: "sint ?total = int (unat ?total)" using assms(5) u by (intro sint_small) simp
  have pos: "0 < sint ?total \<longleftrightarrow> ?total \<noteq> 0" unfolding s by (simp only: of_nat_0_less_iff unat_gt_0)
  have "f64_of_s64 (win_snaps t) = f64_of_u64 (win_snaps t)" "f64_of_s64 (?total + 1) = f64_of_u64 (?total + 1)"
    using assms(5) u u1 by (auto intro!: f64_of_s64_small)
  then have "td_spi_ema (pacer_resample td) = spi_ema (snd (resample_spi sys t))"
    using pos by (simp add: pacer_resample_def resample_spi_def Let_def assms(1-3) same_constants)
  then show ?thesis by (simp add: same_selection(2) assms(4))
qed

text \<open>Only holding differs: in the other two modes an operation hands back at most one node.\<close>

lemma modes_of_the_ring:
  assumes "drain_gate td = (td', k)"
  shows "td_gc_mode td' = pacer_select_mode_hyst (td_spi_ema td) (td_gc_mode td)" "td_gc_mode td' \<noteq> Pacer_Conservative_Hold \<Longrightarrow> k = 1"
  using assms by (auto simp: drain_gate_def Let_def split: if_splits)

section \<open>A run\<close>

text \<open>Two threads that only write: the index stays zero, and each operation that has received the token rotates the bags and hands
  back a node if there is one.\<close>

definition only_writes :: "'b thread_data \<Rightarrow> bool" where
  "only_writes td \<longleftrightarrow> td_win_writes td = 1 \<and> td_win_snaps td = 0 \<and> td_spi_ema td = Fin 0 \<and> td_gc_mode td = Pacer_Aggressive_Ebr"

lemma only_writes_resample:
  assumes "only_writes td"
  shows "pacer_resample td = td\<lparr>td_win_writes := 0\<rparr>"
proof -
  have "f64_of_s64 (1 + 0 + 1) = f64_of_rat 2" by (simp add: f64_of_s64_def)
  moreover have "f64_of_rat 2 = Fin 2" using on_grid_numeral [of "Num.Bit0 Num.One"] overflow_bound_gt by (intro f64_of_rat_grid) auto
  moreover have "Fin 0 * (1 - PACER_EMA_ALPHA) + Fin 0 * PACER_EMA_ALPHA = Fin 0"
    unfolding same_constants keep_alpha_value unfolding ema_alpha_value by simp
  moreover have "f64_of_s64 0 = Fin 0" by (simp add: f64_of_s64_def)
  ultimately show ?thesis using assms by (cases td) (simp add: pacer_resample_def only_writes_def Let_def)
qed

lemma only_writes_mode: "pacer_select_mode_hyst (Fin 0) Pacer_Aggressive_Ebr = Pacer_Aggressive_Ebr"
proof -
  have "0 < low_out" "0 < high_out" by (simp_all add: low_out_def high_out_def)
  then show ?thesis by (simp add: same_constants band_edges)
qed

lemma only_writes_finish:
  assumes "only_writes td" "td_bags td = [Some b]"
  shows "finish_start B True td = (let (ps, f) = drain_freeables B 1 (free_bag (rotate_epoch_bags B b)) in
     Some (ps, td\<lparr>td_token_count := td_token_count td + 1, td_win_writes := 0, td_hold_ticks := 0,
        td_bags := [Some ((rotate_epoch_bags B b)\<lparr>free_bag := f\<rparr>)]\<rparr>))"
proof -
  have "only_writes (td\<lparr>td_token_count := td_token_count td + 1\<rparr>)" using assms(1) by (simp add: only_writes_def)
  note r = only_writes_resample [OF this]
  show ?thesis
    using assms unfolding finish_start_def r
    by (simp add: drain_gate_def drain_this_def only_writes_mode only_writes_def Let_def
        del: pacer_select_mode_hyst.simps split: prod.splits)
qed

definition round_op :: "nat \<Rightarrow> (nat \<times> 'a ring_op) list" where
  "round_op i = start_op i @ [(i, End_Op)]"

definition two_retired :: "(nat \<times> nat ring_op) list" where
  "two_retired = start_op 0 @ [(0, Link_Node 7), (0, Link_Node 8), (0, Retire_Node 0 7), (0, Retire_Node 0 8), (0, End_Op)] @
     round_op 1 @ round_op 0 @ round_op 1 @ round_op 0"

lemma two_retired_pool: "\<exists>w. ring_run pair_bag (all_init 2 @ two_retired) (ring_start 2 1) = Some w \<and> r_pool w = [8]"
proof -
  have two: "[0..<2] = [0, 1]" by (simp add: upt_rec)
  show ?thesis
    by (simp add: two_retired_def round_op_def start_op_def all_init_def two ring_start_def thread_data_new_def init_thread_def
        with_ring_thread_def Let_def only_writes_finish only_writes_def rotate_epoch_bags_def pair_bag_def numeral_eq_Suc)
qed

section \<open>Instances\<close>

lemma two_retired_threads: "\<forall>(i, op) \<in> set (all_init 2 @ two_retired). i < 2 \<and> op \<noteq> Deinit_Thread"
  by (auto simp: two_retired_def round_op_def start_op_def all_init_def)

theorem no_use_after_free_witness:
  "\<exists>w. ring_run pair_bag (all_init 2 @ two_retired) (ring_start 2 1) = Some w \<and> r_pool w = [8] \<and> 8 \<notin> r_sees w 1"
proof -
  obtain w where w: "ring_run pair_bag (all_init 2 @ two_retired) (ring_start 2 1) = Some w" "r_pool w = [8]"
    using two_retired_pool by blast
  from no_use_after_free [OF pair_bag_laws _ two_retired_threads w(1), of 1] w show ?thesis by auto
qed

theorem one_token_witness:
  "\<exists>w. ring_run pair_bag (all_init 2 @ two_retired) (ring_start 2 1) = Some w \<and>
    (\<exists>!h. h < 2 \<and> (td_token (rt_td (r_threads w ! h)) \<noteq> 0 \<or> rt_pc (r_threads w ! h) = Pass_Token))"
proof -
  have t: "\<forall>(i, op) \<in> set (all_init 2 @ two_retired). i < 2" using two_retired_threads by auto
  obtain w where w: "ring_run pair_bag (all_init 2 @ two_retired) (ring_start 2 1) = Some w" using two_retired_pool by blast
  have "\<exists>!h. h < 2 \<and> (td_token (rt_td (r_threads w ! h)) \<noteq> 0 \<or> pc_at w h = Pass_Token)"
    by (rule one_token [OF pair_bag_laws _ t w]) simp
  with w show ?thesis by blast
qed

theorem token_ring_runs_witness:
  "\<exists>w. ring_run pair_bag (all_init 2 @ two_retired) (ring_start 2 1) = Some w \<and> r_linked w \<subseteq> r_born w"
proof -
  have t: "\<forall>(i, op) \<in> set two_retired. i < 2 \<and> op \<noteq> Deinit_Thread" using two_retired_threads by auto
  from token_ring_runs [OF pair_bag_laws _ _ t, of 1] show ?thesis by auto
qed


theorem start_op_is_wait_free_witness:
  "\<exists>as1 as2 w w1. ring_run pair_bag (all_init 2 @ [(0, Start_Op False)]) (ring_start 2 1) = Some w \<and>
    replicate 4 (0, Token_Access) = as1 @ as2 \<and> ring_run pair_bag as1 w = Some (w1 :: (nat, nat list) ring) \<and>
    rt_pc (r_threads w1 ! 0) = Inside"
proof -
  obtain w0 :: "(nat, nat list) ring" where w0: "ring_run pair_bag (all_init 2) (ring_start 2 1) = Some w0" "ready w0" "ring_size w0 = 2"
    "\<forall>i < 2. pc_at w0 i = Outside"
    by (rule ready_start [where k = 1 and n = 2 and B = pair_bag]) auto
  obtain w where w: "ring_step pair_bag 0 (Start_Op False) w0 = Some w" "ready w"
    using ring_step_ready [OF w0(2), of 0 "Start_Op False" pair_bag] w0(3) by auto
  have p: "ring_size w = 2" "pc_at w 0 \<noteq> Outside" using w(1) w0(3,4) by (auto simp: Let_def)
  have a: "\<forall>(j, op) \<in> set (replicate 4 (0 :: nat, Token_Access :: nat ring_op)). j < ring_size w" using p(1) by simp
  obtain w' where "ring_run pair_bag (replicate 4 (0, Token_Access)) w = Some w'"
    using ready_run [OF w(2), of "replicate 4 (0, Token_Access)" pair_bag] p(1) by auto
  from start_op_is_wait_free [OF a _ p(2) this] p(1) have
    "\<exists>as1 as2 w1. replicate 4 (0, Token_Access) = as1 @ as2 \<and> ring_run pair_bag as1 w = Some w1 \<and> rt_pc (r_threads w1 ! 0) = Inside"
    by (simp add: numeral_eq_Suc)
  moreover have "ring_run pair_bag (all_init 2 @ [(0, Start_Op False)]) (ring_start 2 1) = Some w"
    unfolding ring_run_append w0(1) using w(1) by (simp del: ring_step.simps)
  ultimately show ?thesis by blast
qed

text \<open>Two record types, with nodes of the second ready to be handed back.\<close>

definition two_types :: "(nat, nat list) ring" where
  "two_types = \<lparr>r_threads = [\<lparr>rt_td = (thread_data_new 0 0)\<lparr>td_bags := [Some \<lparr>curr_bag = [], last_bag = [], free_bag = []\<rparr>,
       Some \<lparr>curr_bag = [], last_bag = [], free_bag = [5, 6]\<rparr>]\<rparr>, rt_pc = Outside, rt_starts = 0, rt_retired = 0, rt_freed = 0\<rparr>],
     r_pool = [], r_linked = {}, r_born = {5, 6}, r_sees = (\<lambda>_. {})\<rparr>"

theorem later_types_pile_up_witness:
  "\<exists>w b'. ring_run pair_bag (concat (replicate 3 (round_op 0))) two_types = Some w \<and>
    td_bags (rt_td (r_threads w ! 0)) ! 1 = Some b' \<and> {#5, 6#} \<subseteq># mset (free_bag b')"
proof -
  have t: "ready two_types" "ring_size two_types = 1" by (simp_all add: two_types_def ready_def)
  have a: "\<forall>(j, op) \<in> set (concat (replicate 3 (round_op 0)) :: (nat \<times> nat ring_op) list). j < ring_size two_types \<and> op \<noteq> Deinit_Thread"
    by (auto simp: round_op_def start_op_def t(2))
  obtain w where w: "ring_run pair_bag (concat (replicate 3 (round_op 0))) two_types = Some w" using ready_run [OF t(1) a] by blast
  from later_types_pile_up [OF pair_bag_laws a w, of 0 1 "\<lparr>curr_bag = [], last_bag = [], free_bag = [5, 6]\<rparr>"] w t(2)
  show ?thesis by (auto simp: two_types_def pair_bag_def)
qed

theorem same_policy_as_library_witness:
  "td_spi_ema (pacer_resample ((thread_data_new 1 0 :: nat list thread_data)\<lparr>td_win_writes := 3, td_win_snaps := 5\<rparr>))
    = spi_ema (snd (resample_spi pacer_system_new ((thread_local_state_new 0)\<lparr>win_writes := 3, win_snaps := 5\<rparr>)))"
proof -
  let ?td = "(thread_data_new 1 0 :: nat list thread_data)\<lparr>td_win_writes := 3, td_win_snaps := 5\<rparr>"
  let ?t = "(thread_local_state_new 0)\<lparr>win_writes := 3, win_snaps := 5\<rparr>"
  from same_policy_as_library [of ?td ?t pacer_system_new] show ?thesis
    by (simp add: thread_data_new_def thread_local_state_new_def)
qed

end
