(* ===== verification/Token_Instr.thy ===== *)
theory Token_Instr
  imports Printing
begin

text \<open>
  The measurement hooks of the setbench reclaimer, \<open>src/pacer/pacer_instr.h\<close>: per thread the counts of retired
  and freed nodes, the backlog sampled every 256 operations, and a histogram of the cycles spent in \<open>startOp\<close>, with the line that
  reports them. The cycles a timer has measured are an argument. Also \<open>bucket_lo\<close> of \<open>src/scripts/isweep.py\<close>, which
  turns a bucket back into cycles.
\<close>

section \<open>The histogram\<close>

text \<open>\<open>__builtin_clzll\<close> of a number that is not zero.\<close>

definition builtin_clzll :: "u64 \<Rightarrow> nat" where
  "builtin_clzll d = length (takeWhile (\<lambda>i. \<not> bit d i) (rev [0..<64]))"

definition bucket :: "u64 \<Rightarrow> nat" where
  "bucket d =
     (if d < 4 then unat d
      else let msb = 63 - builtin_clzll d
           in (msb - 2) * 4 + 4 + unat (take_bit 2 (drop_bit (msb - 2) d)))"

definition bucket_lo :: "nat \<Rightarrow> nat" where
  "bucket_lo i = (if i < 4 then i else let k = (i - 4) div 4; m = (i - 4) mod 4 in push_bit k (4 + m))"

section \<open>The counts of a thread\<close>

record thread_stats =
  st_retired :: u64
  st_freed :: u64
  st_ops :: u64
  st_peak :: u64
  st_sum :: u64
  st_samples :: u64
  st_maxcyc :: u64
  st_hist :: "u64 list"

definition thread_stats_new :: thread_stats where
  "thread_stats_new = \<lparr>st_retired = 0, st_freed = 0, st_ops = 0, st_peak = 0, st_sum = 0, st_samples = 0, st_maxcyc = 0,
     st_hist = replicate 256 0\<rparr>"

definition on_retire :: "thread_stats \<Rightarrow> thread_stats" where
  "on_retire s = s\<lparr>st_retired := st_retired s + 1\<rparr>"

definition on_free :: "u64 \<Rightarrow> thread_stats \<Rightarrow> thread_stats" where
  "on_free n s = s\<lparr>st_freed := st_freed s + n\<rparr>"

text \<open>The destructor of the timer, in which the operation is counted.\<close>

definition timer_end :: "u64 \<Rightarrow> thread_stats \<Rightarrow> thread_stats res" where
  "timer_end d s =
     (if length (st_hist s) \<le> bucket d then Inl IndexOutOfBounds
      else let s1 = s\<lparr>st_hist := (st_hist s)[bucket d := st_hist s ! bucket d + 1],
                      st_maxcyc := if st_maxcyc s < d then d else st_maxcyc s, st_ops := st_ops s + 1\<rparr>;
               b = (if st_freed s1 < st_retired s1 then st_retired s1 - st_freed s1 else 0)
           in Inr (if take_bit 8 (st_ops s1) = 0
                then s1\<lparr>st_peak := if st_peak s1 < b then b else st_peak s1, st_sum := st_sum s1 + b, st_samples := st_samples s1 + 1\<rparr>
                else s1))"

datatype instr_call = On_Retire | On_Free u64 | Timer_End u64

fun instr_event :: "instr_call \<Rightarrow> thread_stats \<Rightarrow> thread_stats res" where
  "instr_event On_Retire s = Inr (on_retire s)"
| "instr_event (On_Free n) s = Inr (on_free n s)"
| "instr_event (Timer_End d) s = timer_end d s"

fun instr_events :: "instr_call list \<Rightarrow> thread_stats \<Rightarrow> thread_stats res" where
  "instr_events [] s = Inr s"
| "instr_events (e # es) s = bind_res (instr_event e s) (instr_events es)"

section \<open>The report\<close>

text \<open>\<open>snprintf\<close> into the buffer of 8192 bytes from position \<open>n\<close>: it writes as much as fits and a zero byte.\<close>

definition put_at :: "nat \<Rightarrow> string \<Rightarrow> string \<Rightarrow> string" where
  "put_at n s buf = take n buf @ s @ drop (n + length s) buf"

definition snprintf_at :: "nat \<Rightarrow> string \<Rightarrow> string \<Rightarrow> nat \<times> string" where
  "snprintf_at n s buf = (n + length s, put_at n (take (8191 - n) s @ [CHR 0x00]) buf)"

definition dec_int :: "int \<Rightarrow> string" where
  "dec_int i = (if i < 0 then ''-'' else []) @ dec (nat \<bar>i\<bar>)"

definition report_head :: "int \<Rightarrow> thread_stats \<Rightarrow> string" where
  "report_head i s =
     ''INSTR tid='' @ dec_int i @ '' ops='' @ dec (unat (st_ops s)) @ '' retired='' @ dec (unat (st_retired s)) @
     '' freed='' @ dec (unat (st_freed s)) @ '' peak='' @ dec (unat (st_peak s)) @
     '' avg='' @ f64_fixed 1 (if st_samples s \<noteq> 0 then f64_of_u64 (st_sum s) / f64_of_u64 (st_samples s) else 0) @
     '' maxcyc='' @ dec (unat (st_maxcyc s)) @ '' hist=''"

definition report_entry :: "nat \<Rightarrow> u64 \<Rightarrow> string" where
  "report_entry i c = dec i @ '':'' @ dec (unat c) @ '',''"

text \<open>The loop over the buckets, from bucket \<open>i\<close>.\<close>

fun report_loop :: "nat \<Rightarrow> u64 list \<Rightarrow> nat \<times> string \<Rightarrow> nat \<times> string" where
  "report_loop i [] nb = nb"
| "report_loop i (c # cs) (n, buf) =
     (if n < 8192 - 40 then report_loop (Suc i) cs (if c \<noteq> 0 then snprintf_at n (report_entry i c) buf else (n, buf)) else (n, buf))"

text \<open>What is written, from the buffer's previous contents.\<close>

definition report :: "string \<Rightarrow> int \<Rightarrow> thread_stats \<Rightarrow> string res" where
  "report buf i s =
     (case report_loop 0 (st_hist s) (snprintf_at 0 (report_head i s) buf) of (n, buf1) \<Rightarrow>
        if n < 8192 then Inr (take (n + 1) (put_at n [CHR 0x0A] buf1)) else Inl IndexOutOfBounds)"

section \<open>Buckets\<close>

lemma clzll_bits:
  assumes "d \<noteq> 0"
  shows "builtin_clzll d \<le> 63" "bit d (63 - builtin_clzll d)" "\<And>i. 63 - builtin_clzll d < i \<Longrightarrow> \<not> bit d i"
proof -
  let ?P = "\<lambda>i. \<not> bit d i" and ?xs = "rev [0..<64 :: nat]"
  define n where "n = length (takeWhile ?P ?xs)"
  have e: "builtin_clzll d = n" by (simp add: builtin_clzll_def n_def)
  obtain i where i: "bit d i" using assms bit_eqI [of d 0] by auto
  then have "i < 64" using bit_imp_le_length [of d i] by simp
  then have "i \<in> set ?xs" by simp
  then have "takeWhile ?P ?xs \<noteq> ?xs" using i by (metis takeWhile_eq_all_conv)
  then have n: "n < 64" unfolding n_def
    by (metis (no_types, lifting) diff_zero length_rev length_takeWhile_le length_upt linorder_not_le nat_less_le takeWhile_eq_take take_all_iff)
  have at: "?xs ! j = 63 - j" if "j < 64" for j using that by (simp add: rev_nth)
  show "builtin_clzll d \<le> 63" using n e by simp
  have "bit d (?xs ! n)" using nth_length_takeWhile [of ?P ?xs] n by (simp add: n_def)
  then show "bit d (63 - builtin_clzll d)" using at [OF n] e by simp
  show "\<not> bit d i" if "63 - builtin_clzll d < i" for i
  proof (cases "i < 64")
    case True
    then have j: "63 - i < n" using that e n by simp
    then have "?P (takeWhile ?P ?xs ! (63 - i))"
      using set_takeWhileD [of "takeWhile ?P ?xs ! (63 - i)" ?P ?xs] nth_mem [of "63 - i" "takeWhile ?P ?xs"] by (simp add: n_def)
    moreover have "takeWhile ?P ?xs ! (63 - i) = ?xs ! (63 - i)" using j unfolding n_def by (rule takeWhile_nth)
    ultimately show ?thesis using at [of "63 - i"] True by simp
  next
    case False then show ?thesis using bit_imp_le_length [of d i] by auto
  qed
qed

lemma clzll_bounds:
  assumes "d \<noteq> 0"
  shows "2 ^ (63 - builtin_clzll d) \<le> unat d" "unat d < 2 ^ Suc (63 - builtin_clzll d)"
proof -
  let ?k = "63 - builtin_clzll d"
  note b = clzll_bits [OF assms]
  have "bit (unat d) ?k" using b(2) by (simp add: bit_unsigned_iff bit_imp_le_length)
  then have "odd (unat d div 2 ^ ?k)" by (simp add: bit_iff_odd)
  then have "1 \<le> unat d div 2 ^ ?k" by (cases "unat d div 2 ^ ?k") auto
  then show "2 ^ ?k \<le> unat d" by (simp add: div_greater_zero_iff Suc_le_eq)
  have "take_bit (Suc ?k) (unat d) = unat d"
    by (rule bit_eqI) (simp add: bit_take_bit_iff bit_unsigned_iff, metis b(3) not_less_eq)
  then show "unat d < 2 ^ Suc ?k" by (simp add: take_bit_nat_eq_self_iff)
qed

text \<open>A number of at least 4 has a leading part between 4 and 7, scaled by a power of 2; its bucket is made of both.\<close>

lemma bucket_large:
  assumes "4 \<le> unat d"
  obtains k where "k \<le> 61" "4 \<le> unat d div 2 ^ k" "unat d div 2 ^ k < 8" "bucket d = 4 * k + unat d div 2 ^ k"
proof -
  have d: "d \<noteq> 0" "\<not> d < 4" using assms by (auto simp: word_less_nat_alt)
  let ?m = "63 - builtin_clzll d"
  note b = clzll_bounds [OF d(1)]
  have m: "2 \<le> ?m"
  proof (rule ccontr)
    assume "\<not> 2 \<le> ?m"
    then have "Suc ?m \<le> 2" by simp
    then have "(2 :: nat) ^ Suc ?m \<le> 2 ^ 2" by (intro power_increasing) simp_all
    then show False using b(2) assms by simp
  qed
  then obtain k where k: "?m = k + 2" by (metis add.commute le_iff_add)
  have q: "4 \<le> unat d div 2 ^ k" "unat d div 2 ^ k < 8"
    using b by (simp_all add: k power_add less_eq_div_iff_mult_less_eq div_less_iff_less_mult mult.commute)
  have d64: "unat d < 2 ^ 64" using unsigned_less [of d] by simp
  have "unat (take_bit 2 (drop_bit k d)) = (unat d div 2 ^ k) mod 4"
    using d64
    by (simp only: unsigned_take_bit_eq unsigned_drop_bit_eq) (simp add: take_bit_eq_mod drop_bit_eq_div)
  also have "\<dots> = unat d div 2 ^ k - 4" using q by (metis add_diff_cancel_left' le_add_diff_inverse mod_add_self1 mod_less nat_add_left_cancel_less numeral_Bit0)
  finally have "bucket d = 4 * k + unat d div 2 ^ k" using q(1) d(2) by (simp add: bucket_def k Let_def)
  moreover have "k \<le> 61" using k by simp
  ultimately show ?thesis using that q by blast
qed

lemma bucket_range: "bucket d < 252"
proof (cases "unat d < 4")
  case True
  then have "d < 4" by (simp add: word_less_nat_alt)
  then show ?thesis using True by (simp add: bucket_def)
next
  case False
  then obtain k where "k \<le> 61" "unat d div 2 ^ k < 8" "bucket d = 4 * k + unat d div 2 ^ k"
    using bucket_large [of d] by auto
  then show ?thesis by linarith
qed

text \<open>C39: The histogram loses less than a quarter: every number of cycles has a bucket within the array, and the number read
  back from its bucket is not larger, and smaller by at most a quarter of itself.\<close>

theorem bucket_reads_back:
  "bucket d < 252 \<and> bucket_lo (bucket d) \<le> unat d \<and> 4 * (unat d - bucket_lo (bucket d)) \<le> bucket_lo (bucket d)"
proof (cases "unat d < 4")
  case True
  then have "d < 4" by (simp add: word_less_nat_alt)
  then show ?thesis using True bucket_range [of d] by (simp add: bucket_def bucket_lo_def)
next
  case False
  then obtain k where k: "k \<le> 61" "4 \<le> unat d div 2 ^ k" "unat d div 2 ^ k < 8" "bucket d = 4 * k + unat d div 2 ^ k"
    using bucket_large [of d] by auto
  define q where "q = unat d div 2 ^ k"
  obtain r where r: "q = 4 + r" "r < 4" using k(2,3) by (metis add.commute q_def le_iff_add less_diff_conv2 k(2) numeral_Bit0 add_less_cancel_left)
  have lo: "bucket_lo (bucket d) = q * 2 ^ k"
    using r by (simp add: k(4) flip: q_def) (simp add: bucket_lo_def Let_def push_bit_eq_mult)
  have d: "unat d = q * 2 ^ k + unat d mod 2 ^ k" by (simp add: q_def div_mult_mod_eq)
  have "unat d mod 2 ^ k < 2 ^ k" by simp
  moreover have "4 * 2 ^ k \<le> q * 2 ^ k" using r by simp
  ultimately show ?thesis using d lo bucket_range [of d] by linarith
qed

section \<open>Samples\<close>

text \<open>What holds of the counts after \<open>r\<close> nodes were retired and \<open>n\<close> operations counted.\<close>

definition stats_ok :: "nat \<Rightarrow> nat \<Rightarrow> thread_stats \<Rightarrow> bool" where
  "stats_ok r n s \<longleftrightarrow> unat (st_retired s) = r \<and> unat (st_ops s) = n \<and> length (st_hist s) = 256 \<and>
     sum_list (map unat (st_hist s)) = n \<and> unat (st_samples s) = n div 256 \<and>
     unat (st_sum s) \<le> n div 256 * unat (st_peak s) \<and> unat (st_peak s) \<le> r"

lemma unat_increment: "unat (x :: u64) < 2 ^ 36 \<Longrightarrow> unat (x + 1) = Suc (unat x)"
  by (simp add: unat_plus_if_size word_size)

lemma sum_list_increment:
  assumes "i < length h" "sum_list (map unat (h :: u64 list)) < 2 ^ 36"
  shows "sum_list (map unat (h[i := h ! i + 1])) = Suc (sum_list (map unat h))"
proof -
  have "unat (h ! i) \<le> sum_list (map unat h)" using assms(1) by (intro member_le_sum_list) simp_all
  moreover from this have "unat (h ! i + 1) = Suc (unat (h ! i))" using assms(2) by (intro unat_increment) simp
  ultimately show ?thesis using assms(1) by (simp add: map_update sum_list_update)
qed

lemma stats_ok_timer:
  assumes "stats_ok r n s" "r < 2 ^ 36" "n < 2 ^ 36"
  shows "\<exists>s'. timer_end d s = Inr s' \<and> stats_ok r (Suc n) s'"
proof -
  note s = assms(1) [unfolded stats_ok_def]
  let ?h = "(st_hist s)[bucket d := st_hist s ! bucket d + 1]"
  define b where "b = (if st_freed s < st_retired s then st_retired s - st_freed s else 0)"
  define pk where "pk = (if st_peak s < b then b else st_peak s)"
  define s1 where "s1 = s\<lparr>st_hist := ?h, st_maxcyc := if st_maxcyc s < d then d else st_maxcyc s, st_ops := st_ops s + 1\<rparr>"
  have bk: "bucket d < length (st_hist s)" using bucket_range [of d] s by simp
  have h: "sum_list (map unat ?h) = Suc n" "length ?h = 256" using sum_list_increment [OF bk] s assms(3) by simp_all
  have o: "unat (st_ops s + 1) = Suc n" using unat_increment [of "st_ops s"] s assms(3) by simp
  have b: "unat b \<le> r" using s by (auto simp: b_def unat_sub_if_size word_less_nat_alt)
  have pk: "unat pk \<le> r" "unat b \<le> unat pk" "unat (st_peak s) \<le> unat pk"
    using s b by (auto simp: pk_def word_less_nat_alt)
  have t: "take_bit 8 (st_ops s + 1) = 0 \<longleftrightarrow> Suc n mod 256 = 0"
  proof -
    have "unat (take_bit 8 (st_ops s + 1)) = Suc n mod 256" by (simp only: unsigned_take_bit_eq o) (simp add: take_bit_eq_mod)
    then show ?thesis by (metis unat_0 unat_eq_zero)
  qed
  show ?thesis
  proof (cases "Suc n mod 256 = 0")
    case True
    have q: "Suc n div 256 = Suc (n div 256)" using True by (simp add: div_Suc)
    have m: "n div 256 * unat (st_peak s) \<le> n div 256 * unat pk" using pk(3) by simp
    have sm: "unat (st_sum s) + unat b \<le> Suc n div 256 * unat pk" 
      unfolding q mult_Suc using s m pk(2) by linarith
    have "Suc n div 256 * unat pk \<le> 2 ^ 28 * r" using pk(1) assms(3) by (intro mult_le_mono) simp_all
    then have "unat (st_sum s) + unat b < 2 ^ 64" using sm assms(2) by simp
    then have sum: "unat (st_sum s + b) = unat (st_sum s) + unat b" by (simp add: unat_plus_if_size word_size)
    have sa: "unat (st_samples s + 1) = Suc n div 256" using unat_increment [of "st_samples s"] s assms(3) by (simp add: q)
    have "timer_end d s = Inr (s1\<lparr>st_peak := pk, st_sum := st_sum s + b, st_samples := st_samples s + 1\<rparr>)"
      using bk t True by (simp add: timer_end_def s1_def b_def pk_def Let_def)
    moreover have "stats_ok r (Suc n) (s1\<lparr>st_peak := pk, st_sum := st_sum s + b, st_samples := st_samples s + 1\<rparr>)"
      using s h o sa sum sm pk(1) by (simp add: stats_ok_def s1_def)
    ultimately show ?thesis by blast
  next
    case False
    then have "Suc n div 256 = n div 256" by (simp add: div_Suc)
    then have "stats_ok r (Suc n) s1" using s h o by (simp add: stats_ok_def s1_def)
    moreover have "timer_end d s = Inr s1" using bk t False by (simp add: timer_end_def s1_def Let_def)
    ultimately show ?thesis by blast
  qed
qed

fun is_timed :: "instr_call \<Rightarrow> bool" where
  "is_timed (Timer_End d) \<longleftrightarrow> True"
| "is_timed _ \<longleftrightarrow> False"

definition calls_retired :: "instr_call list \<Rightarrow> nat" where
  "calls_retired es = count_list es On_Retire"

definition calls_timed :: "instr_call list \<Rightarrow> nat" where
  "calls_timed es = length (filter is_timed es)"

lemma instr_events_ok:
  assumes "stats_ok r n s" "r + n + length es < 2 ^ 36"
  shows "\<exists>s'. instr_events es s = Inr s' \<and> stats_ok (r + calls_retired es) (n + calls_timed es) s'"
  using assms
proof (induction es arbitrary: r n s)
  case (Cons e es)
  show ?case
  proof (cases e)
    case On_Retire
    have "stats_ok (Suc r) n (on_retire s)"
      using Cons(2,3) unat_increment [of "st_retired s"] by (auto simp: stats_ok_def on_retire_def)
    from Cons.IH [OF this] Cons(3) On_Retire show ?thesis by (auto simp: calls_retired_def calls_timed_def)
  next
    case (On_Free k)
    have "stats_ok r n (on_free k s)" using Cons(2) by (simp add: stats_ok_def on_free_def)
    from Cons.IH [OF this] Cons(3) On_Free show ?thesis by (auto simp: calls_retired_def calls_timed_def)
  next
    case (Timer_End d)
    obtain s1 where s1: "timer_end d s = Inr s1" "stats_ok r (Suc n) s1"
      using stats_ok_timer [OF Cons(2)] Cons(3) by auto
    from Cons.IH [OF s1(2)] Cons(3) s1(1) Timer_End show ?thesis by (auto simp: calls_retired_def calls_timed_def)
  qed
qed (simp add: calls_retired_def calls_timed_def)

text \<open>The hooks count: after any calls, fewer than \<open>2 ^ 36\<close>, no bucket is out of range, every timed operation is in the histogram
  and every 256th was sampled, the peak is at most what was retired, and the average of the samples at most the peak.\<close>

theorem hooks_account:
  assumes "length es < 2 ^ 36"
  shows "\<exists>s. instr_events es thread_stats_new = Inr s \<and> sum_list (map unat (st_hist s)) = calls_timed es \<and>
    unat (st_samples s) = calls_timed es div 256 \<and> unat (st_sum s) \<le> unat (st_samples s) * unat (st_peak s) \<and>
    unat (st_peak s) \<le> calls_retired es"
proof -
  have "stats_ok 0 0 thread_stats_new" by (simp add: stats_ok_def thread_stats_new_def sum_list_replicate)
  from instr_events_ok [OF this, of es] assms obtain s where
    s: "instr_events es thread_stats_new = Inr s" "stats_ok (calls_retired es) (calls_timed es) s" by auto
  then show ?thesis by (intro exI [of _ s]) (simp add: stats_ok_def)
qed

theorem hooks_account_witness:
  "\<exists>s. instr_events ([On_Retire, On_Retire, On_Free 1] @ replicate 300 (Timer_End 1000)) thread_stats_new = Inr s \<and>
     unat (st_samples s) = 1 \<and> unat (st_peak s) \<le> 2"
  using hooks_account [of "[On_Retire, On_Retire, On_Free 1] @ replicate 300 (Timer_End 1000)"]
  by (auto simp: calls_timed_def calls_retired_def filter_replicate)

section \<open>The line\<close>

lemma length_dec_u64: "length (dec (unat (x :: u64))) \<le> 20"
proof -
  have "unat x < 2 ^ 64" using unsigned_less [of x] by simp
  then have "unat x < 10 ^ 20" by (rule order.strict_trans2) simp
  then show ?thesis by (intro length_dec) simp_all
qed

lemma length_report_entry: "i < 256 \<Longrightarrow> length (report_entry i c) \<le> 25"
  using length_dec_u64 [of c] length_dec [of i 3] by (simp add: report_entry_def)

lemma take_put_at: "n < length buf \<Longrightarrow> take (n + 1) (put_at n [c] buf) = take n buf @ [c]"
  by (simp add: put_at_def)

lemma snprintf_at:
  assumes "length buf = 8192" "n + length s < 8192"
  shows "fst (snprintf_at n s buf) = n + length s" "length (snd (snprintf_at n s buf)) = 8192"
    "take (n + length s) (snd (snprintf_at n s buf)) = take n buf @ s"
  using assms by (simp_all add: snprintf_at_def put_at_def)

text \<open>The entries of the buckets from \<open>i\<close>.\<close>

definition report_entries :: "nat \<Rightarrow> u64 list \<Rightarrow> string" where
  "report_entries i cs = concat (map (\<lambda>(j, c). if c \<noteq> 0 then report_entry j c else []) (zip [i..<i + length cs] cs))"

lemma report_loop_ok:
  assumes "length buf = 8192" "n + 25 * length cs < 8152" "i + length cs \<le> 256"
  shows "\<exists>n' buf'. report_loop i cs (n, buf) = (n', buf') \<and> length buf' = 8192 \<and> n' \<le> n + 25 * length cs \<and>
    take n' buf' = take n buf @ report_entries i cs"
  using assms
proof (induction cs arbitrary: i n buf)
  case Nil then show ?case by (simp add: report_entries_def)
next
  case (Cons c cs)
  have z: "report_entries i (c # cs) = (if c \<noteq> 0 then report_entry i c else []) @ report_entries (Suc i) cs"
  proof -
    have "[i..<i + length (c # cs)] = i # [Suc i..<Suc i + length cs]" by (simp add: upt_conv_Cons del: upt_Suc)
    then show ?thesis unfolding report_entries_def by (simp del: upt_Suc)
  qed
  show ?case
  proof (cases "c = 0")
    case True
    then show ?thesis using Cons.IH [of buf n "Suc i"] Cons.prems z by auto
  next
    case False
    let ?s = "report_entry i c"
    have l: "length ?s \<le> 25" using Cons.prems(3) by (intro length_report_entry) simp
    then have f: "n + length ?s < 8192" using Cons.prems(2) by simp
    obtain n1 b1 where s: "snprintf_at n ?s buf = (n1, b1)" by fastforce
    then have s1: "n1 = n + length ?s" "length b1 = 8192" "take n1 b1 = take n buf @ ?s"
      using snprintf_at [OF Cons.prems(1) f] by simp_all
    then obtain n' buf' where "report_loop (Suc i) cs (n1, b1) = (n', buf')" "length buf' = 8192" "n' \<le> n1 + 25 * length cs"
      "take n' buf' = take n1 b1 @ report_entries (Suc i) cs"
      using Cons.IH [of b1 n1 "Suc i"] Cons.prems(2,3) l by auto
    then show ?thesis using s s1 l False Cons.prems(2) z by auto
  qed
qed

lemma length_average: "length (f64_fixed 1 (if st_samples s \<noteq> 0 then f64_of_u64 (st_sum s) / f64_of_u64 (st_samples s) else 0)) \<le> 30"
proof -
  have fits: "length (f64_fixed 1 (Fin q)) \<le> 30" if "0 \<le> q" "q \<le> 2 ^ 64" for q
  proof -
    have "q < of_nat (10 ^ 20)" using that(2) by (rule order.strict_trans1) simp
    with length_f64_fixed [OF that(1) this, of 1] show ?thesis by simp
  qed
  show ?thesis
  proof (cases "st_samples s = 0")
    case True
    then show ?thesis using fits [of 0] by (simp add: zero_f64_def del: f64_fixed.simps)
  next
    case False
    let ?x = "rne (rat_of_u64 (st_sum s))" and ?y = "rne (rat_of_u64 (st_samples s))"
    have "rat_of_u64 1 \<le> rat_of_u64 (st_samples s)" unfolding rat_of_u64_mono using False by (simp add: word_le_nat_alt unat_gt_0 Suc_le_eq)
    then have y: "1 \<le> ?y" using rne_between [OF on_grid_1] by simp
    have x: "0 \<le> ?x" "?x \<le> 2 ^ 64" by (rule rne_u64_range)+
    have "?x / ?y \<le> ?x" using x(1) y by (simp add: divide_le_eq mult_le_cancel_left1)
    then have r: "0 \<le> ?x / ?y" "?x / ?y \<le> 2 ^ 64" using x y by simp_all
    have g: "on_grid 0" "on_grid (2 ^ 64)" by (rule on_gridI [of _ 0 0] on_gridI [of _ 1 64]; simp)+
    have "(2 :: rat) ^ 64 \<le> 2 ^ 65" by (rule power_increasing) simp_all
    then have o: "- overflow_bound < 0" "2 ^ 64 < overflow_bound" using overflow_bound_gt by linarith+
    have "Fin ?x / Fin ?y = Fin (rne (?x / ?y))" using f64_of_rat_between(1) [OF g r o] y by simp
    then show ?thesis
      using False fits [OF f64_of_rat_between(2,3) [OF g r o]] by (simp add: f64_of_u64_eq del: f64_fixed.simps)
  qed
qed

text \<open>C40: The report is complete and fits: whatever the counts and the buffer's earlier contents, the loop does not stop
  before the last bucket, nothing is cut, and the end of the line is inside the buffer.\<close>

theorem report_fits:
  assumes "length buf = 8192" "length (st_hist s) = 256" "\<bar>i\<bar> < 10 ^ 10"
  shows "report buf i s = Inr (report_head i s @ report_entries 0 (st_hist s) @ [CHR 0x0A])"
proof -
  have tid: "length (dec_int i) \<le> 11" 
  proof -
    have "nat \<bar>i\<bar> < 10 ^ 10" using assms(3) by (simp add: nat_less_iff)
    then have "length (dec (nat \<bar>i\<bar>)) \<le> 10" by (rule length_dec) simp
    then show ?thesis by (cases "i < 0") (simp_all add: dec_int_def)
  qed
  have "length (report_head i s) \<le> 250"
    using tid length_average [of s] length_dec_u64 [of "st_ops s"] length_dec_u64 [of "st_retired s"] length_dec_u64 [of "st_freed s"]
      length_dec_u64 [of "st_peak s"] length_dec_u64 [of "st_maxcyc s"]
    by (simp add: report_head_def del: f64_fixed.simps)
  moreover obtain n1 b1 where s1: "snprintf_at 0 (report_head i s) buf = (n1, b1)" by fastforce
  ultimately have h: "n1 = length (report_head i s)" "length b1 = 8192" "take n1 b1 = report_head i s" "n1 \<le> 250"
    using snprintf_at [OF assms(1), of 0 "report_head i s"] by simp_all
  then obtain n2 b2 where l: "report_loop 0 (st_hist s) (n1, b1) = (n2, b2)" "length b2 = 8192" "n2 \<le> n1 + 6400"
    "take n2 b2 = report_head i s @ report_entries 0 (st_hist s)"
    using report_loop_ok [of b1 n1 "st_hist s" 0] assms(2) by auto
  then have "take (n2 + 1) (put_at n2 [CHR 0x0A] b2) = take n2 b2 @ [CHR 0x0A]" using h(4) by (intro take_put_at) simp
  then show ?thesis using l h(4) by (simp add: report_def s1)
qed

theorem report_fits_witness:
  "report (replicate 8192 (CHR 0x00)) 3 (on_retire thread_stats_new) =
     Inr (report_head 3 (on_retire thread_stats_new) @ report_entries 0 (replicate 256 0) @ [CHR 0x0A])"
  using report_fits [of "replicate 8192 (CHR 0x00)" "on_retire thread_stats_new" 3]
  by (simp add: on_retire_def thread_stats_new_def)

end
