(* ===== verification/Spec2Isabelle.thy ===== *)
theory Spec2Isabelle
  imports Bench_Synth Scc_Steps Epoch_Steps Announce_Scan Interleaved Collector_Progress Scc_Weak
    Sweep Comparison Unit_Tests Loom_Tests Smoke_Test Ffi_Drop Build_Script Glue_Memory Reports Token_Policy Token_Instr
begin

text \<open>
  PACER: an adaptive safe-memory-reclamation scheme for lock-free data structures whose readers take
  snapshots. This development models the Rust library, \<open>src/src/lib.rs\<close>, the wrapper that puts a C++ tree
  on top of it, \<open>src/src/abtree_ffi.rs\<close>, the benchmark of that tree, \<open>src/src/bench.rs\<close>, the sweep over the synthetic benchmark,
  \<open>src/examples/sweep.rs\<close>, the build script, the C++ layer \<open>src/cpp/abtree_glue.cpp\<close>, and the reclaimer in C++ for the setbench
  framework that the library descends from, \<open>src/pacer\<close>, and proves what makes them correct.

  The program. Every thread that changes the data structure retires the nodes it unlinks into a limbo bag
  of its own (\<open>LimboBag\<close>) and frees a few of them with every operation. How many is decided by a mode
  (\<open>GcMode\<close>), selected from the snapshot pressure index: the smoothed share of snapshots among the
  thread's operations, resampled every 256 operations. A reader takes a snapshot: it obtains a timestamp
  from the snapshot-coalescing controller (\<open>Scc\<close>, a seqlock that gives the readers of one window the same
  timestamp) and announces it in its slot of the \<open>AnnouncementTable\<close>; nodes whose birth timestamp is not
  below the least announced timestamp stay in the bags. \<open>PacerSystem\<close> holds the shared parts and the
  global epoch, from which writers draw the birth timestamps; \<open>ThreadLocalState\<close> holds what is per thread.
  A synthetic benchmark runs this system against three other reclamation strategies. \<open>AbtreeFFI\<close> calls
  Brown's lock-free tree through a C interface; the nodes the tree retires are pushed into the limbo bag of the
  calling thread by a callback. A second benchmark compares the system with two strategies on this tree. The setbench reclaimer
  has the same modes but another way to know that a node is safe: its threads pass a token round a ring, and a node is handed back
  when the token has been with every thread since it was retired.

  Theories, in the order of the code:

  \<^item> \<open>Prelude\<close>: the collection of word lemmas, saturating subtraction, the results \<open>res\<close> (a sum whose left
    side are the panics and undefined frees), their sequencing, and lists updated by index.
  \<^item> \<open>Float64\<close>: binary64 arithmetic as rounding of exact rationals, round to nearest even, with
    overflow, infinities and NaN; the locale \<open>rounding\<close> states what proofs use of it and is
    interpreted on the rounding function. \<open>Float64_Bits\<close>: \<open>f64::to_bits\<close> and \<open>from_bits\<close>.
  \<^item> \<open>Config\<close>: the constants of section 0 of the file.
  \<^item> \<open>Announce\<close>: \<open>AnnouncementTable\<close>. The locale \<open>snapshot_registry\<close> is the interface the collector relies
    on (an announced timestamp bounds the scan until it is released).
  \<^item> \<open>Limbo\<close>: \<open>VersionNode\<close>, \<open>LimboBag\<close> over an explicit memory of boxes, in which freeing a box twice
    is an error. The locale \<open>retire_bag\<close> is the contract of the bag: order, accounting, no double free.
  \<^item> \<open>Gc_Mode\<close>: \<open>select_gc_mode\<close> and the selector with hysteresis.
  \<^item> \<open>Scc\<close>: one call at a time; \<open>take_snapshot\<close> spins, so it is a \<open>partial_function (option)\<close> whose value
    None is a call that never returns. \<open>Scc_Steps\<close>: the same code as a program counter per thread and
    one step per atomic access, for every interleaving.
  \<^item> \<open>Pacer_State\<close>: \<open>ThreadLocalState\<close> and \<open>PacerSystem\<close>. \<open>Sampling\<close>: \<open>resample_spi\<close> and the derived
    parameters. \<open>Reclaim\<close>: the discrete and continuous reclamation passes and the epoch.
    \<open>Write_Path\<close>: \<open>take_snapshot\<close>, \<open>write_op_prepare\<close>, \<open>post_write\<close>, with the invariant of a worker.
  \<^item> \<open>Strategies\<close>: the body of the benchmark's loop, per strategy. \<open>Backlog\<close>: what it leaves in the bag
    over whole runs. \<open>Workload\<close>: generators, simulated allocator, reported figures. \<open>Bench_Synth\<close>:
    \<open>run_bench_synthetic\<close>, with all its threads.
  \<^item> \<open>Announce_Scan\<close>: the scan of the table with one step per atomic access, interleaved with the announcements
    of other threads. \<open>Epoch_Steps\<close>: the same for the epoch, which writers increment and window passes advance
    by a compare-and-exchange. \<open>Interleaved\<close>: reads and writes of several threads cut into halves, a reader between
    choosing and announcing its timestamp, a writer between preparing and retiring its node.
  \<^item> \<open>Collector_Steps\<close>: the whole collector with one step per atomic access: reads, writes, the scans and drains of
    \<open>post_write\<close>, the window passes of every strategy, for any number of registered threads under any schedule.
    \<open>Collector_Safety\<close>: its invariant, by induction over the run, and what an announced snapshot protects.
    \<open>Collector_Progress\<close>: how long an operation can take, and that its runs are runs of \<open>Scc_Steps\<close>.
  \<^item> \<open>Scc_Weak\<close>: \<open>Scc::take_snapshot\<close> with the memory orderings of the code, on a memory of views.
  \<^item> \<open>Abtree_Ffi\<close>: the wrapper, its callback and the glue's thread-local values. \<open>Tree_Bench\<close>: \<open>run_once\<close>
    with its three strategies, the thread counts and the mode table of \<open>main\<close>. \<open>Comparison\<close>: its table of
    the three strategies. \<open>Ffi_Drop\<close>: the end of the wrapper, which deletes the tree. \<open>Glue_Memory\<close>: the glue's
    allocator and the first words of nodes, out of which the parameter of \<open>Abtree_Ffi\<close> comes.
  \<^item> \<open>Float64_Sqrt\<close>: \<open>f64::sqrt\<close>, correctly rounded. \<open>Sweep\<close>: every configuration of the sweep, its repeated
    runs, and the means and deviations it prints. \<open>Printing\<close>: Rust's formatting of numbers and columns, and how they are read.
    \<open>Reports\<close>: all that the two programs print.
  \<^item> \<open>Unit_Tests\<close>: the unit tests of the library as truth values over the model. \<open>Mini_Window\<close>: the fragment of the
    snapshot window that the loom tests explore, for any number of threads. \<open>Loom_Tests\<close>: the loom tests, over all
    interleavings of their two threads. \<open>Smoke_Test\<close>: the unit test that runs the benchmark.
  \<^item> \<open>Build_Script\<close>: \<open>src/src/build.rs\<close>, what it prints and what it asks the compiler driver for.
  \<^item> \<open>Token_Reclaimer\<close>: \<open>src/pacer/reclaimer_pacer.h\<close>, any number of threads and record types with one step per access to a
    token, over the parameter \<open>blockbag\<close>. \<open>Token_Items\<close>: no step loses or duplicates a node. \<open>Token_Safety\<close>: the token,
    the grace period and the nodes a thread can see, by induction over the run. \<open>Token_Accounts\<close>: how many nodes wait, how many
    accesses an operation makes, the bags of the record types and the end of a thread. \<open>Token_Policy\<close>: the same policy as in
    \<open>Sampling\<close> and \<open>Gc_Mode\<close>, and a run in which a node is handed back. \<open>Token_Instr\<close>: the measurement hooks of
    \<open>src/pacer/pacer_instr.h\<close>.

  State and values. A \<open>u64\<close> is a \<open>64 word\<close>; its arithmetic wraps, as a release build and the atomic
  operations of the code do. A \<open>usize\<close> that counts elements is a \<open>nat\<close>. An \<open>Arc\<close> of atomics is a record
  passed and returned. An \<open>f64\<close> is the datatype \<open>f64\<close>. A panic, an index out of range, a division
  by zero and a double free are values of \<open>failure\<close>; an operation that fails returns \<open>Inl\<close>.
  The outer option of \<open>take_snapshot\<close> and what calls it is termination.

  What the lemmas show. Announcements: the scan is the minimum, and pins it. Bag: a drain
  frees the oldest eligible prefix within its budget, every node once. Modes: agreement outside the dead
  bands, no flapping inside. Snapshots: a call returns if no other thread is inside the
  critical section, its timestamp is never beyond the epoch and at most one window old; under all
  interleavings there is a single writer and every pending call can be completed. Sampling: the index is a
  proper number of the unit interval after every resample, so the derived strides and batches are bounded and
  nothing divides by zero. Reclamation: the code's two-level decision implements a policy of a budget per mode
  and a count of held writes. Writes: a write returns, loses no node, frees no node twice, and
  never one that an announced snapshot protects. Benchmark: over any run and any interleaving
  of the iterations the backlog stays within the bound of the strategy. Scan and epoch, interleaved: a held
  snapshot bounds every scan that runs meanwhile, a scan never returns a value nobody announced, and
  the epoch moves by exactly the accesses that claim to have moved it. Halves of operations, interleaved: every
  live box is always in exactly one thread's hands, and no step frees a node that an announced
  snapshot protects. Accesses, interleaved: an operation that is not interrupted does what the sequential model says;
  no schedule of accesses fails, frees a box twice or loses one; a snapshot that stays announced protects
  the nodes not born before it from every scan that begins meanwhile; outside \<open>take_snapshot\<close> a thread needs at most
  521 accesses of its own, and inside it the pending calls can always be completed. Weak memory: one
  writer at a time and no timestamp the epoch has not held, and that the latter needs the releasing store which
  publishes a window. Tree: whatever the tree retires once is
  freed at most once, over any calls of any threads and the deletion of the tree. Tables: the comparison and the sweep end
  without failure for every schedule, and what their columns can show; a printed row can be read back within half a unit of
  its last digits. Token ring: under every interleaving there is one token, no node is lost or handed back twice, and none
  is handed back while a thread can hold a reference of it; an operation starts after at most four accesses to tokens;
  the hooks count every operation and their report fits its buffer. Tests: the model passes the library's own tests. Other theorems show where
  the code does less than it says: nodes are compared by birth and not by retirement, a coalesced
  snapshot can be handed out after its nodes are gone, a reader can mix two windows, one
  registration too many disables every later scan, the wrapper frees a node within the call that retires
  it, a snapshot protects nothing before it is announced nor, afterwards, from a scan that has already passed its slot, the two epochs of the wrapper and of the benchmark drift apart,
  the stamp of a tree's node is overwritten by its first field, the token ring falls behind a structure that retires more than one
  node per operation, drains one record type only, and does not protect from a thread that takes its bags down.

  Bounds. The theorems over runs allow up to \<open>2 ^ 62\<close> operations from the initial epoch, so that no counter
  wraps. Windows are below \<open>2 ^ 62\<close> ns. No fuel is used: the loops are structural or an
  option; a call of \<open>Scc::take_snapshot\<close> that runs alone ends within 14 of its steps. The 521 accesses of a
  retiring thread are two scans of a full table of 256 slots and nine more: the two counts, the two drains, the three
  accesses of the index and the two of the epoch.

  Parameters. The tree is vendored third-party code, \<open>src/cpp/brown_ext_abtree_lf_impl.h\<close>, over setbench's record manager and its
  primitives, which are not part of the repository. It is the record
  \<open>abtree_lib\<close>: for each operation its result, the next tree and the nodes it retires. Theorems that need
  more of it say so: it retires an address once (\<open>retires_once\<close>), or few nodes per call (\<open>retires_few\<close>);
  both are shown for a concrete tree. What the tree's destructor frees is the parameter \<open>nodes\<close> of
  \<open>abtree_destroy\<close>, with the hypothesis that it is what the tree has not retired (\<open>holds_unretired\<close>). The bags of setbench are the
  record \<open>blockbag\<close> with the laws \<open>blockbag_laws\<close>, which leave open what a transfer of full blocks moves and are shown for
  lists; its pools are the list of the nodes they were given.

  Not modelled. Memory orderings weaker than sequential consistency outside \<open>Scc::take_snapshot\<close>, and in it
  loads that overtake later stores of their thread. Interleavings inside the benchmarks' own bookkeeping: they interleave one
  iteration at a time. The dynamic registration of threads while others run access by access:
  the threads of \<open>Collector_Steps\<close> have registered. Clocks, sleeping, spinning for a simulated time and
  the padding of cache lines have no effect on the state; clock readings and measured durations are
  arguments. In the token ring the counts and bags of a thread are its own, so its steps are the
  accesses to the tokens; these are sequentially consistent, and its signed arithmetic wraps. Products and sums of \<open>double\<close> are not
  fused. The inside of Brown's tree; the scripts that build and run the experiments, beyond how they read the
  histogram, and their recorded results: other languages, input and output.
\<close>

end
